(* ===== verification/Prelude.thy ===== *)
theory Prelude
  imports "HOL-Library.Word" "HOL-Library.Monad_Syntax"
begin

text \<open>
  Shared vocabulary of the AlderKernel development: the C integer types of the i386 ABI
  as fixed-width words, little-endian byte (de)composition, byte-addressed memory,
  NUL-terminated strings, and the generic list, option and word lemmas the component
  theories use.  The named collections are
  \<^item> \<open>le_simps\<close>: little-endian encode/decode laws,
  \<^item> \<open>unat_simps\<close>: moving word arithmetic to natural numbers.
\<close>

unbundle bit_operations_syntax

section \<open>C types\<close>

type_synonym u8 = "8 word"     \<comment> \<open>unsigned char, and the bytes of a char array\<close>
type_synonym u16 = "16 word"   \<comment> \<open>unsigned short\<close>
type_synonym u32 = "32 word"   \<comment> \<open>unsigned int, and every pointer\<close>
type_synonym u64 = "64 word"   \<comment> \<open>unsigned long long\<close>

text \<open>Physical memory, byte by byte; address arithmetic wraps at 32 bits.\<close>

type_synonym memory = "u32 \<Rightarrow> u8"

named_theorems le_simps
named_theorems unat_simps

section \<open>Little-endian bytes\<close>

text \<open>The C idiom \<^verbatim>\<open>(unsigned char)((v >> 8*k) & 0xFF)\<close>.\<close>

definition byte_of :: "nat \<Rightarrow> 'a::len word \<Rightarrow> u8" where
  "byte_of k v = ucast (drop_bit (8 * k) v AND 0xFF)"

text \<open>
  The C idioms \<^verbatim>\<open>(unsigned int)a | ((unsigned int)b << 8)\<close> and its four-byte form, and
  the eight-byte little-endian load of an \<^verbatim>\<open>unsigned long long\<close>.
\<close>

definition le16 :: "u8 \<Rightarrow> u8 \<Rightarrow> u32" where
  "le16 a b = ucast a OR push_bit 8 (ucast b)"

definition le32 :: "u8 \<Rightarrow> u8 \<Rightarrow> u8 \<Rightarrow> u8 \<Rightarrow> u32" where
  "le32 a b c d = ucast a OR push_bit 8 (ucast b) OR push_bit 16 (ucast c) OR push_bit 24 (ucast d)"

definition le64 :: "u32 \<Rightarrow> u32 \<Rightarrow> u64" where
  "le64 lo hi = ucast lo OR push_bit 32 (ucast hi)"

definition read_u16 :: "memory \<Rightarrow> u32 \<Rightarrow> u16" where
  "read_u16 m a = ucast (le16 (m a) (m (a + 1)))"

definition read_u32 :: "memory \<Rightarrow> u32 \<Rightarrow> u32" where
  "read_u32 m a = le32 (m a) (m (a + 1)) (m (a + 2)) (m (a + 3))"

definition write_u32 :: "memory \<Rightarrow> u32 \<Rightarrow> u32 \<Rightarrow> memory" where
  "write_u32 m a v =
     m(a := byte_of 0 v, a + 1 := byte_of 1 v, a + 2 := byte_of 2 v, a + 3 := byte_of 3 v)"

definition read_u64 :: "memory \<Rightarrow> u32 \<Rightarrow> u64" where
  "read_u64 m a = le64 (read_u32 m a) (read_u32 m (a + 4))"

lemma and_0xFF: "v AND 0xFF = take_bit 8 (v :: 'a::len word)"
proof -
  have "(0xFF :: 'a word) = mask 8" by (simp add: mask_eq_exp_minus_1)
  then show ?thesis by (simp add: take_bit_eq_mask)
qed

lemma bit_byte_of: "bit (byte_of k v) n \<longleftrightarrow> n < 8 \<and> bit v (8 * k + n)"
  for v :: "'a::len word"
  by (auto simp: byte_of_def and_0xFF bit_simps dest: bit_imp_le_length)

lemma bit_le16: "bit (le16 a b) n \<longleftrightarrow> (if n < 8 then bit a n else bit b (n - 8))"
  by (auto simp: le16_def bit_simps dest: bit_imp_le_length)

lemma bit_le32:
  "bit (le32 a b c d) n \<longleftrightarrow>
    (if n < 8 then bit a n else if n < 16 then bit b (n - 8)
     else if n < 24 then bit c (n - 16) else bit d (n - 24))"
  by (auto simp: le32_def bit_simps dest: bit_imp_le_length)

lemma le32_byte_of [le_simps]:
  "le32 (byte_of 0 v) (byte_of (Suc 0) v) (byte_of 2 v) (byte_of 3 v) = v"
  by (rule bit_word_eqI) (auto simp: bit_le32 bit_byte_of)

lemma byte_of_le32 [le_simps]:
  "byte_of 0 (le32 a b c d) = a" "byte_of (Suc 0) (le32 a b c d) = b"
  "byte_of 2 (le32 a b c d) = c" "byte_of 3 (le32 a b c d) = d"
  by (rule bit_word_eqI; auto simp: bit_le32 bit_byte_of)+

lemma le16_byte_of [le_simps]:
  "le16 (byte_of 0 v) (byte_of (Suc 0) v) = take_bit 16 (ucast v)" for v :: "'a::len word"
  by (rule bit_word_eqI) (auto simp: bit_le16 bit_byte_of bit_simps dest: bit_imp_le_length)

section \<open>Word arithmetic without wrap-around\<close>

lemma unat_ucast_widen [unat_simps]:
  "LENGTH('a::len) \<le> LENGTH('b::len) \<Longrightarrow> unat (ucast (w :: 'a word) :: 'b word) = unat w"
  by (simp add: unsigned_ucast_eq take_bit_nat_eq_self
      order_less_le_trans [OF unsigned_less power_increasing])

lemma unat_add_nowrap [unat_simps]:
  "unat a + unat b < 2 ^ LENGTH('a) \<Longrightarrow> unat (a + b) = unat a + unat b" for a b :: "'a::len word"
  by (simp add: unat_word_ariths)

lemma unat_mult_nowrap [unat_simps]:
  "unat a * unat b < 2 ^ LENGTH('a) \<Longrightarrow> unat (a * b) = unat a * unat b" for a b :: "'a::len word"
  by (simp add: unat_word_ariths)

lemma unat_plus_of_nat:
  "unat p + n < 2 ^ LENGTH('a) \<Longrightarrow> unat (p + of_nat n) = unat p + n" for p :: "'a::len word"
  by (simp add: unat_word_ariths unat_of_nat mod_add_right_eq)

lemma unat_of_nat_small [unat_simps]:
  "n < 2 ^ LENGTH('a) \<Longrightarrow> unat (of_nat n :: 'a::len word) = n"
  by (simp add: unat_of_nat)

lemma word_eq_of_nat_iff:
  "n < 2 ^ LENGTH('a) \<Longrightarrow> a = of_nat n \<longleftrightarrow> unat a = n" for a :: "'a::len word"
  by (simp add: word_unat_eq_iff unat_of_nat_small)

lemma unat_Suc_below:
  assumes "p < (q :: 'a::len word)"
  shows "unat (p + 1) = Suc (unat p)"
proof -
  from assms have "Suc (unat p) \<le> unat q" by (simp add: word_less_nat_alt)
  also have "unat q < 2 ^ LENGTH('a)" by (rule unsigned_less)
  finally show ?thesis by (subst unat_add_nowrap) simp_all
qed

text \<open>A word counting up to a limit of its own width: the measure of such loops.\<close>

lemma word_countdown:
  "b < (q :: 'a::len word) \<Longrightarrow> 2 ^ LENGTH('a) - unat (b + 1) < 2 ^ LENGTH('a) - unat b"
  by (simp add: unat_Suc_below diff_less_mono2)

lemma unat_le16: "unat (le16 a b) = unat a + 256 * unat b"
proof -
  have "le16 a b = ucast a + push_bit 8 (ucast b)"
    unfolding le16_def
    by (rule sym, rule disjunctive_add) (auto simp: bit_simps dest: bit_imp_le_length)
  also have "unat \<dots> = unat a + 256 * unat b"
    using unsigned_less [of a, where ?'a = nat] unsigned_less [of b, where ?'a = nat]
    by (simp add: push_bit_eq_mult unat_word_ariths unat_simps)
  finally show ?thesis .
qed

lemma le32_le16: "le32 a b c d = le16 a b + push_bit 16 (le16 c d)"
proof -
  have "le32 a b c d = le16 a b OR push_bit 16 (le16 c d)"
    by (rule bit_word_eqI) (auto simp: bit_le32 bit_le16 bit_simps dest: bit_imp_le_length)
  also have "\<dots> = le16 a b + push_bit 16 (le16 c d)"
    by (rule sym, rule disjunctive_add) (auto simp: bit_le16 bit_simps dest: bit_imp_le_length)
  finally show ?thesis .
qed

lemma unat_le32:
  "unat (le32 a b c d) = unat a + 256 * unat b + 65536 * (unat c + 256 * unat d)"
proof -
  have less: "unat x < 256" for x :: u8
    using unsigned_less [of x, where ?'a = nat] by simp
  have "unat (push_bit 16 (le16 c d)) = 65536 * unat (le16 c d)"
    using less [of c] less [of d]
    by (simp add: push_bit_eq_mult unat_le16 unat_word_ariths)
  then show ?thesis
    using less [of a] less [of b] less [of c] less [of d]
    by (simp add: le32_le16 unat_le16 unat_word_ariths)
qed

section \<open>Arrays and strings\<close>

text \<open>
  Array accesses that may leave the array: \<open>None\<close> stands for the undefined behaviour of an
  index out of bounds.
\<close>

definition get_at :: "'a list \<Rightarrow> nat \<Rightarrow> 'a option" where
  "get_at xs i = (if i < length xs then Some (xs ! i) else None)"

definition put_at :: "'a list \<Rightarrow> nat \<Rightarrow> 'a \<Rightarrow> 'a list option" where
  "put_at xs i v = (if i < length xs then Some (xs[i := v]) else None)"

text \<open>Copying \<open>ys\<close> over the elements of \<open>xs\<close> from index \<open>k\<close> on.\<close>

definition store_at :: "nat \<Rightarrow> 'a list \<Rightarrow> 'a list \<Rightarrow> 'a list" where
  "store_at k ys xs = take k xs @ ys @ drop (k + length ys) xs"

text \<open>
  The character at index \<open>i\<close> of a C string whose characters before the terminating NUL are
  \<open>s\<close> (or, if \<open>s\<close> has a zero itself, before that).
\<close>

definition cstr :: "u8 list \<Rightarrow> nat \<Rightarrow> u8" where
  "cstr s i = (if i < length s then s ! i else 0)"

text \<open>The bytes of a string literal, without the terminating NUL.\<close>

definition chars :: "string \<Rightarrow> u8 list" where
  "chars = map of_char"

text \<open>The characters of a C string, up to its first zero.\<close>

definition c_string :: "u8 list \<Rightarrow> u8 list" where
  "c_string s = takeWhile (\<lambda>ch. ch \<noteq> 0) s"

lemma c_string_simps [simp]:
  "c_string [] = []" "c_string (x # s) = (if x = 0 then [] else x # c_string s)"
  by (simp_all add: c_string_def)

lemma c_string_no_zero [simp]: "0 \<notin> set (c_string s)"
  by (auto simp: c_string_def dest: set_takeWhileD)

lemma c_string_id: "0 \<notin> set s \<Longrightarrow> c_string s = s"
  by (auto simp: c_string_def takeWhile_eq_all_conv)

lemma c_string_terminated: "0 \<notin> set s \<Longrightarrow> c_string (s @ 0 # s') = s"
  by (induction s) auto

lemma length_c_string: "length (c_string s) \<le> length s"
  by (simp add: c_string_def length_takeWhile_le)

text \<open>Reading a string by index, one character at a time.\<close>

lemma cstr_eq_0 [simp]: "length s \<le> i \<Longrightarrow> cstr s i = 0"
  by (simp add: cstr_def)

lemma cstr_nonzero_less: "cstr s i \<noteq> 0 \<Longrightarrow> i < length s"
  by (simp add: cstr_def split: if_splits)

lemma cstr_measure: "cstr s i \<noteq> 0 \<Longrightarrow> length s - Suc i < length s - i"
  by (simp add: cstr_def split: if_splits)

lemma c_string_drop:
  "c_string (drop i s) = (if cstr s i = 0 then [] else cstr s i # c_string (drop (Suc i) s))"
  by (cases "i < length s") (auto simp: cstr_def simp flip: Cons_nth_drop_Suc)

lemma get_at_Some [simp]: "i < length xs \<Longrightarrow> get_at xs i = Some (xs ! i)"
  by (simp add: get_at_def)

lemma put_at_Some [simp]: "i < length xs \<Longrightarrow> put_at xs i v = Some (xs[i := v])"
  by (simp add: put_at_def)

lemma length_store_at [simp]: "k + length ys \<le> length xs \<Longrightarrow> length (store_at k ys xs) = length xs"
  by (simp add: store_at_def)

lemma nth_store_at:
  assumes "k + length ys \<le> length xs" and "i < length xs"
  shows "store_at k ys xs ! i = (if k \<le> i \<and> i < k + length ys then ys ! (i - k) else xs ! i)"
  using assms by (auto simp: store_at_def nth_append)

lemma chars_simps [simp]: "chars [] = []" "chars (c # s) = of_char c # chars s"
  by (simp_all add: chars_def)

lemma length_chars [simp]: "length (chars s) = length s"
  by (simp add: chars_def)

lemma take_store_at [simp]: "length ys = n \<Longrightarrow> take n (store_at 0 ys xs) = ys"
  by (simp add: store_at_def)

section \<open>Halting\<close>

text \<open>
  A kernel function that may stop the processor for good (\<^verbatim>\<open>cli\<close>, then \<^verbatim>\<open>hlt\<close> for ever)
  instead of returning to its caller.
\<close>

datatype 's control = Returns 's | Halts 's

section \<open>Forward simulation\<close>

text \<open>
  A component that answers a sequence of operations, and the abstract machine it implements:
  if every single operation gives the same answer and keeps the two states related, so does
  every sequence.  \<open>pre\<close> is what the caller has to respect, judged on the abstract state.
\<close>

fun run_ops :: "('op \<Rightarrow> 's \<Rightarrow> 'out \<times> 's) \<Rightarrow> 'op list \<Rightarrow> 's \<Rightarrow> 'out list \<times> 's" where
  "run_ops f [] s = ([], s)"
| "run_ops f (x # xs) s =
     (case f x s of (out, s) \<Rightarrow> case run_ops f xs s of (outs, s) \<Rightarrow> (out # outs, s))"

fun pre_ops :: "('op \<Rightarrow> 's \<Rightarrow> 'out \<times> 's) \<Rightarrow> ('op \<Rightarrow> 's \<Rightarrow> bool) \<Rightarrow> 'op list \<Rightarrow> 's \<Rightarrow> bool" where
  "pre_ops f pre [] s \<longleftrightarrow> True"
| "pre_ops f pre (x # xs) s \<longleftrightarrow> pre x s \<and> pre_ops f pre xs (snd (f x s))"

locale simulation =
  fixes impl :: "'op \<Rightarrow> 's \<Rightarrow> 'out \<times> 's"
    and spec :: "'op \<Rightarrow> 'a \<Rightarrow> 'out \<times> 'a"
    and pre :: "'op \<Rightarrow> 'a \<Rightarrow> bool"
    and rel :: "'s \<Rightarrow> 'a \<Rightarrow> bool"
  assumes step_out: "rel s a \<Longrightarrow> pre x a \<Longrightarrow> fst (impl x s) = fst (spec x a)"
    and step_rel: "rel s a \<Longrightarrow> pre x a \<Longrightarrow> rel (snd (impl x s)) (snd (spec x a))"
begin

lemma run_sim:
  assumes "rel s a" and "pre_ops spec pre xs a"
  shows "fst (run_ops impl xs s) = fst (run_ops spec xs a)
       \<and> rel (snd (run_ops impl xs s)) (snd (run_ops spec xs a))"
  using assms
proof (induction xs arbitrary: s a)
  case (Cons x xs)
  from Cons.IH [OF step_rel, of s a x] Cons.prems step_out [of s a x]
  show ?case by (simp add: split_beta)
qed simp

lemmas run_out = run_sim [THEN conjunct1]
lemmas run_rel = run_sim [THEN conjunct2]

end

text \<open>The same for operations that may be undefined or fail to return: on related states they do not.\<close>

fun run_opt :: "('op \<Rightarrow> 's \<Rightarrow> ('out \<times> 's) option) \<Rightarrow> 'op list \<Rightarrow> 's \<Rightarrow> ('out list \<times> 's) option" where
  "run_opt f [] s = Some ([], s)"
| "run_opt f (x # xs) s =
     do { (out, s) \<leftarrow> f x s; (outs, s) \<leftarrow> run_opt f xs s; Some (out # outs, s) }"

locale guarded_simulation =
  fixes impl :: "'op \<Rightarrow> 's \<Rightarrow> ('out \<times> 's) option"
    and spec :: "'op \<Rightarrow> 'a \<Rightarrow> 'out \<times> 'a"
    and pre :: "'op \<Rightarrow> 'a \<Rightarrow> bool"
    and rel :: "'s \<Rightarrow> 'a \<Rightarrow> bool"
  assumes step_defined: "rel s a \<Longrightarrow> pre x a \<Longrightarrow> \<exists>s'. impl x s = Some (fst (spec x a), s') \<and> rel s' (snd (spec x a))"
begin

lemma run_defined:
  assumes "rel s a" and "pre_ops spec pre xs a"
  shows "\<exists>s'. run_opt impl xs s = Some (fst (run_ops spec xs a), s') \<and> rel s' (snd (run_ops spec xs a))"
  using assms
proof (induction xs arbitrary: s a)
  case (Cons x xs)
  from step_defined [OF Cons.prems(1), of x] Cons.prems(2) obtain s1
    where 1: "impl x s = Some (fst (spec x a), s1)" "rel s1 (snd (spec x a))" by auto
  from Cons.IH [OF 1(2)] Cons.prems(2) 1(1) show ?case by (auto simp: split_beta)
qed simp

end

lemma pre_ops_True [simp]: "pre_ops f (\<lambda>_ _. True) xs s"
  by (induction xs arbitrary: s) simp_all

text \<open>Operations the caller may use in any state.\<close>

locale total_simulation =
  fixes impl :: "'op \<Rightarrow> 's \<Rightarrow> ('out \<times> 's) option"
    and spec :: "'op \<Rightarrow> 'a \<Rightarrow> 'out \<times> 'a"
    and rel :: "'s \<Rightarrow> 'a \<Rightarrow> bool"
  assumes step_total: "rel s a \<Longrightarrow> \<exists>s'. impl x s = Some (fst (spec x a), s') \<and> rel s' (snd (spec x a))"

sublocale total_simulation \<subseteq> guarded: guarded_simulation impl spec "\<lambda>_ _. True" rel
  by unfold_locales (rule step_total)

context total_simulation
begin

lemma run_total:
  assumes "rel s a"
  shows "\<exists>s'. run_opt impl xs s = Some (fst (run_ops spec xs a), s') \<and> rel s' (snd (run_ops spec xs a))"
  by (rule guarded.run_defined [OF assms pre_ops_True])

end

lemma run_ops_append: "snd (run_ops f (xs @ ys) s) = snd (run_ops f ys (snd (run_ops f xs s)))"
  by (induction xs arbitrary: s) (simp_all add: split_beta)

end
