(* ===== verification/Pmm.thy ===== *)
theory Pmm
  imports Prelude
begin

text \<open>
  The physical page allocator, \<^verbatim>\<open>kernel/mm/pmm.c\<close>, with the multiboot structures of
  \<^verbatim>\<open>kernel/mm/multiboot.h\<close> it reads from memory.

  The state is the C file's two static variables.  \<open>bitmap\<close> has one bit per page, set
  when the page is reserved; \<open>free_pages_count\<close> is the cached number of clear bits.
  The abstract view is the set \<open>avail\<close> of free page numbers, and the locale
  \<open>page_source\<close> is the contract the heap relies on.
\<close>

section \<open>Constants and multiboot data\<close>

abbreviation PAGE_SHIFT :: nat where "PAGE_SHIFT \<equiv> 12"
abbreviation MAX_MANAGED_MEMORY :: "'a::len word" where "MAX_MANAGED_MEMORY \<equiv> 0x8000000"
abbreviation MAX_PAGES :: nat where "MAX_PAGES \<equiv> 32768"
abbreviation BITMAP_SIZE :: nat where "BITMAP_SIZE \<equiv> 4096"
abbreviation MULTIBOOT_INFO_MEM_MAP :: u32 where "MULTIBOOT_INFO_MEM_MAP \<equiv> 0x40"

record multiboot_info =
  mbi_flags :: u32
  mbi_mem_lower :: u32
  mbi_mem_upper :: u32
  mbi_boot_device :: u32
  mbi_cmdline :: u32
  mbi_mods_count :: u32
  mbi_mods_addr :: u32
  mbi_syms :: "u32 list"
  mbi_mmap_length :: u32
  mbi_mmap_addr :: u32

text \<open>
  The packed struct at address \<open>a\<close>, field by field: the allocator looks at \<open>flags\<close>
  (offset 0), \<open>mmap_length\<close> (44) and \<open>mmap_addr\<close> (48).
\<close>

definition read_mbi :: "memory \<Rightarrow> u32 \<Rightarrow> multiboot_info" where
  "read_mbi m a = \<lparr>mbi_flags = read_u32 m a, mbi_mem_lower = read_u32 m (a + 4),
     mbi_mem_upper = read_u32 m (a + 8), mbi_boot_device = read_u32 m (a + 12),
     mbi_cmdline = read_u32 m (a + 16), mbi_mods_count = read_u32 m (a + 20),
     mbi_mods_addr = read_u32 m (a + 24),
     mbi_syms = [read_u32 m (a + 28), read_u32 m (a + 32), read_u32 m (a + 36), read_u32 m (a + 40)],
     mbi_mmap_length = read_u32 m (a + 44), mbi_mmap_addr = read_u32 m (a + 48)\<rparr>"

record multiboot_mmap_entry =
  me_size :: u32
  me_base_addr :: u64
  me_length :: u64
  me_type :: u32

definition read_mmap_entry :: "memory \<Rightarrow> u32 \<Rightarrow> multiboot_mmap_entry" where
  "read_mmap_entry m a = \<lparr>me_size = read_u32 m a, me_base_addr = read_u64 m (a + 4),
     me_length = read_u64 m (a + 12), me_type = read_u32 m (a + 20)\<rparr>"

section \<open>State and operations\<close>

record pmm =
  bitmap :: "u8 list"
  free_pages_count :: u32

text \<open>
  The bitmap accessors.  Every caller below keeps \<open>page < MAX_PAGES\<close>, so the index
  \<open>page / 8\<close> stays inside the array of \<open>BITMAP_SIZE\<close> bytes.
\<close>

definition bitmap_set :: "u32 \<Rightarrow> u8 list \<Rightarrow> u8 list" where
  "bitmap_set page bm =
     bm[unat (page div 8) := (bm ! unat (page div 8)) OR push_bit (unat (page mod 8)) 1]"

definition bitmap_clear :: "u32 \<Rightarrow> u8 list \<Rightarrow> u8 list" where
  "bitmap_clear page bm =
     bm[unat (page div 8) := (bm ! unat (page div 8)) AND NOT (push_bit (unat (page mod 8)) 1)]"

definition bitmap_test :: "u32 \<Rightarrow> u8 list \<Rightarrow> bool" where
  "bitmap_test page bm \<longleftrightarrow> (bm ! unat (page div 8)) AND push_bit (unat (page mod 8)) 1 \<noteq> 0"

definition reserve_page :: "u32 \<Rightarrow> pmm \<Rightarrow> pmm" where
  "reserve_page page s =
     (if page < of_nat MAX_PAGES \<and> \<not> bitmap_test page (bitmap s)
      then s\<lparr>bitmap := bitmap_set page (bitmap s), free_pages_count := free_pages_count s - 1\<rparr>
      else s)"

text \<open>The loop over the pages of one usable region.\<close>

function free_region :: "u32 \<Rightarrow> u32 \<Rightarrow> pmm \<Rightarrow> pmm" where
  "free_region p last_page s =
     (if p < last_page \<and> p < of_nat MAX_PAGES
      then free_region (p + 1) last_page
        (if bitmap_test p (bitmap s)
         then s\<lparr>bitmap := bitmap_clear p (bitmap s), free_pages_count := free_pages_count s + 1\<rparr>
         else s)
      else s)"
  by pat_completeness auto
termination
  by (relation "measure (\<lambda>(p, l, s). MAX_PAGES - unat p)")
    (auto simp: unat_Suc_below word_less_nat_alt)

declare free_region.simps [simp del]

definition first_page :: "multiboot_mmap_entry \<Rightarrow> u32" where
  "first_page e = ucast (drop_bit PAGE_SHIFT (me_base_addr e))"

definition last_page :: "multiboot_mmap_entry \<Rightarrow> u32" where
  "last_page e =
     (let region_end = me_base_addr e + me_length e;
          region_end = (if region_end > MAX_MANAGED_MEMORY then MAX_MANAGED_MEMORY else region_end)
      in ucast (drop_bit PAGE_SHIFT region_end))"

text \<open>
  The walk over the memory map.  The pointer advances by \<open>entry->size + 4\<close> modulo
  \<open>2 ^ 32\<close>, so the loop need not end: \<open>None\<close> is a walk that never returns.
\<close>

partial_function (option) walk_mmap :: "memory \<Rightarrow> u32 \<Rightarrow> u32 \<Rightarrow> pmm \<Rightarrow> pmm option" where
  "walk_mmap m ptr limit s =
     (if ptr < limit
      then let entry = read_mmap_entry m ptr;
               s' = (if me_type entry = 1 then free_region (first_page entry) (last_page entry) s else s)
           in walk_mmap m (ptr + (me_size entry + 4)) limit s'
      else Some s)"

definition reserve_all :: "pmm \<Rightarrow> pmm" where
  "reserve_all s = s\<lparr>bitmap := fold (\<lambda>i. bitmap_set (of_nat i)) [0..<MAX_PAGES] (bitmap s),
     free_pages_count := 0\<rparr>"

definition reserve_kernel :: "u32 \<Rightarrow> pmm \<Rightarrow> pmm" where
  "reserve_kernel kernel_end s =
     (let kernel_end_page = drop_bit PAGE_SHIFT kernel_end + 1
      in fold (\<lambda>i. reserve_page (of_nat i)) [0..<min (unat kernel_end_page) MAX_PAGES] s)"

text \<open>\<open>kernel_end\<close> is the address of the linker symbol \<open>_kernel_end\<close>.\<close>

definition pmm_init :: "memory \<Rightarrow> u32 \<Rightarrow> u32 \<Rightarrow> pmm \<Rightarrow> pmm option" where
  "pmm_init m kernel_end multiboot_info_addr s =
     do {
       let s = reserve_all s;
       s \<leftarrow> (if multiboot_info_addr \<noteq> 0
             then let mbi = read_mbi m multiboot_info_addr
                  in if mbi_flags mbi AND MULTIBOOT_INFO_MEM_MAP \<noteq> 0
                     then walk_mmap m (mbi_mmap_addr mbi) (mbi_mmap_addr mbi + mbi_mmap_length mbi) s
                     else Some s
             else Some s);
       Some (reserve_kernel kernel_end s)
     }"

text \<open>The search loop of \<open>pmm_alloc_page\<close>, from page \<open>i\<close> on.\<close>

function alloc_from :: "nat \<Rightarrow> pmm \<Rightarrow> u32 \<times> pmm" where
  "alloc_from i s =
     (if i < MAX_PAGES
      then if \<not> bitmap_test (of_nat i) (bitmap s)
           then (push_bit PAGE_SHIFT (of_nat i),
                 s\<lparr>bitmap := bitmap_set (of_nat i) (bitmap s),
                   free_pages_count := free_pages_count s - 1\<rparr>)
           else alloc_from (Suc i) s
      else (0, s))"
  by pat_completeness auto
termination
  by (relation "measure (\<lambda>(i, s). MAX_PAGES - i)") auto

declare alloc_from.simps [simp del]

definition pmm_alloc_page :: "pmm \<Rightarrow> u32 \<times> pmm" where
  "pmm_alloc_page s = alloc_from 0 s"

definition pmm_free_page :: "u32 \<Rightarrow> pmm \<Rightarrow> pmm" where
  "pmm_free_page addr s =
     (let page = drop_bit PAGE_SHIFT addr
      in if page < of_nat MAX_PAGES \<and> bitmap_test page (bitmap s)
         then s\<lparr>bitmap := bitmap_clear page (bitmap s), free_pages_count := free_pages_count s + 1\<rparr>
         else s)"

definition pmm_get_free_page_count :: "pmm \<Rightarrow> u32" where
  "pmm_get_free_page_count s = free_pages_count s"

definition pmm_get_total_page_count :: "pmm \<Rightarrow> u32" where
  "pmm_get_total_page_count s = of_nat MAX_PAGES"

section \<open>Bitmap lemmas\<close>

lemma bitmap_test_bit: "bitmap_test p bm \<longleftrightarrow> bit (bm ! (unat p div 8)) (unat p mod 8)"
  by (simp add: bitmap_test_def bit_iff_and_push_bit_not_eq_0 unat_div unat_mod)

lemma same_slot:
  "unat p div 8 = unat q div 8 \<and> unat p mod 8 = unat q mod 8 \<longleftrightarrow> p = q" for p q :: u32
  by (metis div_mult_mod_eq word_unat_eq_iff)

lemma length_bitmap_set [simp]: "length (bitmap_set p bm) = length bm"
  by (simp add: bitmap_set_def)

lemma length_bitmap_clear [simp]: "length (bitmap_clear p bm) = length bm"
  by (simp add: bitmap_clear_def)

lemma bitmap_test_set [simp]:
  "unat q < 8 * length bm \<Longrightarrow> bitmap_test p (bitmap_set q bm) \<longleftrightarrow> p = q \<or> bitmap_test p bm"
  using same_slot [of p q]
  by (auto simp: bitmap_test_bit bitmap_set_def nth_list_update bit_simps unat_div unat_mod)

lemma bitmap_test_clear [simp]:
  "unat q < 8 * length bm \<Longrightarrow> bitmap_test p (bitmap_clear q bm) \<longleftrightarrow> p \<noteq> q \<and> bitmap_test p bm"
  using same_slot [of p q]
  by (auto simp: bitmap_test_bit bitmap_clear_def nth_list_update bit_simps unat_div unat_mod)

section \<open>The set of free pages and the invariant\<close>

definition avail :: "pmm \<Rightarrow> nat set" where
  "avail s = {p. p < MAX_PAGES \<and> \<not> bitmap_test (of_nat p) (bitmap s)}"

definition pmm_inv :: "pmm \<Rightarrow> bool" where
  "pmm_inv s \<longleftrightarrow> length (bitmap s) = BITMAP_SIZE \<and> unat (free_pages_count s) = card (avail s)"

abbreviation claimed :: "u32 \<Rightarrow> pmm \<Rightarrow> pmm" where
  "claimed p s \<equiv> s\<lparr>bitmap := bitmap_set p (bitmap s), free_pages_count := free_pages_count s - 1\<rparr>"

abbreviation released :: "u32 \<Rightarrow> pmm \<Rightarrow> pmm" where
  "released p s \<equiv> s\<lparr>bitmap := bitmap_clear p (bitmap s), free_pages_count := free_pages_count s + 1\<rparr>"

lemma page_word_eq: "p < MAX_PAGES \<Longrightarrow> q < MAX_PAGES \<Longrightarrow> (of_nat p :: u32) = of_nat q \<longleftrightarrow> p = q"
  by (simp add: word_unat_eq_iff unat_simps)

lemma page_of_word: "p < of_nat MAX_PAGES \<Longrightarrow> unat p < MAX_PAGES \<and> of_nat (unat p) = p" for p :: u32
  by (simp add: word_less_nat_alt)

lemma avail_subset: "avail s \<subseteq> {..<MAX_PAGES}"
  by (auto simp: avail_def)

lemma finite_avail [simp]: "finite (avail s)"
  by (rule finite_subset [OF avail_subset]) simp

lemma card_avail_le: "card (avail s) \<le> MAX_PAGES"
  using card_mono [OF _ avail_subset] by simp

lemma claimed_avail:
  assumes "pmm_inv s" and "p \<in> avail s"
  shows "pmm_inv (claimed (of_nat p) s)" and "avail (claimed (of_nat p) s) = avail s - {p}"
proof -
  from assms have p: "p < MAX_PAGES" and len: "length (bitmap s) = BITMAP_SIZE"
    by (auto simp: avail_def pmm_inv_def)
  then show av: "avail (claimed (of_nat p) s) = avail s - {p}"
    by (auto simp: avail_def unat_simps page_word_eq)
  have "unat (free_pages_count s) = Suc (card (avail s - {p}))"
    using assms card_Suc_Diff1 [of "avail s" p] by (simp add: pmm_inv_def)
  then show "pmm_inv (claimed (of_nat p) s)"
    using len av by (simp add: pmm_inv_def unat_sub word_le_nat_alt)
qed

lemma released_avail:
  assumes "pmm_inv s" and "p < MAX_PAGES" and "p \<notin> avail s"
  shows "pmm_inv (released (of_nat p) s)" and "avail (released (of_nat p) s) = insert p (avail s)"
proof -
  from assms have len: "length (bitmap s) = BITMAP_SIZE"
    by (auto simp: pmm_inv_def)
  with assms(2) show av: "avail (released (of_nat p) s) = insert p (avail s)"
    by (auto simp: avail_def unat_simps page_word_eq)
  have "unat (free_pages_count s) \<le> MAX_PAGES"
    using assms card_avail_le [of s] by (simp add: pmm_inv_def)
  then show "pmm_inv (released (of_nat p) s)"
    using len av assms by (simp add: pmm_inv_def unat_simps)
qed

lemma reserve_page_avail:
  assumes "pmm_inv s" and "p < MAX_PAGES"
  shows "pmm_inv (reserve_page (of_nat p) s)" and "avail (reserve_page (of_nat p) s) = avail s - {p}"
proof -
  have "(of_nat p :: u32) < of_nat MAX_PAGES"
    using assms(2) by (simp add: word_less_nat_alt unat_simps)
  then have "reserve_page (of_nat p) s = (if p \<in> avail s then claimed (of_nat p) s else s)"
    using assms(2) by (simp add: reserve_page_def avail_def)
  then show "pmm_inv (reserve_page (of_nat p) s)" "avail (reserve_page (of_nat p) s) = avail s - {p}"
    using assms claimed_avail [OF assms(1), of p] by simp_all
qed

lemma free_region_avail:
  "pmm_inv s \<Longrightarrow> pmm_inv (free_region p l s) \<and>
     avail (free_region p l s) = avail s \<union> {unat p..<min (unat l) MAX_PAGES}"
proof (induction p l s rule: free_region.induct)
  case (1 p l s)
  show ?case
  proof (cases "p < l \<and> p < of_nat MAX_PAGES")
    case True
    let ?s = "if bitmap_test p (bitmap s) then released p s else s"
    have p: "unat p < MAX_PAGES" "of_nat (unat p) = p" "unat (p + 1) = Suc (unat p)"
      using True page_of_word [of p] unat_Suc_below [of p l] by auto
    have "unat p \<in> avail s \<longleftrightarrow> \<not> bitmap_test p (bitmap s)"
      using p by (simp add: avail_def)
    then have s: "pmm_inv ?s" "avail ?s = insert (unat p) (avail s)"
      using p released_avail [OF "1.prems", of "unat p"] "1.prems" by (auto simp: insert_absorb)
    have "free_region p l s = free_region (p + 1) l ?s"
      using True by (simp add: free_region.simps [of p l s])
    moreover have "{unat p..<min (unat l) MAX_PAGES} = insert (unat p) {unat (p + 1)..<min (unat l) MAX_PAGES}"
      using True p by (auto simp: word_less_nat_alt)
    ultimately show ?thesis
      using "1.IH" [OF True s(1)] s(2) by simp
  next
    case False
    then show ?thesis
      using "1.prems" by (auto simp: free_region.simps [of p l s] word_less_nat_alt)
  qed
qed

lemma fold_reserve_avail:
  "n \<le> MAX_PAGES \<Longrightarrow> pmm_inv s \<Longrightarrow>
     pmm_inv (fold (\<lambda>i. reserve_page (of_nat i)) [0..<n] s) \<and>
     avail (fold (\<lambda>i. reserve_page (of_nat i)) [0..<n] s) = avail s - {..<n}"
  by (induction n) (auto simp: reserve_page_avail lessThan_Suc)

lemma fold_set_all:
  "n \<le> 8 * length bm \<Longrightarrow> n \<le> MAX_PAGES \<Longrightarrow>
     length (fold (\<lambda>i. bitmap_set (of_nat i)) [0..<n] bm) = length bm \<and>
     (\<forall>p < n. bitmap_test (of_nat p) (fold (\<lambda>i. bitmap_set (of_nat i)) [0..<n] bm))"
  by (induction n) (auto simp: unat_simps less_Suc_eq)

lemma reserve_all_avail:
  assumes "length (bitmap s) = BITMAP_SIZE"
  shows "pmm_inv (reserve_all s)" and "avail (reserve_all s) = {}"
  using fold_set_all [of MAX_PAGES "bitmap s"] assms
  by (auto simp: pmm_inv_def reserve_all_def avail_def)

lemma reserve_kernel_avail:
  assumes "pmm_inv s"
  shows "pmm_inv (reserve_kernel ke s)"
    and "avail (reserve_kernel ke s) = avail s - {..<Suc (unat ke div 4096)}"
proof -
  have "unat (drop_bit PAGE_SHIFT ke + 1) = Suc (unat ke div 4096)"
    using unsigned_less [of ke, where ?'a = nat]
    by (subst unat_add_nowrap) (auto simp: unat_div drop_bit_eq_div)
  then show "pmm_inv (reserve_kernel ke s)" "avail (reserve_kernel ke s) = avail s - {..<Suc (unat ke div 4096)}"
    using fold_reserve_avail [of "min (Suc (unat ke div 4096)) MAX_PAGES" s] assms avail_subset [of s]
    by (auto simp: reserve_kernel_def)
qed

section \<open>Allocation and release\<close>

definition page_addr :: "nat \<Rightarrow> u32" where
  "page_addr p = of_nat (p * 4096)"

lemma unat_page_addr: "p < MAX_PAGES \<Longrightarrow> unat (page_addr p) = p * 4096"
  by (simp add: page_addr_def unat_simps)

lemma page_of_page_addr: "p < MAX_PAGES \<Longrightarrow> drop_bit PAGE_SHIFT (page_addr p) = of_nat p"
  by (simp add: drop_bit_eq_div word_unat_eq_iff unat_div unat_page_addr unat_simps)

lemma alloc_from_avail:
  "alloc_from i s =
     (if avail s \<inter> {i..} = {} then (0, s)
      else (page_addr (Min (avail s \<inter> {i..})), claimed (of_nat (Min (avail s \<inter> {i..}))) s))"
proof (induction i s rule: alloc_from.induct)
  case (1 i s)
  consider (out) "\<not> i < MAX_PAGES" | (hit) "i \<in> avail s" | (miss) "i < MAX_PAGES" "i \<notin> avail s"
    by blast
  then show ?case
  proof cases
    case out
    then have "avail s \<inter> {i..} = {}" using avail_subset [of s] by auto
    with out show ?thesis by (simp add: alloc_from.simps [of i s])
  next
    case hit
    then have "i < MAX_PAGES" and free: "\<not> bitmap_test (of_nat i) (bitmap s)"
      by (auto simp: avail_def)
    moreover have "Min (avail s \<inter> {i..}) = i"
      using hit by (intro Min_eqI) auto
    moreover have "push_bit PAGE_SHIFT (of_nat i) = page_addr i"
      by (simp add: push_bit_eq_mult page_addr_def)
    ultimately show ?thesis
      using hit by (auto simp: alloc_from.simps [of i s])
  next
    case miss
    then have "avail s \<inter> {i..} = avail s \<inter> {Suc i..}"
      by (auto simp: Suc_le_eq order.order_iff_strict)
    moreover have "alloc_from i s = alloc_from (Suc i) s"
      using miss by (simp add: alloc_from.simps [of i s] avail_def)
    moreover have "bitmap_test (of_nat i) (bitmap s)"
      using miss by (simp add: avail_def)
    ultimately show ?thesis using "1.IH" miss(1) by simp
  qed
qed

lemma pmm_alloc_empty: "avail s = {} \<Longrightarrow> pmm_alloc_page s = (0, s)"
  by (simp add: pmm_alloc_page_def alloc_from_avail)

lemma pmm_alloc_lowest:
  assumes "avail s \<noteq> {}"
  shows "pmm_alloc_page s = (page_addr (Min (avail s)), claimed (of_nat (Min (avail s))) s)"
  using assms by (simp add: pmm_alloc_page_def alloc_from_avail)

lemma pmm_free_avail:
  assumes "pmm_inv s" and "p < MAX_PAGES"
  shows "pmm_inv (pmm_free_page (page_addr p) s)"
    and "avail (pmm_free_page (page_addr p) s) = insert p (avail s)"
proof -
  have "(of_nat p :: u32) < of_nat MAX_PAGES"
    using assms(2) by (simp add: word_less_nat_alt unat_simps)
  then have "pmm_free_page (page_addr p) s = (if p \<in> avail s then s else released (of_nat p) s)"
    using assms(2) by (simp add: pmm_free_page_def avail_def page_of_page_addr)
  then show "pmm_inv (pmm_free_page (page_addr p) s)"
    "avail (pmm_free_page (page_addr p) s) = insert p (avail s)"
    using assms released_avail [OF assms] by (auto simp: insert_absorb)
qed

section \<open>The contract of a page allocator\<close>

locale page_source =
  fixes alloc :: "'s \<Rightarrow> u32 \<times> 's"
    and release :: "u32 \<Rightarrow> 's \<Rightarrow> 's"
    and pages :: "'s \<Rightarrow> nat set"
    and invar :: "'s \<Rightarrow> bool"
  assumes pages_bound: "pages s \<subseteq> {..<MAX_PAGES}"
    and alloc_empty: "invar s \<Longrightarrow> pages s = {} \<Longrightarrow> alloc s = (0, s)"
    and alloc_lowest: "invar s \<Longrightarrow> pages s \<noteq> {} \<Longrightarrow> fst (alloc s) = page_addr (Min (pages s))"
    and alloc_pages: "invar s \<Longrightarrow> pages s \<noteq> {} \<Longrightarrow> pages (snd (alloc s)) = pages s - {Min (pages s)}"
    and alloc_invar: "invar s \<Longrightarrow> invar (snd (alloc s))"
    and release_pages: "invar s \<Longrightarrow> p < MAX_PAGES \<Longrightarrow> pages (release (page_addr p) s) = insert p (pages s)"
    and release_invar: "invar s \<Longrightarrow> p < MAX_PAGES \<Longrightarrow> invar (release (page_addr p) s)"
begin

lemma finite_pages [simp]: "finite (pages s)"
  by (rule finite_subset [OF pages_bound]) simp

lemma Min_pages: "pages s \<noteq> {} \<Longrightarrow> Min (pages s) \<in> pages s \<and> Min (pages s) < MAX_PAGES"
  using pages_bound [of s] Min_in [OF finite_pages, of s] by blast

text \<open>A null result means exhaustion, as long as page 0 is never free.\<close>

lemma alloc_null_iff:
  assumes "invar s" and "0 \<notin> pages s"
  shows "fst (alloc s) = 0 \<longleftrightarrow> pages s = {}"
proof (cases "pages s = {}")
  case False
  then have "Min (pages s) \<noteq> 0" "Min (pages s) < MAX_PAGES"
    using Min_pages [OF False] assms(2) by auto
  then have "unat (page_addr (Min (pages s))) \<noteq> 0"
    by (simp add: unat_page_addr)
  with False assms show ?thesis by (auto simp: alloc_lowest)
qed (use assms in \<open>simp add: alloc_empty\<close>)

text \<open>Handing the page just allocated back restores the set of free pages.\<close>

lemma release_alloc:
  assumes "invar s" and "pages s \<noteq> {}"
  shows "pages (release (fst (alloc s)) (snd (alloc s))) = pages s"
  using assms Min_pages [OF assms(2)]
  by (simp add: alloc_lowest alloc_pages alloc_invar release_pages insert_absorb)

end

interpretation pmm: page_source pmm_alloc_page pmm_free_page avail pmm_inv
proof
  fix s assume inv: "pmm_inv s"
  show "pmm_inv (snd (pmm_alloc_page s))"
    using claimed_avail(1) [OF inv Min_in] inv
    by (cases "avail s = {}") (simp_all add: pmm_alloc_empty pmm_alloc_lowest)
  assume "avail s \<noteq> {}"
  then show "avail (snd (pmm_alloc_page s)) = avail s - {Min (avail s)}"
    by (simp add: pmm_alloc_lowest claimed_avail(2) [OF inv Min_in])
qed (simp_all add: avail_subset pmm_alloc_empty pmm_alloc_lowest pmm_free_avail)


section \<open>Initialisation from the memory map\<close>

text \<open>
  \<open>mmap_chain m ptr limit es\<close>: starting at \<open>ptr\<close>, the walk meets exactly the entries \<open>es\<close>
  and then leaves the map.  A finite chain is the condition under which the loop ends.
\<close>

primrec mmap_chain :: "memory \<Rightarrow> u32 \<Rightarrow> u32 \<Rightarrow> multiboot_mmap_entry list \<Rightarrow> bool" where
  "mmap_chain m ptr limit [] \<longleftrightarrow> \<not> ptr < limit"
| "mmap_chain m ptr limit (e # es) \<longleftrightarrow>
     ptr < limit \<and> e = read_mmap_entry m ptr \<and> mmap_chain m (ptr + (me_size e + 4)) limit es"

text \<open>
  The pages a map entry makes available, in terms of its fields alone: none unless the type
  is 1; the first page is the one that contains the base address (its number reduced to 32
  bits, as the code stores it), the last is the last that ends by the end of the region (the
  64-bit sum of base and length) and by 128 MB.
\<close>

definition entry_pages :: "multiboot_mmap_entry \<Rightarrow> nat set" where
  "entry_pages e = {p. me_type e = 1 \<and> p < MAX_PAGES \<and>
     unat (me_base_addr e) div 4096 mod 2 ^ 32 \<le> p \<and>
     4096 * (p + 1) \<le> (unat (me_base_addr e) + unat (me_length e)) mod 2 ^ 64}"

text \<open>
  The frames a usable region really holds: those whose 4096 bytes all lie inside it.  For a
  region with a page-aligned base that neither wraps nor starts beyond the page numbers of 32
  bits, the two agree.
\<close>

definition usable_frame :: "multiboot_mmap_entry \<Rightarrow> nat \<Rightarrow> bool" where
  "usable_frame e p \<longleftrightarrow> me_type e = 1 \<and> unat (me_base_addr e) \<le> 4096 * p \<and>
     4096 * (p + 1) \<le> unat (me_base_addr e) + unat (me_length e)"

definition regular_entry :: "multiboot_mmap_entry \<Rightarrow> bool" where
  "regular_entry e \<longleftrightarrow> 4096 dvd unat (me_base_addr e) \<and> unat (me_base_addr e) < 2 ^ 44 \<and>
     unat (me_base_addr e) + unat (me_length e) < 2 ^ 64"

lemma unat_first_page: "unat (first_page e) = unat (me_base_addr e) div 4096 mod 2 ^ 32"
  by (simp add: first_page_def unsigned_ucast_eq take_bit_eq_mod drop_bit_eq_div unat_div_distrib)

lemma unat_last_page:
  "unat (last_page e) = min ((unat (me_base_addr e) + unat (me_length e)) mod 2 ^ 64) (2 ^ 27) div 4096"
proof -
  let ?r = "me_base_addr e + me_length e"
  have r: "unat ?r = (unat (me_base_addr e) + unat (me_length e)) mod 2 ^ 64"
    by (simp add: unat_word_ariths)
  let ?clip = "if ?r > MAX_MANAGED_MEMORY then MAX_MANAGED_MEMORY else ?r"
  have "unat ?clip = min (unat ?r) (2 ^ 27)"
    by (simp add: word_less_nat_alt min_def)
  moreover have "min n (2 ^ 27) div 4096 mod 2 ^ 32 = min n (2 ^ 27) div 4096" for n :: nat
    by (simp add: min_def)
  moreover have "unat (last_page e) = unat ?clip div 4096 mod 2 ^ 32"
    unfolding last_page_def Let_def unsigned_ucast_eq take_bit_eq_mod drop_bit_eq_div unat_div_distrib
    by simp
  ultimately show ?thesis unfolding r by simp
qed

lemma entry_pages_code:
  "entry_pages e =
     (if me_type e = 1 then {unat (first_page e)..<min (unat (last_page e)) MAX_PAGES} else {})"
proof -
  have "p < min n (2 ^ 27) div 4096 \<longleftrightarrow> p < MAX_PAGES \<and> 4096 * (p + 1) \<le> n" for p n :: nat
    by (auto simp: min_def)
  then show ?thesis
    by (auto simp: entry_pages_def unat_first_page unat_last_page)
qed

lemma entry_pages_regular:
  assumes "regular_entry e"
  shows "p \<in> entry_pages e \<longleftrightarrow> p < MAX_PAGES \<and> usable_frame e p"
proof -
  obtain k where k: "unat (me_base_addr e) = 4096 * k" using assms by (auto simp: regular_entry_def)
  with assms have "k < 2 ^ 32" by (simp add: regular_entry_def)
  with assms k show ?thesis by (auto simp: entry_pages_def usable_frame_def regular_entry_def)
qed

text \<open>A region with an unaligned base also gives away the page it only partly covers.\<close>

lemma unaligned_region_partial_page:
  assumes "me_type e = 1" and "unat (me_base_addr e) = 4096 * p + r" and "0 < r" and "r < 4096"
    and "p < MAX_PAGES" and "4096 * (p + 1) \<le> unat (me_base_addr e) + unat (me_length e)"
    and "unat (me_base_addr e) + unat (me_length e) < 2 ^ 64"
  shows "p \<in> entry_pages e \<and> \<not> usable_frame e p"
  using assms by (simp add: entry_pages_def usable_frame_def)

lemma walk_mmap_chain:
  "mmap_chain m ptr limit es \<Longrightarrow> pmm_inv s \<Longrightarrow>
     \<exists>s'. walk_mmap m ptr limit s = Some s' \<and> pmm_inv s' \<and> avail s' = avail s \<union> (\<Union>e \<in> set es. entry_pages e)"
proof (induction es arbitrary: ptr s)
  case Nil
  then show ?case by (simp add: walk_mmap.simps)
next
  case (Cons e es)
  define s1 where "s1 = (if me_type e = 1 then free_region (first_page e) (last_page e) s else s)"
  from Cons.prems(2) have s1: "pmm_inv s1" "avail s1 = avail s \<union> entry_pages e"
    using free_region_avail [of s "first_page e" "last_page e"] by (auto simp: s1_def entry_pages_code)
  from Cons.prems(1) have "walk_mmap m ptr limit s = walk_mmap m (ptr + (me_size e + 4)) limit s1"
    by (simp add: walk_mmap.simps [of m ptr limit s] s1_def Let_def)
  moreover have "mmap_chain m (ptr + (me_size e + 4)) limit es"
    using Cons.prems(1) by auto
  then obtain s' where "walk_mmap m (ptr + (me_size e + 4)) limit s1 = Some s'" "pmm_inv s'"
    "avail s' = avail s1 \<union> (\<Union>e \<in> set es. entry_pages e)"
    using Cons.IH [OF _ s1(1)] by blast
  ultimately show ?case using s1(2) by auto
qed

text \<open>
  The positions at which the walk finds an entry, and the condition under which it ends:
  none of its steps passes the end of the address space.
\<close>

inductive walk_visits :: "memory \<Rightarrow> u32 \<Rightarrow> u32 \<Rightarrow> u32 \<Rightarrow> bool" for m start limit where
  first: "start < limit \<Longrightarrow> walk_visits m start limit start"
| further: "walk_visits m start limit a \<Longrightarrow> a + (read_u32 m a + 4) < limit \<Longrightarrow>
    walk_visits m start limit (a + (read_u32 m a + 4))"

lemma walk_visits_finite_chain:
  assumes "\<forall>a. walk_visits m start limit a \<longrightarrow> unat a + unat (read_u32 m a) + 4 < 2 ^ 32"
  shows "(ptr < limit \<longrightarrow> walk_visits m start limit ptr) \<Longrightarrow> \<exists>es. mmap_chain m ptr limit es"
proof (induction "unat limit - unat ptr" arbitrary: ptr rule: less_induct)
  case less
  show ?case
  proof (cases "ptr < limit")
    case False
    then have "mmap_chain m ptr limit []" by simp
    then show ?thesis ..
  next
    case True
    let ?e = "read_mmap_entry m ptr"
    let ?next = "ptr + (me_size ?e + 4)"
    have visits: "walk_visits m start limit ptr" using less.prems True by simp
    then have bound: "unat ptr + unat (me_size ?e) + 4 < 2 ^ 32"
      using assms by (simp add: read_mmap_entry_def)
    then have "unat (me_size ?e + 4) = unat (me_size ?e) + 4"
      by (subst unat_add_nowrap) simp_all
    with bound have next_eq: "unat ?next = unat ptr + (unat (me_size ?e) + 4)"
      by (subst unat_add_nowrap) simp_all
    then have "unat limit - unat ?next < unat limit - unat ptr"
      using True by (simp add: word_less_nat_alt)
    moreover have "?next < limit \<longrightarrow> walk_visits m start limit ?next"
      using walk_visits.further [OF visits] by (simp add: read_mmap_entry_def)
    ultimately obtain es where "mmap_chain m ?next limit es" using less.hyps by blast
    with True have "mmap_chain m ptr limit (?e # es)" by simp
    then show ?thesis ..
  qed
qed

text \<open>Without the condition the walk may go on forever: an entry of size \<open>-4\<close> is its own successor.\<close>

lemma walk_mmap_hangs:
  assumes "ptr < limit" and "read_u32 m ptr = - 4"
  shows "walk_mmap m ptr limit s = None"
proof (cases "walk_mmap m ptr limit s")
  case (Some s')
  have "\<not> (ptr < limit \<and> read_u32 m ptr = - 4)"
    by (rule walk_mmap.raw_induct [OF _ Some])
      (auto simp: Let_def read_mmap_entry_def split: if_splits)
  with assms show ?thesis by simp
qed

section \<open>Clients of the allocator\<close>

text \<open>
  Any interleaving of successful allocations and releases of pages still held, after
  initialisation.  \<open>held\<close> lists the addresses handed out and not yet given back.
\<close>

inductive pmm_run :: "pmm \<Rightarrow> pmm \<Rightarrow> u32 list \<Rightarrow> bool" for s0 where
  start: "pmm_run s0 s0 []"
| alloc: "pmm_run s0 s held \<Longrightarrow> pmm_alloc_page s = (a, s') \<Longrightarrow> a \<noteq> 0 \<Longrightarrow> pmm_run s0 s' (a # held)"
| release: "pmm_run s0 s held \<Longrightarrow> a \<in> set held \<Longrightarrow> pmm_run s0 (pmm_free_page a s) (remove1 a held)"

definition held_inv :: "pmm \<Rightarrow> pmm \<Rightarrow> u32 list \<Rightarrow> bool" where
  "held_inv s0 s held \<longleftrightarrow> pmm_inv s \<and> distinct held \<and>
     (\<exists>ps. set held = page_addr ` ps \<and> avail s \<inter> ps = {} \<and> avail s \<union> ps = avail s0)"

lemma page_addr_eq_iff: "p < MAX_PAGES \<Longrightarrow> q < MAX_PAGES \<Longrightarrow> page_addr p = page_addr q \<longleftrightarrow> p = q"
  by (metis mult_right_cancel unat_page_addr zero_neq_numeral)

lemma inj_on_page_addr: "ps \<subseteq> {..<MAX_PAGES} \<Longrightarrow> inj_on page_addr ps"
  by (auto simp: inj_on_def page_addr_eq_iff subset_iff)

lemma held_inv_alloc:
  assumes "held_inv s0 s held" and "pmm_alloc_page s = (a, s')" and "a \<noteq> 0"
  shows "held_inv s0 s' (a # held)"
proof -
  from assms(1) obtain ps where inv: "pmm_inv s" and d: "distinct held"
    and ps: "set held = page_addr ` ps" "avail s \<inter> ps = {}" "avail s \<union> ps = avail s0"
    by (auto simp: held_inv_def)
  have ne: "avail s \<noteq> {}" using assms(2,3) pmm.alloc_empty [OF inv] by auto
  let ?p = "Min (avail s)"
  have p: "?p \<in> avail s" "?p < MAX_PAGES" using pmm.Min_pages [OF ne] by auto
  have a: "a = page_addr ?p" "avail s' = avail s - {?p}" "pmm_inv s'"
    using pmm.alloc_lowest [OF inv ne] pmm.alloc_pages [OF inv ne] pmm.alloc_invar [OF inv] assms(2)
    by auto
  have "ps \<subseteq> {..<MAX_PAGES}" using ps(3) avail_subset [of s0] by auto
  then have "a \<notin> set held"
    using p ps(1,2) a(1) by (auto simp: page_addr_eq_iff subset_iff)
  then show ?thesis
    unfolding held_inv_def using a d ps p by (auto intro!: exI [of _ "insert ?p ps"])
qed

lemma held_inv_release:
  assumes "held_inv s0 s held" and "a \<in> set held"
  shows "held_inv s0 (pmm_free_page a s) (remove1 a held)"
proof -
  from assms(1) obtain ps where inv: "pmm_inv s" and d: "distinct held"
    and ps: "set held = page_addr ` ps" "avail s \<inter> ps = {}" "avail s \<union> ps = avail s0"
    by (auto simp: held_inv_def)
  have sub: "ps \<subseteq> {..<MAX_PAGES}" using ps(3) avail_subset [of s0] by auto
  from assms(2) ps(1) obtain p where p: "p \<in> ps" "a = page_addr p" by auto
  have "set (remove1 a held) = page_addr ` (ps - {p})"
    using d ps(1) p inj_on_page_addr [OF sub] by (auto simp: inj_on_def)
  moreover have "pmm_inv (pmm_free_page a s)" "avail (pmm_free_page a s) = insert p (avail s)"
    using p sub pmm.release_invar [OF inv, of p] pmm.release_pages [OF inv, of p] by auto
  ultimately show ?thesis
    unfolding held_inv_def using d ps p by (auto intro!: exI [of _ "ps - {p}"])
qed

lemma pmm_run_held_inv: "pmm_run s0 s held \<Longrightarrow> pmm_inv s0 \<Longrightarrow> held_inv s0 s held"
  by (induction rule: pmm_run.induct)
    (auto intro: held_inv_alloc held_inv_release simp: held_inv_def [of _ _ "[]"])

section \<open>Properties\<close>

lemma pmm_init_run:
  assumes "length (bitmap s) = BITMAP_SIZE"
    and "addr \<noteq> 0" and "mbi_flags (read_mbi m addr) AND MULTIBOOT_INFO_MEM_MAP \<noteq> 0"
    and "mmap_chain m (mbi_mmap_addr (read_mbi m addr))
           (mbi_mmap_addr (read_mbi m addr) + mbi_mmap_length (read_mbi m addr)) es"
  shows "\<exists>s'. pmm_init m kernel_end addr s = Some s' \<and> pmm_inv s' \<and>
     avail s' = (\<Union>e \<in> set es. entry_pages e) - {..unat kernel_end div 4096}"
proof -
  obtain s1 where "walk_mmap m (mbi_mmap_addr (read_mbi m addr))
      (mbi_mmap_addr (read_mbi m addr) + mbi_mmap_length (read_mbi m addr)) (reserve_all s) = Some s1"
    and "pmm_inv s1" "avail s1 = (\<Union>e \<in> set es. entry_pages e)"
    using walk_mmap_chain [OF assms(4) reserve_all_avail(1) [OF assms(1)]]
      reserve_all_avail(2) [OF assms(1)] by auto
  with assms(2,3) show ?thesis
    using reserve_kernel_avail [of s1 kernel_end]
    by (simp add: pmm_init_def Let_def lessThan_Suc_atMost)
qed

text \<open>
  C9. \<open>pmm_init\<close> with a memory map returns.  Free afterwards are exactly the pages the entries
  met by the walk give (from the page of the base, rounded down, to the end of the region,
  clipped to 128 MB), minus page 0 up to and including the page of \<open>_kernel_end\<close>; the
  invariant, with the cached count, holds.  When every usable entry has a page-aligned base
  below 2^44 and ends below 2^64, these are exactly the managed frames above the kernel all of
  whose 4096 bytes lie in some usable (\<open>type == 1\<close>) region.
\<close>

theorem pmm_init_correct:
  assumes "length (bitmap s) = BITMAP_SIZE"
    and "addr \<noteq> 0" and "mbi_flags (read_mbi m addr) AND MULTIBOOT_INFO_MEM_MAP \<noteq> 0"
    and "mmap_chain m (mbi_mmap_addr (read_mbi m addr))
           (mbi_mmap_addr (read_mbi m addr) + mbi_mmap_length (read_mbi m addr)) es"
  shows "\<exists>s'. pmm_init m kernel_end addr s = Some s' \<and> pmm_inv s' \<and>
     avail s' = (\<Union>e \<in> set es. entry_pages e) - {..unat kernel_end div 4096} \<and>
     ((\<forall>e \<in> set es. me_type e = 1 \<longrightarrow> regular_entry e) \<longrightarrow>
        avail s' = {p. p < MAX_PAGES \<and> unat kernel_end div 4096 < p \<and> (\<exists>e \<in> set es. usable_frame e p)})"
proof -
  obtain s' where s': "pmm_init m kernel_end addr s = Some s'" "pmm_inv s'"
    "avail s' = (\<Union>e \<in> set es. entry_pages e) - {..unat kernel_end div 4096}"
    using pmm_init_run [OF assms, of kernel_end] by blast
  moreover have "avail s' = {p. p < MAX_PAGES \<and> unat kernel_end div 4096 < p \<and> (\<exists>e \<in> set es. usable_frame e p)}"
    if "\<forall>e \<in> set es. me_type e = 1 \<longrightarrow> regular_entry e"
  proof -
    have "p \<in> entry_pages e \<longleftrightarrow> p < MAX_PAGES \<and> usable_frame e p" if "e \<in> set es" for e p
      using that \<open>\<forall>e \<in> set es. me_type e = 1 \<longrightarrow> regular_entry e\<close> entry_pages_regular [of e p]
      by (cases "me_type e = 1") (auto simp: entry_pages_def usable_frame_def)
    then have "(\<Union>e \<in> set es. entry_pages e) = {p. p < MAX_PAGES \<and> (\<exists>e \<in> set es. usable_frame e p)}"
      by auto
    then show ?thesis unfolding s'(3) by auto
  qed
  ultimately show ?thesis by blast
qed

text \<open>
  C10. \<open>pmm_init\<close> returns, with page 0 up to the page of \<open>_kernel_end\<close> reserved, for every
  information block and memory in which no step the walk over the map takes (from an entry it
  visits, by the size field of that entry plus 4) passes the end of the 32-bit address
  space, whatever else the entries contain.
\<close>

theorem pmm_init_terminates:
  assumes "length (bitmap s) = BITMAP_SIZE"
    and "\<forall>a. walk_visits m (mbi_mmap_addr (read_mbi m addr))
                (mbi_mmap_addr (read_mbi m addr) + mbi_mmap_length (read_mbi m addr)) a \<longrightarrow>
           unat a + unat (read_u32 m a) + 4 < 2 ^ 32"
  shows "\<exists>s'. pmm_init m kernel_end addr s = Some s' \<and> pmm_inv s' \<and>
     avail s' \<inter> {..unat kernel_end div 4096} = {}"
proof -
  let ?b = "mbi_mmap_addr (read_mbi m addr)" and ?l = "mbi_mmap_length (read_mbi m addr)"
  obtain es where "mmap_chain m ?b (?b + ?l) es"
    using walk_visits_finite_chain [OF assms(2), of ?b] walk_visits.first by blast
  then obtain s1 where "walk_mmap m ?b (?b + ?l) (reserve_all s) = Some s1" "pmm_inv s1"
    using walk_mmap_chain reserve_all_avail(1) [OF assms(1)] by blast
  then show ?thesis
    using reserve_kernel_avail [of s1 kernel_end] reserve_all_avail(1) [OF assms(1)]
      reserve_kernel_avail [of "reserve_all s" kernel_end]
    by (auto simp: pmm_init_def Let_def lessThan_Suc_atMost)
qed

text \<open>
  C11. Over any interleaving of allocations and releases of held pages, no page is handed
  out twice: the held addresses are distinct and page aligned, none of them is still
  marked free, and held and free pages together are those free at the start.
\<close>

theorem pmm_exclusive_pages:
  assumes "pmm_inv s0" and "pmm_run s0 s held"
  shows "pmm_inv s \<and> distinct held \<and>
     (\<exists>ps. set held = page_addr ` ps \<and> avail s \<inter> ps = {} \<and> avail s \<union> ps = avail s0)"
  using pmm_run_held_inv [OF assms(2,1)] by (simp add: held_inv_def)

text \<open>
  C12. \<open>pmm_alloc_page\<close> returns 0 exactly when no page is free (page 0 being reserved),
  and otherwise the lowest free page, which it marks and uncounts.
\<close>

theorem pmm_alloc_page_correct:
  assumes "pmm_inv s" and "0 \<notin> avail s"
  shows "(fst (pmm_alloc_page s) = 0 \<longleftrightarrow> avail s = {}) \<and>
     (avail s \<noteq> {} \<longrightarrow> fst (pmm_alloc_page s) = page_addr (Min (avail s)) \<and>
        avail (snd (pmm_alloc_page s)) = avail s - {Min (avail s)} \<and>
        pmm_get_free_page_count (snd (pmm_alloc_page s)) = pmm_get_free_page_count s - 1)"
  using pmm.alloc_null_iff [OF assms] pmm.alloc_lowest [OF assms(1)] pmm.alloc_pages [OF assms(1)]
  by (auto simp: pmm_get_free_page_count_def pmm_alloc_lowest)

section \<open>Witnesses\<close>

text \<open>
  A multiboot information block at \<open>0x1000\<close> whose map, at \<open>0x2000\<close>, has the single
  entry of 7 MB of usable memory at 1 MB.
\<close>

definition boot_mem :: memory where
  "boot_mem = (\<lambda>_. 0)(0x1000 := 0x40, 0x102C := 24, 0x1031 := 0x20,
     0x2000 := 20, 0x2006 := 0x10, 0x200E := 0x70, 0x2014 := 1)"

abbreviation boot_pmm :: pmm where
  "boot_pmm \<equiv> \<lparr>bitmap = replicate BITMAP_SIZE 0, free_pages_count = 0\<rparr>"

lemmas boot_mem_simps =
  boot_mem_def read_mbi_def read_mmap_entry_def read_u32_def read_u64_def le32_def le64_def

lemma boot_mbi [simp]:
  "mbi_flags (read_mbi boot_mem 0x1000) = 0x40"
  "mbi_mmap_addr (read_mbi boot_mem 0x1000) = 0x2000"
  "mbi_mmap_length (read_mbi boot_mem 0x1000) = 24"
  by (simp_all add: boot_mem_simps)

lemma boot_entry [simp]:
  "read_mmap_entry boot_mem 0x2000 =
     \<lparr>me_size = 20, me_base_addr = 0x100000, me_length = 0x700000, me_type = 1\<rparr>"
  by (simp add: boot_mem_simps)

theorem pmm_init_correct_witness:
  "\<exists>s'. pmm_init boot_mem 0x200000 0x1000 boot_pmm = Some s' \<and> pmm_inv s' \<and> avail s' = {513..<2048}"
proof -
  let ?e = "read_mmap_entry boot_mem 0x2000"
  have "mmap_chain boot_mem 0x2000 (0x2000 + 24) [?e]" and "\<forall>e \<in> set [?e]. me_type e = 1 \<longrightarrow> regular_entry e"
    by (simp_all add: regular_entry_def)
  moreover have "{p. p < MAX_PAGES \<and> unat (0x200000 :: u32) div 4096 < p \<and> (\<exists>e \<in> set [?e]. usable_frame e p)}
      = {513..<2048}"
    by (auto simp: usable_frame_def)
  ultimately show ?thesis
    using pmm_init_correct [where s = boot_pmm and addr = "0x1000" and m = boot_mem and kernel_end = "0x200000"
        and es = "[read_mmap_entry boot_mem 0x2000]"]
    by fastforce
qed

lemma boot_mem_visits:
  "walk_visits boot_mem b l a \<Longrightarrow> b = 0x2000 \<Longrightarrow> l = 0x2018 \<Longrightarrow> a = 0x2000"
  by (induction rule: walk_visits.induct) (auto simp: boot_mem_simps)

theorem pmm_init_terminates_witness:
  "\<exists>s'. pmm_init boot_mem 0x200000 0x1000 boot_pmm = Some s' \<and> pmm_inv s' \<and> avail s' \<inter> {..512} = {}"
proof -
  have "read_u32 boot_mem 0x2000 = 20" by (simp add: boot_mem_simps)
  then have "\<forall>a. walk_visits boot_mem 0x2000 0x2018 a \<longrightarrow> unat a + unat (read_u32 boot_mem a) + 4 < 2 ^ 32"
    using boot_mem_visits [OF _ refl refl] by force
  then show ?thesis
    using pmm_init_terminates [where s = boot_pmm and m = boot_mem and addr = "0x1000"
        and kernel_end = "0x200000"] by simp
qed

text \<open>A state in which exactly the pages 7 and 9 are free.\<close>

abbreviation two_pages :: pmm where
  "two_pages \<equiv> released (of_nat 9) (released (of_nat 7) (reserve_all boot_pmm))"

lemma two_pages_avail: "pmm_inv two_pages" "avail two_pages = {7, 9}"
proof -
  have r: "pmm_inv (reserve_all boot_pmm)" "avail (reserve_all boot_pmm) = {}"
    using reserve_all_avail [of boot_pmm] by simp_all
  have "pmm_inv (released (of_nat 7) (reserve_all boot_pmm))"
    "avail (released (of_nat 7) (reserve_all boot_pmm)) = {7}"
    using released_avail [OF r(1), of 7] r(2) by simp_all
  from released_avail [OF this(1), of 9] this(2)
  show "pmm_inv two_pages" "avail two_pages = {7, 9}" by (simp_all add: insert_commute)
qed

theorem pmm_alloc_page_correct_witness:
  "fst (pmm_alloc_page two_pages) = 0x7000 \<and> avail (snd (pmm_alloc_page two_pages)) = {9}"
proof -
  have "0 \<notin> avail two_pages" and "Min (avail two_pages) = 7"
    unfolding two_pages_avail(2) by simp_all
  with pmm_alloc_page_correct [OF two_pages_avail(1)]
  show ?thesis unfolding two_pages_avail(2) by (auto simp: page_addr_def)
qed

theorem pmm_exclusive_pages_witness:
  "\<exists>s ps. pmm_run two_pages s [0x9000, 0x7000] \<and> {0x9000, 0x7000} = page_addr ` ps \<and>
     avail s \<union> ps = {7, 9}"
proof -
  let ?s1 = "claimed (of_nat 7) two_pages"
  let ?s2 = "claimed (of_nat 9) ?s1"
  have s1: "pmm_inv ?s1" "avail ?s1 = {9}"
    using claimed_avail [OF two_pages_avail(1), of 7] unfolding two_pages_avail(2) by auto
  have "pmm_alloc_page two_pages = (0x7000, ?s1)"
    using pmm_alloc_lowest [of two_pages] unfolding two_pages_avail(2) by (simp add: page_addr_def)
  then have "pmm_run two_pages ?s1 [0x7000]"
    using pmm_run.alloc [OF pmm_run.start] by simp
  moreover have "pmm_alloc_page ?s1 = (0x9000, ?s2)"
    using pmm_alloc_lowest [of ?s1] unfolding s1(2) by (simp add: page_addr_def)
  ultimately have run: "pmm_run two_pages ?s2 [0x9000, 0x7000]"
    using pmm_run.alloc by simp
  from pmm_exclusive_pages [OF two_pages_avail(1) run]
  obtain ps where "set [0x9000, 0x7000] = page_addr ` ps" "avail ?s2 \<union> ps = {7, 9}"
    unfolding two_pages_avail(2) by blast
  with run show ?thesis by (intro exI conjI) (assumption, simp_all)
qed

end
