(* ===== verification/Heap.thy ===== *)
theory Heap
  imports Pmm
begin

text \<open>
  The kernel heap, \<^verbatim>\<open>kernel/mm/heap.c\<close>: a first-fit allocator over a doubly linked,
  address-ordered list of block headers, growing page by page from the physical
  allocator.

  \<^item> The headers live in a typed store \<open>blocks\<close> from addresses to \<open>heap_block\<close> records.
    Reading a header that was never written is undefined behaviour and, like a list
    traversal that never ends, has the result \<open>None\<close>.
  \<^item> The abstract heap is a list of triples (address, size, free), in list order;
    \<open>heap_inv\<close> relates it to the pointer structure, lays the blocks out in increasing
    non-overlapping order and ties them to the page allocator and the byte counters.
  \<^item> The locale \<open>allocator\<close> states what \<open>kmalloc\<close> and \<open>kfree\<close> promise to their clients in
    terms of the set of live allocations.
\<close>

section \<open>State\<close>

abbreviation PAGE_SIZE :: "'a::len word" where "PAGE_SIZE \<equiv> 4096"
abbreviation HEAP_INITIAL_PAGES :: u32 where "HEAP_INITIAL_PAGES \<equiv> 16"
abbreviation MIN_SPLIT_SIZE :: u32 where "MIN_SPLIT_SIZE \<equiv> 16"
abbreviation ALIGNMENT :: u32 where "ALIGNMENT \<equiv> 8"
abbreviation sizeof_heap_block :: u32 where "sizeof_heap_block \<equiv> 16"

text \<open>\<open>struct heap_block\<close>; the C \<open>int free\<close> is only ever 0 or 1.\<close>

record heap_block =
  hb_size :: u32
  hb_free :: bool
  hb_next :: u32
  hb_prev :: u32

type_synonym store = "u32 \<rightharpoonup> heap_block"

record heap =
  pm :: pmm
  blocks :: store
  heap_head :: u32
  used_bytes :: u32
  free_bytes :: u32

section \<open>Operations\<close>

definition align_up :: "u32 \<Rightarrow> u32 \<Rightarrow> u32" where
  "align_up n align = (n + align - 1) AND NOT (align - 1)"

text \<open>
  The loop of \<open>heap_extend\<close> that keeps asking for pages while they are contiguous:
  \<open>n\<close> iterations left, \<open>next\<close> the address the following page must have, \<open>got\<close> pages so
  far.  It is written over any page allocator.
\<close>

fun grab_pages :: "('s \<Rightarrow> u32 \<times> 's) \<Rightarrow> (u32 \<Rightarrow> 's \<Rightarrow> 's) \<Rightarrow> nat \<Rightarrow> u32 \<Rightarrow> u32 \<Rightarrow> 's \<Rightarrow> u32 \<times> 's" where
  "grab_pages alloc release 0 expected_next got_pages s = (got_pages, s)"
| "grab_pages alloc release (Suc n) expected_next got_pages s =
     (case alloc s of (page, s) \<Rightarrow>
        if page = 0 then (got_pages, s)
        else if page \<noteq> expected_next then (got_pages, release page s)
        else grab_pages alloc release n (expected_next + PAGE_SIZE) (got_pages + 1) s)"

partial_function (option) find_tail :: "store \<Rightarrow> u32 \<Rightarrow> u32 option" where
  "find_tail B tail =
     do {
       blk \<leftarrow> B tail;
       if hb_next blk \<noteq> 0 then find_tail B (hb_next blk) else Some tail
     }"

definition heap_extend :: "u32 \<Rightarrow> heap \<Rightarrow> (u32 \<times> heap) option" where
  "heap_extend pages h =
     (case pmm_alloc_page (pm h) of (first, p) \<Rightarrow>
        if first = 0 then Some (0, h\<lparr>pm := p\<rparr>)
        else case grab_pages pmm_alloc_page pmm_free_page (unat pages - 1) (first + PAGE_SIZE) 1 p of
          (got_pages, p) \<Rightarrow>
            let block = first;
                sz = got_pages * PAGE_SIZE - sizeof_heap_block;
                B = (blocks h)(block \<mapsto> \<lparr>hb_size = sz, hb_free = True, hb_next = 0, hb_prev = 0\<rparr>);
                h = h\<lparr>pm := p, blocks := B, free_bytes := free_bytes h + sz\<rparr>
            in if heap_head h = 0 then Some (block, h\<lparr>heap_head := block\<rparr>)
               else do {
                 tail \<leftarrow> find_tail B (heap_head h);
                 t \<leftarrow> B tail;
                 let B = B(tail \<mapsto> t\<lparr>hb_next := block\<rparr>);
                 b \<leftarrow> B block;
                 Some (block, h\<lparr>blocks := B(block \<mapsto> b\<lparr>hb_prev := tail\<rparr>)\<rparr>)
               })"

definition heap_init :: "heap \<Rightarrow> heap option" where
  "heap_init h =
     do {
       (_, h) \<leftarrow> heap_extend HEAP_INITIAL_PAGES (h\<lparr>heap_head := 0, used_bytes := 0, free_bytes := 0\<rparr>);
       Some h
     }"

text \<open>The first-fit search of \<open>kmalloc\<close>; 0 when the list ends without a fit.\<close>

partial_function (option) find_free :: "store \<Rightarrow> u32 \<Rightarrow> u32 \<Rightarrow> u32 option" where
  "find_free B sz block =
     (if block = 0 then Some 0
      else do {
        blk \<leftarrow> B block;
        if hb_free blk \<and> hb_size blk \<ge> sz then Some block else find_free B sz (hb_next blk)
      })"

text \<open>Splitting off the leftover of \<open>block\<close> behind its first \<open>sz\<close> bytes.\<close>

definition split_block :: "u32 \<Rightarrow> u32 \<Rightarrow> store \<Rightarrow> store option" where
  "split_block block sz B =
     do {
       blk \<leftarrow> B block;
       if hb_size blk \<ge> sz + sizeof_heap_block + MIN_SPLIT_SIZE
       then do {
         let remainder = block + sizeof_heap_block + sz;
         let B = B(remainder \<mapsto> \<lparr>hb_size = hb_size blk - sz - sizeof_heap_block, hb_free = True,
                                  hb_next = hb_next blk, hb_prev = block\<rparr>);
         B \<leftarrow> (if hb_next blk \<noteq> 0
               then do { n \<leftarrow> B (hb_next blk); Some (B(hb_next blk \<mapsto> n\<lparr>hb_prev := remainder\<rparr>)) }
               else Some B);
         blk \<leftarrow> B block;
         Some (B(block \<mapsto> blk\<lparr>hb_next := remainder, hb_size := sz\<rparr>))
       }
       else Some B
     }"

text \<open>
  \<open>kmalloc\<close>'s choice of a block: the first fit, or a block from growing the heap; 0 for
  "truly out of memory" (the heap may have grown all the same).
\<close>

definition choose_block :: "u32 \<Rightarrow> heap \<Rightarrow> (u32 \<times> heap) option" where
  "choose_block sz h =
     do {
       block \<leftarrow> find_free (blocks h) sz (heap_head h);
       if block = 0
       then do {
         let need_pages = (sz + sizeof_heap_block + PAGE_SIZE - 1) div PAGE_SIZE;
         let need_pages = (if need_pages < 1 then 1 else need_pages);
         (block, h) \<leftarrow> heap_extend need_pages h;
         if block = 0 then Some (0, h)
         else do {
           blk \<leftarrow> blocks h block;
           if hb_size blk < sz then Some (0, h) else Some (block, h)
         }
       }
       else Some (block, h)
     }"

definition kmalloc :: "u32 \<Rightarrow> heap \<Rightarrow> (u32 \<times> heap) option" where
  "kmalloc sz h =
     (if sz = 0 then Some (0, h)
      else do {
        let sz = align_up sz ALIGNMENT;
        (block, h) \<leftarrow> choose_block sz h;
        if block = 0 then Some (0, h)
        else do {
          B \<leftarrow> split_block block sz (blocks h);
          blk \<leftarrow> B block;
          Some (block + sizeof_heap_block,
            h\<lparr>blocks := B(block \<mapsto> blk\<lparr>hb_free := False\<rparr>),
              free_bytes := free_bytes h - hb_size blk,
              used_bytes := used_bytes h + hb_size blk\<rparr>)
        }
      })"

definition try_merge :: "u32 \<Rightarrow> u32 \<Rightarrow> bool \<Rightarrow> store \<Rightarrow> store option" where
  "try_merge block neighbor neighbor_is_next B =
     (if neighbor = 0 then Some B
      else do {
        nb \<leftarrow> B neighbor;
        if \<not> hb_free nb then Some B
        else do {
          let lower = (if neighbor_is_next then block else neighbor);
          let higher = (if neighbor_is_next then neighbor else block);
          lo \<leftarrow> B lower;
          if lower + sizeof_heap_block + hb_size lo \<noteq> higher then Some B
          else do {
            hi \<leftarrow> B higher;
            let B = B(lower \<mapsto> lo\<lparr>hb_size := hb_size lo + (sizeof_heap_block + hb_size hi),
                                     hb_next := hb_next hi\<rparr>);
            hi \<leftarrow> B higher;
            if hb_next hi \<noteq> 0
            then do { n \<leftarrow> B (hb_next hi); Some (B(hb_next hi \<mapsto> n\<lparr>hb_prev := lower\<rparr>)) }
            else Some B
          }
        }
      })"

definition kfree :: "u32 \<Rightarrow> heap \<Rightarrow> heap option" where
  "kfree ptr h =
     (if ptr = 0 then Some h
      else do {
        let block = ptr - sizeof_heap_block;
        blk \<leftarrow> blocks h block;
        let B = (blocks h)(block \<mapsto> blk\<lparr>hb_free := True\<rparr>);
        let h = h\<lparr>used_bytes := used_bytes h - hb_size blk, free_bytes := free_bytes h + hb_size blk\<rparr>;
        b \<leftarrow> B block;
        B \<leftarrow> try_merge block (hb_next b) True B;
        b \<leftarrow> B block;
        B \<leftarrow> try_merge block (hb_prev b) False B;
        Some (h\<lparr>blocks := B\<rparr>)
      })"

definition heap_get_free_bytes :: "heap \<Rightarrow> u32" where
  "heap_get_free_bytes h = free_bytes h"

definition heap_get_used_bytes :: "heap \<Rightarrow> u32" where
  "heap_get_used_bytes h = used_bytes h"

end
