(* ===== verification/HeapInv.thy ===== *)
theory HeapInv
  imports Heap
begin

text \<open>
  The invariant of the heap and its preservation: the list of blocks a pointer structure
  represents (\<open>cells\<close>, \<open>reps\<close>), their layout in memory, the live allocations, and for each
  piece of \<^verbatim>\<open>kernel/mm/heap.c\<close> (growing, searching, splitting, marking, merging) the lemma that
  it keeps \<open>heap_inv\<close> and what it does to the abstract list.
\<close>


section \<open>The abstract block list\<close>

type_synonym blk = "u32 \<times> u32 \<times> bool"   \<comment> \<open>header address, usable size, free?\<close>

primrec first_addr :: "blk list \<Rightarrow> u32 \<Rightarrow> u32" where
  "first_addr [] q = q"
| "first_addr (x # xs) q = fst x"

primrec last_addr :: "u32 \<Rightarrow> blk list \<Rightarrow> u32" where
  "last_addr pv [] = pv"
| "last_addr pv (x # xs) = last_addr (fst x) xs"

text \<open>
  \<open>cells pv xs q\<close>: the headers a doubly linked list segment with the blocks \<open>xs\<close> consists
  of, entered from \<open>pv\<close> and left to \<open>q\<close>.
\<close>

primrec cells :: "u32 \<Rightarrow> blk list \<Rightarrow> u32 \<Rightarrow> (u32 \<times> heap_block) list" where
  "cells pv [] q = []"
| "cells pv (x # xs) q =
     (fst x, \<lparr>hb_size = fst (snd x), hb_free = snd (snd x), hb_next = first_addr xs q, hb_prev = pv\<rparr>)
       # cells (fst x) xs q"

definition reps :: "store \<Rightarrow> (u32 \<times> heap_block) list \<Rightarrow> bool" where
  "reps B cs \<longleftrightarrow> (\<forall>(a, b) \<in> set cs. B a = Some b)"

lemma reps_Nil [simp]: "reps B []"
  by (simp add: reps_def)

lemma reps_Cons [simp]: "reps B (c # cs) \<longleftrightarrow> B (fst c) = Some (snd c) \<and> reps B cs"
  by (cases c) (simp add: reps_def)

lemma reps_append [simp]: "reps B (cs @ ds) \<longleftrightarrow> reps B cs \<and> reps B ds"
  by (induction cs) auto

lemma reps_upd [simp]: "a \<notin> fst ` set cs \<Longrightarrow> reps (B(a := v)) cs = reps B cs"
  by (induction cs) auto

lemma cells_append [simp]:
  "cells pv (xs @ ys) q = cells pv xs (first_addr ys q) @ cells (last_addr pv xs) ys q"
proof (induction xs arbitrary: pv)
  case (Cons x xs)
  have "first_addr (xs @ ys) q = first_addr xs (first_addr ys q)" by (cases xs) auto
  with Cons show ?case by simp
qed simp

lemma first_addr_append [simp]: "first_addr (xs @ ys) q = first_addr xs (first_addr ys q)"
  by (cases xs) auto

lemma last_addr_append [simp]: "last_addr pv (xs @ ys) = last_addr (last_addr pv xs) ys"
  by (induction xs arbitrary: pv) auto

lemma map_fst_cells [simp]: "map fst (cells pv xs q) = map fst xs"
  by (induction xs arbitrary: pv) auto

lemma fst_set_cells [simp]: "fst ` set (cells pv xs q) = fst ` set xs"
  by (metis list.set_map map_fst_cells)

section \<open>Traversals\<close>

lemma find_free_rep:
  "reps B (cells pv xs 0) \<Longrightarrow> 0 \<notin> fst ` set xs \<Longrightarrow>
     find_free B sz (first_addr xs 0) =
       Some (case find (\<lambda>(a, s, f). f \<and> sz \<le> s) xs of None \<Rightarrow> 0 | Some x \<Rightarrow> fst x)"
proof (induction xs arbitrary: pv)
  case Nil
  then show ?case by (simp add: find_free.simps)
next
  case (Cons x xs)
  obtain a s f where x: "x = (a, s, f)" by (cases x)
  with Cons show ?case by (auto simp: find_free.simps [of B sz a])
qed

lemma find_tail_rep:
  "reps B (cells pv xs 0) \<Longrightarrow> 0 \<notin> fst ` set xs \<Longrightarrow> xs \<noteq> [] \<Longrightarrow>
     find_tail B (first_addr xs 0) = Some (last_addr 0 xs)"
proof (induction xs arbitrary: pv)
  case (Cons x xs)
  show ?case
  proof (cases xs)
    case Nil
    with Cons.prems show ?thesis by (simp add: find_tail.simps [of B "fst x"])
  next
    case (Cons y ys)
    with Cons.prems Cons.IH [of "fst x"] show ?thesis
      by (auto simp: find_tail.simps [of B "fst x"])
  qed
qed simp

section \<open>Pointer updates\<close>

text \<open>One lemma per kind of update the code makes, each on a list split at the place.\<close>

lemma reps_set_block:
  assumes "reps B (cells pv (us @ (a, s, f) # vs) q)" and "distinct (map fst (us @ (a, s, f) # vs))"
  shows "\<exists>blk. B a = Some blk \<and> hb_size blk = s \<and>
     reps (B(a \<mapsto> blk\<lparr>hb_free := g\<rparr>)) (cells pv (us @ (a, s, g) # vs) q)"
  using assms by (auto simp: image_iff)

lemma reps_append_block:
  assumes "reps B (cells 0 (ys @ [(t, s, f)]) 0)" and "distinct (map fst (ys @ [(t, s, f)]))"
    and "b \<notin> fst ` set (ys @ [(t, s, f)])" and "B b = Some \<lparr>hb_size = sz, hb_free = g, hb_next = 0, hb_prev = 0\<rparr>"
  shows "\<exists>tb nb. B t = Some tb \<and> (B(t \<mapsto> tb\<lparr>hb_next := b\<rparr>)) b = Some nb \<and>
     reps (B(t \<mapsto> tb\<lparr>hb_next := b\<rparr>, b \<mapsto> nb\<lparr>hb_prev := t\<rparr>)) (cells 0 (ys @ [(t, s, f), (b, sz, g)]) 0)"
  using assms by (auto simp: image_iff)

lemma reps_split_block:
  assumes "reps B (cells pv (us @ (a, s, f) # vs) 0)" and "distinct (map fst (us @ (a, s, f) # vs))"
    and "0 \<notin> fst ` set vs" and "a + 16 + sz \<notin> fst ` set (us @ (a, s, f) # vs)" 
    and "sz + 16 + 16 \<le> s"
  shows "\<exists>B'. split_block a sz B = Some B' \<and>
     reps B' (cells pv (us @ (a, sz, f) # (a + 16 + sz, s - sz - 16, True) # vs) 0)"
  using assms by (cases vs) (auto simp: split_block_def Let_def image_iff)

lemma try_merge_rep:
  assumes "reps B (cells pv (us @ (a, s, f) # (b, t, g) # vs) 0)"
    and "distinct (map fst (us @ (a, s, f) # (b, t, g) # vs))" and "0 \<notin> fst ` set vs"
    and "a + 16 + s = b" and "a \<noteq> 0" "b \<noteq> 0"
  shows "g \<Longrightarrow> \<exists>B'. try_merge a b True B = Some B' \<and> reps B' (cells pv (us @ (a, s + (16 + t), f) # vs) 0)"
    and "f \<Longrightarrow> \<exists>B'. try_merge b a False B = Some B' \<and> reps B' (cells pv (us @ (a, s + (16 + t), f) # vs) 0)"
  using assms by (cases vs; auto simp: try_merge_def Let_def image_iff)+

section \<open>Layout of the blocks in memory\<close>

definition blk_end :: "blk \<Rightarrow> nat" where
  "blk_end x = unat (fst x) + 16 + unat (fst (snd x))"

primrec layout :: "nat \<Rightarrow> blk list \<Rightarrow> bool" where
  "layout lo [] \<longleftrightarrow> True"
| "layout lo (x # xs) \<longleftrightarrow>
     lo \<le> unat (fst x) \<and> 8 dvd unat (fst x) \<and> 8 dvd unat (fst (snd x)) \<and> layout (blk_end x) xs"

primrec heap_end :: "nat \<Rightarrow> blk list \<Rightarrow> nat" where
  "heap_end lo [] = lo"
| "heap_end lo (x # xs) = heap_end (blk_end x) xs"

lemma layout_append [simp]: "layout lo (xs @ ys) \<longleftrightarrow> layout lo xs \<and> layout (heap_end lo xs) ys"
  by (induction xs arbitrary: lo) auto

lemma heap_end_append [simp]: "heap_end lo (xs @ ys) = heap_end (heap_end lo xs) ys"
  by (induction xs arbitrary: lo) auto

lemma heap_end_ge: "layout lo xs \<Longrightarrow> lo \<le> heap_end lo xs"
  by (induction xs arbitrary: lo) (fastforce simp: blk_end_def)+

lemma layout_member:
  assumes "layout lo xs" and "x \<in> set xs"
  shows "lo \<le> unat (fst x) \<and> blk_end x \<le> heap_end lo xs \<and> 8 dvd unat (fst x) \<and> 8 dvd unat (fst (snd x))"
proof -
  from assms(2) obtain us vs where xs: "xs = us @ x # vs" by (meson split_list)
  with assms(1) have "lo \<le> heap_end lo us" "heap_end lo us \<le> unat (fst x)"
    "layout (blk_end x) vs"
    by (auto intro: heap_end_ge)
  moreover from this have "blk_end x \<le> heap_end (blk_end x) vs" by (intro heap_end_ge)
  ultimately show ?thesis using assms(1) xs by simp
qed

lemma layout_distinct: "layout lo xs \<Longrightarrow> distinct (map fst xs)"
proof (induction xs arbitrary: lo)
  case (Cons x xs)
  then have "fst x \<notin> fst ` set xs"
    using layout_member [of "blk_end x" xs] by (fastforce simp: blk_end_def)
  with Cons show ?case by auto
qed simp

lemma layout_nonzero: "layout lo xs \<Longrightarrow> 0 < lo \<Longrightarrow> 0 \<notin> fst ` set xs"
  using layout_member [of lo xs] by fastforce

lemma layout_disjoint:
  assumes "layout lo xs" and "x \<in> set xs" and "y \<in> set xs" and "x \<noteq> y"
  shows "blk_end x \<le> unat (fst y) \<or> blk_end y \<le> unat (fst x)"
  using assms
proof (induction xs arbitrary: lo)
  case (Cons z xs)
  then have "layout (blk_end z) xs" by simp
  then have tail: "blk_end z \<le> unat (fst w)" if "w \<in> set xs" for w
    using layout_member that by blast
  from Cons.prems show ?case
    using Cons.IH [of "blk_end z"] tail [of x] tail [of y] by auto
qed simp

section \<open>Byte counts and live allocations\<close>

primrec used_sum :: "blk list \<Rightarrow> nat" where
  "used_sum [] = 0"
| "used_sum (x # xs) = (if snd (snd x) then 0 else unat (fst (snd x))) + used_sum xs"

primrec free_sum :: "blk list \<Rightarrow> nat" where
  "free_sum [] = 0"
| "free_sum (x # xs) = (if snd (snd x) then unat (fst (snd x)) else 0) + free_sum xs"

primrec live :: "blk list \<Rightarrow> (u32 \<times> u32) set" where
  "live [] = {}"
| "live (x # xs) = (if snd (snd x) then {} else {(fst x + 16, fst (snd x))}) \<union> live xs"

lemma used_sum_append [simp]: "used_sum (xs @ ys) = used_sum xs + used_sum ys"
  by (induction xs) auto

lemma free_sum_append [simp]: "free_sum (xs @ ys) = free_sum xs + free_sum ys"
  by (induction xs) auto

lemma live_append [simp]: "live (xs @ ys) = live xs \<union> live ys"
  by (induction xs) auto

lemma live_iff: "(p, s) \<in> live xs \<longleftrightarrow> (\<exists>a. (a, s, False) \<in> set xs \<and> p = a + 16)"
  by (induction xs) auto

lemma sums_le_end:
  "layout lo xs \<Longrightarrow> lo + used_sum xs + free_sum xs + 16 * length xs \<le> heap_end lo xs"
  by (induction xs arbitrary: lo) (fastforce simp: blk_end_def)+

section \<open>Splitting and merging preserve the layout\<close>

lemma blk_end_addr:
  "blk_end (a, s, f) < 2 ^ 32 \<Longrightarrow> unat (a + 16) = unat a + 16 \<and> unat (a + 16 + s) = blk_end (a, s, f)"
  by (simp add: blk_end_def unat_simps)

lemma split_sizes:
  assumes "sz + 16 + 16 \<le> (s :: u32)" and "unat sz + 32 < 2 ^ 32"
  shows "unat sz + 32 \<le> unat s" "unat (s - sz - 16) = unat s - unat sz - 16"
proof -
  from assms(2) have "unat (sz + 16 + 16) = unat sz + 32"
    by (simp add: unat_simps)
  with assms(1) show 1: "unat sz + 32 \<le> unat s"
    by (simp add: word_le_nat_alt)
  then have "unat (s - sz) = unat s - unat sz"
    by (simp add: unat_sub word_le_nat_alt)
  with 1 show "unat (s - sz - 16) = unat s - unat sz - 16"
    by (simp add: unat_sub word_le_nat_alt)
qed

lemma layout_split:
  assumes "layout lo ((a, s, f) # vs)" and "blk_end (a, s, f) < 2 ^ 32"
    and "sz + 16 + 16 \<le> s" and "unat sz + 32 < 2 ^ 32" and "8 dvd unat sz"
  shows "layout lo ((a, sz, g) # (a + 16 + sz, s - sz - 16, True) # vs)"
    and "heap_end lo ((a, sz, g) # (a + 16 + sz, s - sz - 16, True) # vs) = heap_end lo ((a, s, f) # vs)"
proof -
  note sz = split_sizes [OF assms(3,4)]
  have r: "unat (a + 16 + sz) = blk_end (a, sz, g)"
    using assms(2) sz(1) by (simp add: blk_end_def unat_simps)
  then have e: "blk_end (a + 16 + sz, s - sz - 16, True) = blk_end (a, s, f)"
    using sz by (simp add: blk_end_def)
  have "8 dvd unat (s - sz - 16)" "8 dvd blk_end (a, sz, g)"
    using assms(1,5) sz(1) unfolding sz(2) by (auto intro!: dvd_diff_nat simp: blk_end_def)
  then show "layout lo ((a, sz, g) # (a + 16 + sz, s - sz - 16, True) # vs)"
    "heap_end lo ((a, sz, g) # (a + 16 + sz, s - sz - 16, True) # vs) = heap_end lo ((a, s, f) # vs)"
    using assms(1,5) r e by simp_all
qed

lemma layout_merge:
  assumes "layout lo ((a, s, f) # (b, t, g) # vs)" and "a + 16 + s = b"
    and "heap_end lo ((a, s, f) # (b, t, g) # vs) < 2 ^ 32"
  shows "layout lo ((a, s + (16 + t), h) # vs)"
    and "heap_end lo ((a, s + (16 + t), h) # vs) = heap_end lo ((a, s, f) # (b, t, g) # vs)"
    and "unat (s + (16 + t)) = unat s + (16 + unat t)"
proof -
  have "blk_end (b, t, g) \<le> heap_end (blk_end (b, t, g)) vs"
    using assms(1) by (intro heap_end_ge) simp
  with assms(3) have e: "blk_end (b, t, g) < 2 ^ 32" by simp
  with assms(1) have "blk_end (a, s, f) < 2 ^ 32" by (simp add: blk_end_def)
  with assms(2) have b: "unat b = blk_end (a, s, f)" using blk_end_addr by blast
  with e have st: "unat (s + (16 + t)) = unat s + (16 + unat t)"
    by (simp add: blk_end_def unat_simps)
  show "unat (s + (16 + t)) = unat s + (16 + unat t)" by (rule st)
  have "blk_end (a, s + (16 + t), h) = blk_end (b, t, g)"
    using b st by (simp add: blk_end_def)
  then show "layout lo ((a, s + (16 + t), h) # vs)"
    "heap_end lo ((a, s + (16 + t), h) # vs) = heap_end lo ((a, s, f) # (b, t, g) # vs)"
    using assms(1) st by auto
qed

lemma align_up_shift: "align_up n 8 = push_bit 3 (drop_bit 3 (n + 7))"
proof -
  have "align_up n 8 = (n + 7) AND NOT (mask 3)"
    by (simp add: align_up_def mask_eq_exp_minus_1 add.commute)
  also have "\<dots> = push_bit 3 (drop_bit 3 (n + 7))"
    by (rule bit_word_eqI) (auto simp: bit_simps)
  finally show ?thesis .
qed

lemma align_up_dvd: "8 dvd unat (align_up n 8)"
  by (simp add: align_up_shift push_bit_eq_mult unat_word_ariths dvd_mod)

lemma align_up_8:
  "unat n + 7 < 2 ^ 32 \<Longrightarrow> unat (align_up n 8) = 8 * ((unat n + 7) div 8)"
  by (simp add: align_up_shift push_bit_eq_mult drop_bit_eq_div unat_word_ariths unat_div)

lemma align_up_wraps:
  assumes "2 ^ 32 \<le> unat n + 7"
  shows "align_up n 8 = 0"
proof -
  have "unat (n + 7) = unat n + 7 - 2 ^ 32"
    using assms unsigned_less [of n, where ?'a = nat] by (simp add: unat_word_ariths mod_if)
  then have "unat (drop_bit 3 (n + 7)) = 0"
    using unsigned_less [of n, where ?'a = nat] by (simp add: drop_bit_eq_div unat_div)
  then have "drop_bit 3 (n + 7) = 0" by (simp only: unat_eq_zero)
  then show ?thesis by (simp add: align_up_shift)
qed

section \<open>Growing from a page allocator\<close>

lemma page_addr_Suc: "page_addr p + 4096 = page_addr (Suc p)"
  by (simp add: page_addr_def algebra_simps)

lemma page_addr_inj: "p < MAX_PAGES \<Longrightarrow> q \<le> MAX_PAGES \<Longrightarrow> page_addr p = page_addr q \<longleftrightarrow> p = q"
  by (cases "q = MAX_PAGES")
    (auto simp: page_addr_eq_iff word_unat_eq_iff unat_page_addr, simp add: page_addr_def)

context page_source
begin

text \<open>
  From a state whose free pages all lie at or above page \<open>q\<close>, the loop takes exactly a
  contiguous run starting at \<open>q\<close> and leaves every other page as it was.
\<close>

lemma grab_pages_run:
  assumes "invar s" and "0 < q" and "q \<le> MAX_PAGES" and "\<forall>p \<in> pages s. q \<le> p"
  shows "\<exists>k s'. grab_pages alloc release n (page_addr q) got s = (got + of_nat k, s') \<and>
     k \<le> n \<and> q + k \<le> MAX_PAGES \<and> invar s' \<and> pages s' = pages s - {q..<q + k}"
  using assms
proof (induction n arbitrary: q got s)
  case 0
  then show ?case by (auto intro!: exI [of _ 0])
next
  case (Suc n)
  let ?a = "fst (alloc s)" and ?s = "snd (alloc s)"
  have split: "alloc s = (?a, ?s)" by simp
  have "0 \<notin> pages s" using Suc.prems by auto
  then have null: "?a = 0 \<longleftrightarrow> pages s = {}" using alloc_null_iff Suc.prems(1) by blast
  show ?case
  proof (cases "pages s = {}")
    case True
    then have "alloc s = (0, s)" using alloc_empty Suc.prems(1) by blast
    with Suc.prems show ?thesis by (auto intro!: exI [of _ 0])
  next
    case False
    let ?m = "Min (pages s)"
    have m: "?m \<in> pages s" "?m < MAX_PAGES" using Min_pages [OF False] by auto
    have a: "?a = page_addr ?m" "pages ?s = pages s - {?m}" "invar ?s"
      using False Suc.prems(1) by (auto simp: alloc_lowest alloc_pages alloc_invar)
    show ?thesis
    proof (cases "?m = q")
      case True
      have rest: "pages ?s = pages s - {q}" using a(2) unfolding True .
      then have above: "\<forall>p \<in> pages ?s. Suc q \<le> p"
        using Suc.prems(4) by (auto simp: Suc_le_eq le_neq_implies_less)
      have "Suc q \<le> MAX_PAGES" using m True by simp
      from Suc.IH [OF a(3) _ this above, of "got + 1"] obtain k s' where
        k: "grab_pages alloc release n (page_addr (Suc q)) (got + 1) ?s = (got + 1 + of_nat k, s')"
          "k \<le> n" "Suc q + k \<le> MAX_PAGES" "invar s'" "pages s' = pages ?s - {Suc q..<Suc q + k}"
        by auto
      moreover have "grab_pages alloc release (Suc n) (page_addr q) got s
          = grab_pages alloc release n (page_addr (Suc q)) (got + 1) ?s"
        using null False a(1) True by (subst split) (simp add: page_addr_Suc split_beta)
      moreover have "pages ?s - {Suc q..<Suc q + k} = pages s - {q..<q + Suc k}"
        unfolding rest by auto
      ultimately show ?thesis by (intro exI [of _ "Suc k"] exI [of _ s']) (auto simp: algebra_simps)
    next
      case neq: False
      then have "?a \<noteq> page_addr q" using a(1) m(2) Suc.prems(3) by (simp add: page_addr_inj)
      then have "grab_pages alloc release (Suc n) (page_addr q) got s = (got, release ?a ?s)"
        using null False by (simp add: split_beta)
      moreover have "pages (release ?a ?s) = pages s"
        using release_alloc [OF Suc.prems(1) False] .
      moreover have "invar (release ?a ?s)"
        using a m by (simp add: release_invar)
      ultimately show ?thesis using Suc.prems(3) by (auto intro!: exI [of _ 0])
    qed
  qed
qed

end

section \<open>The heap invariant\<close>

text \<open>
  \<open>heap_inv e xs h\<close>: the pointer structure of \<open>h\<close> represents the block list \<open>xs\<close>, which is
  laid out in increasing order inside managed memory below every page the page allocator
  still has; \<open>e\<close> counts the regions obtained from it so far.  \<open>used_bytes\<close> is exact.
  \<open>free_bytes\<close> is not the number of free bytes: a split does not take the new header's 16
  bytes off, a merge does not add them, so it is off by 16 for every block more, or
  fewer, than there are regions (modulo \<open>2 ^ 32\<close>).
\<close>

definition heap_inv :: "nat \<Rightarrow> blk list \<Rightarrow> heap \<Rightarrow> bool" where
  "heap_inv e xs h \<longleftrightarrow>
     reps (blocks h) (cells 0 xs 0) \<and> heap_head h = first_addr xs 0 \<and>
     layout 1 xs \<and> heap_end 1 xs \<le> 2 ^ 27 \<and>
     pmm_inv (pm h) \<and> (\<forall>p \<in> avail (pm h). heap_end 1 xs \<le> p * 4096) \<and>
     used_bytes h = of_nat (used_sum xs) \<and>
     free_bytes h + of_nat (16 * e) = of_nat (free_sum xs + 16 * length xs)"

lemma heap_inv_basic:
  assumes "heap_inv e xs h"
  shows "distinct (map fst xs)" "0 \<notin> fst ` set xs" "0 \<notin> avail (pm h)"
    "used_sum xs + free_sum xs + 16 * length xs < 2 ^ 27"
proof -
  have l: "layout 1 xs" "heap_end 1 xs \<le> 2 ^ 27" "\<forall>p \<in> avail (pm h). heap_end 1 xs \<le> p * 4096"
    using assms by (auto simp: heap_inv_def)
  show "distinct (map fst xs)" "0 \<notin> fst ` set xs"
    using layout_distinct [OF l(1)] layout_nonzero [OF l(1)] by auto
  show "0 \<notin> avail (pm h)" using l(3) heap_end_ge [OF l(1)] by auto
  show "used_sum xs + free_sum xs + 16 * length xs < 2 ^ 27"
    using sums_le_end [OF l(1)] l(2) by simp
qed

lemma heap_extend_none:
  assumes "heap_inv e xs h" and "avail (pm h) = {}"
  shows "heap_extend pages h = Some (0, h)"
  using assms pmm.alloc_empty by (simp add: heap_extend_def heap_inv_def)


lemma heap_extend_pages:
  assumes "heap_inv e xs h" and "avail (pm h) \<noteq> {}"
  obtains q k p1 p2 where
    "pmm_alloc_page (pm h) = (page_addr q, p1)" "page_addr q \<noteq> 0"
    "grab_pages pmm_alloc_page pmm_free_page (unat pages - 1) (page_addr q + 4096) 1 p1 = (1 + of_nat k, p2)"
    "Suc k \<le> max 1 (unat pages)" "heap_end 1 xs \<le> q * 4096" "q + Suc k \<le> MAX_PAGES"
    "pmm_inv p2" "\<forall>p \<in> avail p2. (q + Suc k) * 4096 \<le> p * 4096"
proof -
  define q where "q = Min (avail (pm h))"
  define p1 where "p1 = snd (pmm_alloc_page (pm h))"
  have inv: "pmm_inv (pm h)" using assms(1) by (simp add: heap_inv_def)
  have q: "q \<in> avail (pm h)" "q < MAX_PAGES" "\<forall>p \<in> avail (pm h). q \<le> p"
    using pmm.Min_pages [OF assms(2)] by (auto simp: q_def)
  have nz: "0 \<notin> avail (pm h)" by (rule heap_inv_basic(3) [OF assms(1)])
  have a: "fst (pmm_alloc_page (pm h)) = page_addr q" "fst (pmm_alloc_page (pm h)) \<noteq> 0"
    "avail p1 = avail (pm h) - {q}" "pmm_inv p1"
    using pmm.alloc_lowest [OF inv assms(2)] pmm.alloc_pages [OF inv assms(2)]
      pmm.alloc_invar [OF inv] pmm.alloc_null_iff [OF inv nz] assms(2)
    by (simp_all add: q_def p1_def)
  have "\<forall>p \<in> avail p1. Suc q \<le> p"
    using q(3) by (auto simp: a(3) Suc_le_eq le_neq_implies_less)
  from pmm.grab_pages_run [OF a(4) _ _ this, of "unat pages - 1" 1] obtain k p2 where
    g: "grab_pages pmm_alloc_page pmm_free_page (unat pages - 1) (page_addr (Suc q)) 1 p1 = (1 + of_nat k, p2)"
      "k \<le> unat pages - 1" "Suc q + k \<le> MAX_PAGES" "pmm_inv p2"
      "avail p2 = avail p1 - {Suc q..<Suc q + k}"
    using q(2) by auto
  have "q + Suc k \<le> p" if "p \<in> avail p2" for p
  proof -
    from that have "p \<in> avail (pm h)" "p \<noteq> q" "\<not> (Suc q \<le> p \<and> p < Suc q + k)"
      by (auto simp: g(5) a(3))
    with q(3) have "q \<le> p" by blast
    with \<open>p \<noteq> q\<close> \<open>\<not> (Suc q \<le> p \<and> p < Suc q + k)\<close> show ?thesis by linarith
  qed
  then have "\<forall>p \<in> avail p2. (q + Suc k) * 4096 \<le> p * 4096"
    using mult_le_mono1 by blast
  moreover have "heap_end 1 xs \<le> q * 4096" using assms(1) q(1) by (simp add: heap_inv_def)
  moreover have "pmm_alloc_page (pm h) = (page_addr q, p1)"
    using a(1) by (simp add: p1_def prod_eq_iff)
  moreover have "page_addr q + 4096 = page_addr (Suc q)" by (rule page_addr_Suc)
  ultimately show thesis
    using that [of q p1 k p2] a(1,2) g by simp
qed

lemma extent_size:
  assumes "q + Suc k \<le> MAX_PAGES"
  shows "unat ((1 + of_nat k) * 4096 - 16 :: u32) = Suc k * 4096 - 16"
proof -
  define w :: u32 where "w = (1 + of_nat k) * 4096"
  have "w = of_nat (Suc k * 4096)" by (simp add: w_def algebra_simps)
  moreover have "unat (of_nat (Suc k * 4096) :: u32) = Suc k * 4096"
    using assms by (intro unat_of_nat_small) simp
  ultimately have "unat w = Suc k * 4096" by simp
  then show ?thesis
    unfolding w_def [symmetric] by (simp add: unat_sub word_le_nat_alt)
qed

lemma heap_extend_link:
  assumes "pmm_alloc_page (pm h) = (b, p1)" and "b \<noteq> 0"
    and "grab_pages pmm_alloc_page pmm_free_page (unat pages - 1) (b + 4096) 1 p1 = (got, p2)"
    and rep: "reps (blocks h) (cells 0 xs 0)" and head: "heap_head h = first_addr xs 0"
    and d: "distinct (map fst xs)" and nz: "0 \<notin> fst ` set xs" and fresh: "b \<notin> fst ` set xs"
  shows "\<exists>B. heap_extend pages h = Some (b, h\<lparr>pm := p2, blocks := B,
       free_bytes := free_bytes h + (got * 4096 - 16), heap_head := first_addr xs b\<rparr>) \<and>
     reps B (cells 0 (xs @ [(b, got * 4096 - 16, True)]) 0)"
proof (cases xs rule: rev_cases)
  case Nil
  then show ?thesis
    using assms(1-3) head
    by (intro exI [of _ "(blocks h)(b \<mapsto> \<lparr>hb_size = got * 4096 - 16, hb_free = True, hb_next = 0, hb_prev = 0\<rparr>)"])
      (simp add: heap_extend_def Let_def)
next
  case (snoc ys t)
  obtain ta ts tf where t: "t = (ta, ts, tf)" by (cases t)
  let ?sz = "got * 4096 - 16"
  let ?B = "(blocks h)(b \<mapsto> \<lparr>hb_size = ?sz, hb_free = True, hb_next = 0, hb_prev = 0\<rparr>)"
  have hd: "first_addr xs 0 \<noteq> 0" "first_addr xs b = first_addr xs 0"
    using nz snoc by (cases xs; force)+
  have B: "reps ?B (cells 0 xs 0)" using rep fresh by simp
  have tail: "find_tail ?B (first_addr xs 0) = Some ta"
    using find_tail_rep [OF B nz] snoc t by simp
  from reps_append_block [of ?B ys ta ts tf b ?sz True] B d fresh snoc t
  obtain tb nb where "?B ta = Some tb" "(?B(ta \<mapsto> tb\<lparr>hb_next := b\<rparr>)) b = Some nb"
    "reps (?B(ta \<mapsto> tb\<lparr>hb_next := b\<rparr>, b \<mapsto> nb\<lparr>hb_prev := ta\<rparr>)) (cells 0 (xs @ [(b, ?sz, True)]) 0)"
    by (auto simp del: cells_append)
  then show ?thesis
    using assms(1-3) head hd tail
    by (intro exI conjI, subst heap_extend_def) (auto simp: Let_def)
qed

lemma heap_extend_sized:
  assumes inv: "heap_inv e xs h" and "avail (pm h) \<noteq> {}"
  obtains b sz h' where "heap_extend pages h = Some (b, h')" "b \<noteq> 0"
    "heap_inv (Suc e) (xs @ [(b, sz, True)]) h'" "4080 \<le> unat sz"
proof -
  obtain q k p1 p2 where
    p: "pmm_alloc_page (pm h) = (page_addr q, p1)" "page_addr q \<noteq> 0"
    "grab_pages pmm_alloc_page pmm_free_page (unat pages - 1) (page_addr q + 4096) 1 p1 = (1 + of_nat k, p2)"
    and "Suc k \<le> max 1 (unat pages)"
    and q: "heap_end 1 xs \<le> q * 4096" "q + Suc k \<le> MAX_PAGES"
    "pmm_inv p2" "\<forall>p \<in> avail p2. (q + Suc k) * 4096 \<le> p * 4096"
    by (rule heap_extend_pages [OF assms, where pages = pages])
  define sz :: u32 where "sz = (1 + of_nat k) * 4096 - 16"
  let ?b = "page_addr q"
  let ?xs = "xs @ [(?b, sz, True)]"
  have sz: "unat sz = Suc k * 4096 - 16" unfolding sz_def by (rule extent_size [OF q(2)])
  have b: "unat ?b = q * 4096" using q(2) by (simp add: unat_page_addr)
  have "blk_end (?b, sz, True) = (q + Suc k) * 4096" by (simp add: blk_end_def b sz)
  then have e: "heap_end 1 ?xs = (q + Suc k) * 4096" by simp
  have "8 dvd unat ?b" "8 dvd unat sz"
    unfolding b sz by (auto intro!: dvd_diff_nat dvd_mult)
  then have l: "layout 1 ?xs" using inv q(1) b by (simp add: heap_inv_def)
  have fresh: "?b \<notin> fst ` set xs" using layout_distinct [OF l] by simp
  obtain B where B: "heap_extend pages h = Some (?b, h\<lparr>pm := p2, blocks := B,
      free_bytes := free_bytes h + sz, heap_head := first_addr xs ?b\<rparr>)" "reps B (cells 0 ?xs 0)"
    using heap_extend_link [OF p _ _ heap_inv_basic(1,2) [OF inv] fresh] inv
    unfolding heap_inv_def sz_def by blast
  then have "heap_inv (Suc e) ?xs (h\<lparr>pm := p2, blocks := B,
      free_bytes := free_bytes h + sz, heap_head := first_addr xs ?b\<rparr>)"
    using inv l e q(2-4) by (simp add: heap_inv_def algebra_simps)
  moreover have "4080 \<le> unat sz" by (simp add: sz)
  ultimately show thesis using that B(1) p(2) by blast
qed

lemma heap_extend_some:
  assumes inv: "heap_inv e xs h" and "avail (pm h) \<noteq> {}"
  obtains b sz h' where "heap_extend pages h = Some (b, h')" "b \<noteq> 0"
    "heap_inv (Suc e) (xs @ [(b, sz, True)]) h'"
  using heap_extend_sized [OF assms] by metis

section \<open>Allocation\<close>

lemma heap_inv_blocks_end:
  assumes "heap_inv e xs h" and "x \<in> set xs"
  shows "blk_end x \<le> 2 ^ 27"
  using assms layout_member [of 1 xs x] by (auto simp: heap_inv_def)

lemma split_block_exact:
  assumes inv: "heap_inv e (us @ (b, s, True) # vs) h" and fits: "sz + 16 + 16 \<le> s"
    and small: "unat sz + 32 < 2 ^ 32" and "8 dvd unat sz"
  shows "\<exists>B. split_block b sz (blocks h) = Some B \<and>
     heap_inv e (us @ (b, sz, True) # (b + 16 + sz, s - sz - 16, True) # vs) (h\<lparr>blocks := B\<rparr>)"
proof -
  let ?xs = "us @ (b, s, True) # vs" and ?r = "b + 16 + sz"
  let ?ys = "us @ (b, sz, True) # (?r, s - sz - 16, True) # vs"
  have e: "blk_end (b, s, True) \<le> 2 ^ 27" using heap_inv_blocks_end [OF inv] by simp
  note sizes = split_sizes [OF fits small]
  have lay: "layout (heap_end 1 us) ((b, s, True) # vs)" "layout 1 us"
    using inv by (auto simp: heap_inv_def)
  note split = layout_split [OF lay(1) _ fits small \<open>8 dvd unat sz\<close>, of True]
  have l: "layout 1 ?ys" "heap_end 1 ?ys = heap_end 1 ?xs"
    using split e lay(2) by simp_all
  have "?r \<notin> fst ` set ?xs" using layout_distinct [OF l(1)] by auto
  then obtain B where B: "split_block b sz (blocks h) = Some B" "reps B (cells 0 ?ys 0)"
    using reps_split_block [of "blocks h" 0 us b s True vs sz] inv heap_inv_basic(1,2) [OF inv] fits
    by (auto simp: heap_inv_def simp del: cells_append)
  have "heap_inv e ?ys (h\<lparr>blocks := B\<rparr>)"
    using inv l B(2) sizes by (simp add: heap_inv_def)
  with B(1) show ?thesis by blast
qed

lemma split_block_inv:
  assumes inv: "heap_inv e (us @ (b, s, True) # vs) h" and "sz \<le> s" and "8 dvd unat sz"
  shows "\<exists>B s' ws. split_block b sz (blocks h) = Some B \<and> sz \<le> s' \<and> unat s' < unat sz + 32 \<and>
     live ws = live vs \<and> heap_inv e (us @ (b, s', True) # ws) (h\<lparr>blocks := B\<rparr>)"
proof (cases "sz + 16 + 16 \<le> s")
  case False
  have "unat s \<le> 2 ^ 27" using heap_inv_blocks_end [OF inv, of "(b, s, True)"] by (simp add: blk_end_def)
  with \<open>sz \<le> s\<close> have "unat (sz + 16 + 16) = unat sz + 32"
    by (simp add: word_le_nat_alt unat_simps)
  with False have "unat s < unat sz + 32" by (simp add: word_le_nat_alt)
  moreover have "\<exists>blk. blocks h b = Some blk \<and> hb_size blk = s" using inv by (simp add: heap_inv_def)
  then have "split_block b sz (blocks h) = Some (blocks h)"
    using False by (auto simp: split_block_def)
  ultimately show ?thesis
    using assms by (intro exI [of _ "blocks h"] exI [of _ s] exI [of _ vs]) simp
next
  case True
  have "blk_end (b, s, True) \<le> 2 ^ 27" using heap_inv_blocks_end [OF inv] by simp
  then have small: "unat sz + 32 < 2 ^ 32"
    using \<open>sz \<le> s\<close> by (simp add: blk_end_def word_le_nat_alt)
  from split_block_exact [OF inv True small \<open>8 dvd unat sz\<close>] obtain B where
    "split_block b sz (blocks h) = Some B"
    "heap_inv e (us @ (b, sz, True) # (b + 16 + sz, s - sz - 16, True) # vs) (h\<lparr>blocks := B\<rparr>)" by blast
  then show ?thesis
    by (intro exI [of _ B] exI [of _ sz] exI [of _ "(b + 16 + sz, s - sz - 16, True) # vs"]) simp
qed

lemma mark_used_inv:
  assumes inv: "heap_inv e (us @ (b, s, True) # vs) h"
  shows "\<exists>blk. blocks h b = Some blk \<and> hb_size blk = s \<and>
     heap_inv e (us @ (b, s, False) # vs) (h\<lparr>blocks := (blocks h)(b \<mapsto> blk\<lparr>hb_free := False\<rparr>),
       free_bytes := free_bytes h - s, used_bytes := used_bytes h + s\<rparr>)"
proof -
  from reps_set_block [of "blocks h" 0 us b s True vs 0 False] inv heap_inv_basic(1) [OF inv]
  obtain blk where "blocks h b = Some blk" "hb_size blk = s"
    "reps ((blocks h)(b \<mapsto> blk\<lparr>hb_free := False\<rparr>)) (cells 0 (us @ (b, s, False) # vs) 0)"
    by (auto simp: heap_inv_def simp del: cells_append)
  moreover have "layout 1 (us @ (b, s, False) # vs) = layout 1 (us @ (b, s, True) # vs)"
    "heap_end 1 (us @ (b, s, False) # vs) = heap_end 1 (us @ (b, s, True) # vs)"
    by (simp_all add: blk_end_def)
  ultimately show ?thesis
    using inv by (intro exI [of _ blk]) (simp add: heap_inv_def algebra_simps)
qed

lemma choose_block_inv:
  assumes inv: "heap_inv e xs h"
  shows "\<exists>b h' e' ys. choose_block sz h = Some (b, h') \<and> heap_inv e' ys h' \<and> live ys = live xs \<and>
     (b = 0 \<and> find (\<lambda>(a, s, f). f \<and> sz \<le> s) xs = None \<or>
      b \<noteq> 0 \<and> (\<exists>us s vs. ys = us @ (b, s, True) # vs \<and> sz \<le> s))"
proof -
  let ?fit = "\<lambda>(a, s, f). f \<and> sz \<le> s"
  have find: "find_free (blocks h) sz (heap_head h) = Some (case find ?fit xs of None \<Rightarrow> 0 | Some x \<Rightarrow> fst x)"
    using find_free_rep [of "blocks h" 0 xs sz] inv heap_inv_basic(2) [OF inv] by (simp add: heap_inv_def)
  show ?thesis
  proof (cases "find ?fit xs")
    case (Some x)
    obtain b s f where x: "x = (b, s, f)" by (cases x)
    have "x \<in> set xs" "?fit x" using Some by (metis find_Some_iff nth_mem)+
    with x have mem: "(b, s, True) \<in> set xs" and fit: "sz \<le> s" by auto
    from mem have "b \<noteq> 0" using heap_inv_basic(2) [OF inv] by force
    moreover from mem obtain us vs where "xs = us @ (b, s, True) # vs" by (meson split_list)
    moreover have "choose_block sz h = Some (b, h)"
      using find Some x \<open>b \<noteq> 0\<close> by (simp add: choose_block_def)
    ultimately show ?thesis using inv fit by blast
  next
    case None
    define n where "n = (let n = (sz + sizeof_heap_block + PAGE_SIZE - 1) div PAGE_SIZE in if n < 1 then 1 else n)"
    have choose: "choose_block sz h = do { (b, h) \<leftarrow> heap_extend n h;
        if b = 0 then Some (0, h)
        else do { blk \<leftarrow> blocks h b; if hb_size blk < sz then Some (0, h) else Some (b, h) } }"
      using find None by (simp add: choose_block_def n_def Let_def)
    show ?thesis
    proof (cases "avail (pm h) = {}")
      case True
      then show ?thesis using choose heap_extend_none [OF inv] inv None by auto
    next
      case False
      from inv False obtain b s h' where ext: "heap_extend n h = Some (b, h')" "b \<noteq> 0"
        and inv': "heap_inv (Suc e) (xs @ [(b, s, True)]) h'"
        by (rule heap_extend_some)
      have "\<exists>blk. blocks h' b = Some blk \<and> hb_size blk = s" using inv' by (simp add: heap_inv_def)
      then have "choose_block sz h = Some (if s < sz then 0 else b, h')"
        using choose ext by auto
      moreover have "live (xs @ [(b, s, True)]) = live xs" by simp
      ultimately show ?thesis using inv' None ext(2) by (cases "s < sz") force+
    qed
  qed
qed

lemma live_fresh:
  assumes "heap_inv e (us @ (b, t, False) # ws) h"
  shows "b + 16 \<noteq> 0" "8 dvd unat (b + 16)" "b + 16 \<notin> fst ` (live us \<union> live ws)"
proof -
  have "blk_end (b, t, False) \<le> 2 ^ 27" "8 dvd unat b"
    using heap_inv_blocks_end [OF assms] assms by (auto simp: heap_inv_def)
  then have "unat (b + 16) = unat b + 16"
    using blk_end_addr [of b t False] by simp
  with \<open>8 dvd unat b\<close> show "b + 16 \<noteq> 0" "8 dvd unat (b + 16)"
    by (auto simp: word_unat_eq_iff)
  have "distinct (map fst (us @ (b, t, False) # ws))" by (rule heap_inv_basic(1) [OF assms])
  then show "b + 16 \<notin> fst ` (live us \<union> live ws)" by (force simp: live_iff)
qed

lemma kmalloc_inv:
  assumes inv: "heap_inv e xs h" and "n \<noteq> 0"
  shows "\<exists>p h' e' ys. kmalloc n h = Some (p, h') \<and> heap_inv e' ys h' \<and>
     (if p = 0 then live ys = live xs \<and> find (\<lambda>(a, s, f). f \<and> align_up n 8 \<le> s) xs = None
      else \<exists>s. live ys = insert (p, s) (live xs) \<and> p \<notin> fst ` live xs \<and> 8 dvd unat p \<and>
             unat (align_up n 8) \<le> unat s \<and> unat s < unat (align_up n 8) + 32)"
proof -
  let ?sz = "align_up n 8"
  obtain b h1 e1 ys where c: "choose_block ?sz h = Some (b, h1)" "heap_inv e1 ys h1" "live ys = live xs"
    "b = 0 \<and> find (\<lambda>(a, s, f). f \<and> ?sz \<le> s) xs = None \<or>
     b \<noteq> 0 \<and> (\<exists>us s vs. ys = us @ (b, s, True) # vs \<and> ?sz \<le> s)"
    using choose_block_inv [OF inv, of ?sz] by (elim exE conjE) (rule that)
  show ?thesis
  proof (cases "b = 0")
    case True
    with c assms(2) show ?thesis by (auto simp: kmalloc_def Let_def)
  next
    case False
    then obtain us s vs where ys: "ys = us @ (b, s, True) # vs" "?sz \<le> s" using c(4) by blast
    from split_block_inv [OF c(2) [unfolded ys(1)] ys(2) align_up_dvd] obtain B t ws where
      B: "split_block b ?sz (blocks h1) = Some B" "?sz \<le> t" "unat t < unat ?sz + 32" "live ws = live vs"
        "heap_inv e1 (us @ (b, t, True) # ws) (h1\<lparr>blocks := B\<rparr>)" by blast
    from mark_used_inv [OF B(5)] obtain blk where
      blk: "B b = Some blk" "hb_size blk = t"
        "heap_inv e1 (us @ (b, t, False) # ws) (h1\<lparr>blocks := B(b \<mapsto> blk\<lparr>hb_free := False\<rparr>),
           free_bytes := free_bytes h1 - t, used_bytes := used_bytes h1 + t\<rparr>)" by auto
    have "live xs = live us \<union> live ws" using c(3) ys(1) B(4) by simp
    moreover have "unat ?sz \<le> unat t" using B(2) by (simp add: word_le_nat_alt)
    moreover have "kmalloc n h = Some (b + 16, h1\<lparr>blocks := B(b \<mapsto> blk\<lparr>hb_free := False\<rparr>),
        free_bytes := free_bytes h1 - t, used_bytes := used_bytes h1 + t\<rparr>)"
      using False assms(2) c(1) B(1) blk(1,2) by (auto simp: kmalloc_def Let_def)
    ultimately show ?thesis
      using blk(3) live_fresh [OF blk(3)] B(3) by (intro exI conjI) (assumption, assumption, auto)
  qed
qed

text \<open>First fit into a last free block with room to spare: the request is split off its front.\<close>

lemma kmalloc_last_block:
  assumes inv: "heap_inv e (us @ [(b, s, True)]) h" and used: "\<forall>(a, s, f) \<in> set us. \<not> f"
    and n: "n \<noteq> 0" "sz = align_up n 8" and room: "unat sz + 32 \<le> unat s"
  shows "b \<noteq> 0 \<and> b + 16 \<noteq> 0 \<and> (\<exists>h'. kmalloc n h = Some (b + 16, h') \<and>
     heap_inv e (us @ [(b, sz, False), (b + 16 + sz, s - sz - 16, True)]) h')"
proof -
  have small: "unat sz + 32 < 2 ^ 32" using room unsigned_less [of s, where ?'a = nat] by simp
  then have fits: "sz + 16 + 16 \<le> s" "sz \<le> s" using room by (simp_all add: word_le_nat_alt unat_simps)
  have nz: "b \<noteq> 0" using heap_inv_basic(2) [OF inv] by auto
  have "find (\<lambda>(a, s, f). f \<and> sz \<le> s) (us @ [(b, s, True)]) = Some (b, s, True)"
    using used fits(2) by (induction us) auto
  then have "find_free (blocks h) sz (heap_head h) = Some b"
    using find_free_rep [of "blocks h" 0 "us @ [(b, s, True)]" sz] inv heap_inv_basic(2) [OF inv]
    by (simp add: heap_inv_def)
  then have choose: "choose_block sz h = Some (b, h)" using nz by (simp add: choose_block_def)
  from split_block_exact [OF inv fits(1) small] obtain B where
    B: "split_block b sz (blocks h) = Some B"
      "heap_inv e (us @ (b, sz, True) # [(b + 16 + sz, s - sz - 16, True)]) (h\<lparr>blocks := B\<rparr>)"
    using align_up_dvd [of n] n(2) by auto
  from mark_used_inv [OF B(2)] obtain blk where
    blk: "B b = Some blk" "hb_size blk = sz"
      "heap_inv e (us @ (b, sz, False) # [(b + 16 + sz, s - sz - 16, True)])
        (h\<lparr>blocks := B(b \<mapsto> blk\<lparr>hb_free := False\<rparr>), free_bytes := free_bytes h - sz, used_bytes := used_bytes h + sz\<rparr>)"
    by auto
  have "kmalloc n h = Some (b + 16, h\<lparr>blocks := B(b \<mapsto> blk\<lparr>hb_free := False\<rparr>),
      free_bytes := free_bytes h - sz, used_bytes := used_bytes h + sz\<rparr>)"
    using choose n nz B(1) blk(1,2) by (simp add: kmalloc_def Let_def)
  with nz live_fresh(1) [OF blk(3)] blk(3) show ?thesis by simp
qed

section \<open>Release\<close>

lemma mark_free_inv:
  assumes inv: "heap_inv e (us @ (b, s, False) # vs) h"
  shows "\<exists>blk. blocks h b = Some blk \<and> hb_size blk = s \<and>
     heap_inv e (us @ (b, s, True) # vs) (h\<lparr>used_bytes := used_bytes h - s, free_bytes := free_bytes h + s,
       blocks := (blocks h)(b \<mapsto> blk\<lparr>hb_free := True\<rparr>)\<rparr>)"
proof -
  from reps_set_block [of "blocks h" 0 us b s False vs 0 True] inv heap_inv_basic(1) [OF inv]
  obtain blk where "blocks h b = Some blk" "hb_size blk = s"
    "reps ((blocks h)(b \<mapsto> blk\<lparr>hb_free := True\<rparr>)) (cells 0 (us @ (b, s, True) # vs) 0)"
    by (auto simp: heap_inv_def simp del: cells_append)
  moreover have "layout 1 (us @ (b, s, True) # vs) = layout 1 (us @ (b, s, False) # vs)"
    "heap_end 1 (us @ (b, s, True) # vs) = heap_end 1 (us @ (b, s, False) # vs)"
    by (simp_all add: blk_end_def)
  ultimately show ?thesis
    using inv by (intro exI [of _ blk]) (simp add: heap_inv_def algebra_simps)
qed

text \<open>Two physically adjacent free neighbours become one block, whichever of them is being freed.\<close>

lemma merge_inv:
  assumes inv: "heap_inv e (us @ (a, s, True) # (b, t, True) # vs) h" and adj: "a + 16 + s = b"
  shows "\<exists>B. try_merge a b True (blocks h) = Some B \<and>
      heap_inv e (us @ (a, s + (16 + t), True) # vs) (h\<lparr>blocks := B\<rparr>)"
    and "\<exists>B. try_merge b a False (blocks h) = Some B \<and>
      heap_inv e (us @ (a, s + (16 + t), True) # vs) (h\<lparr>blocks := B\<rparr>)"
proof -
  let ?xs = "us @ (a, s, True) # (b, t, True) # vs" and ?ys = "us @ (a, s + (16 + t), True) # vs"
  have nz: "0 \<notin> fst ` set vs" "a \<noteq> 0" "b \<noteq> 0" using heap_inv_basic(2) [OF inv] by auto
  have lay: "layout (heap_end 1 us) ((a, s, True) # (b, t, True) # vs)" "layout 1 us"
    "heap_end (heap_end 1 us) ((a, s, True) # (b, t, True) # vs) < 2 ^ 32"
    using inv by (auto simp: heap_inv_def)
  note m = layout_merge(1,2) [OF lay(1) adj lay(3), where h = True] layout_merge(3) [OF lay(1) adj lay(3)]
  have step: "heap_inv e ?ys (h\<lparr>blocks := B\<rparr>)" if "reps B (cells 0 ?ys 0)" for B
    using inv that m lay(2) by (simp add: heap_inv_def)
  have rep: "reps (blocks h) (cells 0 ?xs 0)" using inv by (simp add: heap_inv_def)
  show "\<exists>B. try_merge a b True (blocks h) = Some B \<and> heap_inv e ?ys (h\<lparr>blocks := B\<rparr>)"
    "\<exists>B. try_merge b a False (blocks h) = Some B \<and> heap_inv e ?ys (h\<lparr>blocks := B\<rparr>)"
    using try_merge_rep [OF rep heap_inv_basic(1) [OF inv] nz(1) adj nz(2,3)] step by blast+
qed

lemma merge_next_inv:
  assumes inv: "heap_inv e (us @ (b, s, True) # vs) h"
  shows "\<exists>B s' vs'. try_merge b (first_addr vs 0) True (blocks h) = Some B \<and> live vs' = live vs \<and>
     heap_inv e (us @ (b, s', True) # vs') (h\<lparr>blocks := B\<rparr>)"
proof -
  have same: ?thesis if "try_merge b (first_addr vs 0) True (blocks h) = Some (blocks h)"
    using that inv by (intro exI [of _ "blocks h"] exI [of _ s] exI [of _ vs]) simp
  have rep: "reps (blocks h) (cells 0 (us @ (b, s, True) # vs) 0)" using inv by (simp add: heap_inv_def)
  show ?thesis
  proof (cases vs)
    case Nil
    then show ?thesis by (intro same) (simp add: try_merge_def)
  next
    case (Cons v ws)
    obtain a t f where v: "v = (a, t, f)" by (cases v)
    show ?thesis
    proof (cases "f \<and> b + 16 + s = a")
      case True
      then show ?thesis using merge_inv(1) [of e us b s a t ws h] inv Cons v by fastforce
    next
      case False
      then show ?thesis using rep Cons v by (intro same) (auto simp: try_merge_def Let_def)
    qed
  qed
qed

lemma merge_prev_inv:
  assumes inv: "heap_inv e (us @ (b, s, True) # vs) h"
  shows "\<exists>B ys. try_merge b (last_addr 0 us) False (blocks h) = Some B \<and> live ys = live us \<union> live vs \<and>
     heap_inv e ys (h\<lparr>blocks := B\<rparr>)"
proof -
  have same: ?thesis if "try_merge b (last_addr 0 us) False (blocks h) = Some (blocks h)"
    using that inv by (intro exI [of _ "blocks h"] exI [of _ "us @ (b, s, True) # vs"]) simp
  have rep: "reps (blocks h) (cells 0 (us @ (b, s, True) # vs) 0)" using inv by (simp add: heap_inv_def)
  show ?thesis
  proof (cases us rule: rev_cases)
    case Nil
    then show ?thesis by (intro same) (simp add: try_merge_def)
  next
    case (snoc ts u)
    obtain a t f where u: "u = (a, t, f)" by (cases u)
    show ?thesis
    proof (cases "f \<and> a + 16 + t = b")
      case True
      with inv snoc u obtain B where "try_merge b a False (blocks h) = Some B"
        "heap_inv e (ts @ (a, t + (16 + s), True) # vs) (h\<lparr>blocks := B\<rparr>)"
        using merge_inv(2) [of e ts a t b s vs h] by auto
      then show ?thesis
        using snoc u True by (intro exI [of _ B] exI [of _ "ts @ (a, t + (16 + s), True) # vs"]) simp
    next
      case False
      then show ?thesis using rep snoc u by (intro same) (auto simp: try_merge_def Let_def)
    qed
  qed
qed

lemma kfree_inv:
  assumes inv: "heap_inv e xs h" and live: "(p, s) \<in> live xs"
  shows "\<exists>h' ys. kfree p h = Some h' \<and> heap_inv e ys h' \<and> live ys = live xs - {(p, s)} \<and>
     used_bytes h' = used_bytes h - s \<and> free_bytes h' = free_bytes h + s"
proof -
  from live obtain b where b: "(b, s, False) \<in> set xs" "p = b + 16" by (auto simp: live_iff)
  then obtain us vs where xs: "xs = us @ (b, s, False) # vs" by (meson split_list)
  note fresh = live_fresh [OF inv [unfolded xs]]
  from mark_free_inv [OF inv [unfolded xs]] obtain blk where
    blk: "blocks h b = Some blk" "hb_size blk = s" and
    h1: "heap_inv e (us @ (b, s, True) # vs) (h\<lparr>used_bytes := used_bytes h - s, free_bytes := free_bytes h + s,
       blocks := (blocks h)(b \<mapsto> blk\<lparr>hb_free := True\<rparr>)\<rparr>)" by blast
  let ?B = "(blocks h)(b \<mapsto> blk\<lparr>hb_free := True\<rparr>)"
  from merge_next_inv [OF h1] obtain B2 s2 vs2 where
    B2: "try_merge b (first_addr vs 0) True ?B = Some B2" "live vs2 = live vs" and
    h2: "heap_inv e (us @ (b, s2, True) # vs2) (h\<lparr>used_bytes := used_bytes h - s, free_bytes := free_bytes h + s,
       blocks := B2\<rparr>)" by auto
  from merge_prev_inv [OF h2] obtain B3 ys where
    B3: "try_merge b (last_addr 0 us) False B2 = Some B3" "live ys = live us \<union> live vs2"
      "heap_inv e ys (h\<lparr>used_bytes := used_bytes h - s, free_bytes := free_bytes h + s, blocks := B3\<rparr>)"
    by auto
  have "hb_next (blk\<lparr>hb_free := True\<rparr>) = first_addr vs 0" 
    using h1 by (simp add: heap_inv_def)
  moreover have "\<exists>b2. B2 b = Some b2 \<and> hb_prev b2 = last_addr 0 us"
    using h2 by (simp add: heap_inv_def)
  ultimately have "kfree p h = Some (h\<lparr>used_bytes := used_bytes h - s,
      free_bytes := free_bytes h + s, blocks := B3\<rparr>)"
    using b(2) blk B2(1) B3(1) fresh(1) by (auto simp: kfree_def Let_def)
  moreover have "(p, s) \<notin> live us \<union> live vs"
    using fresh(3) b(2) by (metis fst_conv image_eqI)
  then have "live ys = live xs - {(p, s)}"
    using B3(2) B2(2) xs b(2) by auto
  ultimately show ?thesis using B3(3) by auto
qed

end
