(* ===== verification/HeapSpec.thy ===== *)
theory HeapSpec
  imports HeapInv
begin

text \<open>
  What the heap promises: its initialisation, the locale \<open>allocator\<close> with the clients'
  view of an allocator (traces of requests and releases), its interpretation by \<open>kmalloc\<close>
  and \<open>kfree\<close>, and the properties of the heap.
\<close>

section \<open>Initialisation\<close>

lemma heap_init_inv:
  assumes "pmm_inv (pm h)" and "0 \<notin> avail (pm h)"
  shows "\<exists>h' e xs. heap_init h = Some h' \<and> heap_inv e xs h' \<and> live xs = {}"
proof -
  let ?h = "h\<lparr>heap_head := 0, used_bytes := 0, free_bytes := 0\<rparr>"
  have "\<forall>p \<in> avail (pm h). 1 \<le> p * 4096" using assms(2) by (auto intro: Suc_leI gr0I)
  then have inv: "heap_inv 0 [] ?h" using assms(1) by (simp add: heap_inv_def)
  show ?thesis
  proof (cases "avail (pm ?h) = {}")
    case True
    moreover have "live [] = {}" by simp
    ultimately show ?thesis using heap_extend_none [OF inv] inv unfolding heap_init_def by fastforce
  next
    case False
    from inv False obtain b s h' where "heap_extend 16 ?h = Some (b, h')"
      "heap_inv (Suc 0) ([] @ [(b, s, True)]) h'"
      by (rule heap_extend_some)
    moreover have "live ([] @ [(b, s, True)]) = {}" by simp
    ultimately show ?thesis unfolding heap_init_def by fastforce
  qed
qed

text \<open>With any memory at all, the heap starts as one free block of at least a page less its header.\<close>

lemma heap_init_fresh:
  assumes "pmm_inv (pm h)" and "0 \<notin> avail (pm h)" and "avail (pm h) \<noteq> {}" and "heap_init h = Some h0"
  shows "\<exists>b s. heap_inv 1 [(b, s, True)] h0 \<and> 4080 \<le> unat s"
proof -
  let ?h = "h\<lparr>heap_head := 0, used_bytes := 0, free_bytes := 0\<rparr>"
  have "\<forall>p \<in> avail (pm h). 1 \<le> p * 4096" using assms(2) by (auto intro: Suc_leI gr0I)
  then have inv: "heap_inv 0 [] ?h" using assms(1) by (simp add: heap_inv_def)
  have "avail (pm ?h) \<noteq> {}" using assms(3) by simp
  from inv this obtain b s h' where "heap_extend 16 ?h = Some (b, h')"
      "heap_inv (Suc 0) ([] @ [(b, s, True)]) h'" "4080 \<le> unat s"
    by (rule heap_extend_sized)
  with assms(4) show ?thesis unfolding heap_init_def by auto
qed

section \<open>The contract of a memory allocator\<close>

text \<open>
  \<open>held h L\<close>: in state \<open>h\<close> exactly the allocations \<open>L\<close> (pointer and usable size) are live.
  A request whose size can be rounded up to the alignment without overflow is honoured
  or refused by a null pointer; a live pointer can be given back.
\<close>

locale allocator =
  fixes malloc :: "u32 \<Rightarrow> 'h \<Rightarrow> (u32 \<times> 'h) option"
    and release :: "u32 \<Rightarrow> 'h \<Rightarrow> 'h option"
    and held :: "'h \<Rightarrow> (u32 \<times> u32) set \<Rightarrow> bool"
  assumes malloc_ok: "held h L \<Longrightarrow> n \<noteq> 0 \<Longrightarrow> unat n + 7 < 2 ^ 32 \<Longrightarrow>
      \<exists>p h' M. malloc n h = Some (p, h') \<and> held h' M \<and>
        (if p = 0 then M = L else \<exists>s. M = insert (p, s) L \<and> p \<notin> fst ` L \<and> unat n \<le> unat s)"
    and release_ok: "held h L \<Longrightarrow> (p, s) \<in> L \<Longrightarrow> \<exists>h'. release p h = Some h' \<and> held h' (L - {(p, s)})"
    and held_disjoint: "held h L \<Longrightarrow> (p, s) \<in> L \<Longrightarrow> (q, t) \<in> L \<Longrightarrow> (p, s) \<noteq> (q, t) \<Longrightarrow>
      unat p + unat s \<le> unat q \<or> unat q + unat t \<le> unat p"
    and held_inj: "held h L \<Longrightarrow> inj_on fst L"
    and held_nonnull: "held h L \<Longrightarrow> (p, s) \<in> L \<Longrightarrow> p \<noteq> 0"
    and held_bound: "held h L \<Longrightarrow> (p, s) \<in> L \<Longrightarrow> unat p + unat s < 2 ^ 32"

text \<open>
  A client's use of an allocator: any sequence of requests and releases of what it
  holds.  \<open>R\<close> is the client's view, the pointers it holds with the sizes it asked for.
\<close>

inductive alloc_trace ::
    "(u32 \<Rightarrow> 'h \<Rightarrow> (u32 \<times> 'h) option) \<Rightarrow> (u32 \<Rightarrow> 'h \<Rightarrow> 'h option) \<Rightarrow> 'h \<Rightarrow> 'h \<Rightarrow> (u32 \<times> u32) set \<Rightarrow> bool"
  for malloc release h0 where
  start: "alloc_trace malloc release h0 h0 {}"
| got: "alloc_trace malloc release h0 h R \<Longrightarrow> n \<noteq> 0 \<Longrightarrow> unat n + 7 < 2 ^ 32 \<Longrightarrow>
    malloc n h = Some (p, h') \<Longrightarrow> p \<noteq> 0 \<Longrightarrow> alloc_trace malloc release h0 h' (insert (p, n) R)"
| refused: "alloc_trace malloc release h0 h R \<Longrightarrow> n \<noteq> 0 \<Longrightarrow> unat n + 7 < 2 ^ 32 \<Longrightarrow>
    malloc n h = Some (0, h') \<Longrightarrow> alloc_trace malloc release h0 h' R"
| freed: "alloc_trace malloc release h0 h R \<Longrightarrow> (p, n) \<in> R \<Longrightarrow>
    release p h = Some h' \<Longrightarrow> alloc_trace malloc release h0 h' (R - {(p, n)})"

context allocator
begin

text \<open>What the client holds is covered by live allocations at least as large.\<close>

definition covers :: "(u32 \<times> u32) set \<Rightarrow> (u32 \<times> u32) set \<Rightarrow> bool" where
  "covers L R \<longleftrightarrow> fst ` R = fst ` L \<and> inj_on fst R \<and> (\<forall>(p, n) \<in> R. \<exists>s. (p, s) \<in> L \<and> unat n \<le> unat s)"

lemma covers_member: "covers L R \<Longrightarrow> (p, n) \<in> R \<Longrightarrow> \<exists>s. (p, s) \<in> L \<and> unat n \<le> unat s"
  unfolding covers_def by blast

lemma covers_remove:
  assumes "covers L R" and "inj_on fst L" and "(p, s) \<in> L" and "(p, n) \<in> R"
  shows "covers (L - {(p, s)}) (R - {(p, n)})"
proof -
  have R: "inj_on fst R" "fst ` R = fst ` L" using assms(1) by (simp_all add: covers_def)
  have "fst ` (R - {(p, n)}) = fst ` (L - {(p, s)})"
    using inj_on_image_set_diff [OF R(1), of R "{(p, n)}"] inj_on_image_set_diff [OF assms(2), of L "{(p, s)}"]
      assms(3,4) R(2) by simp
  moreover have "\<exists>t. (q, t) \<in> L - {(p, s)} \<and> unat k \<le> unat t" if "(q, k) \<in> R - {(p, n)}" for q k
  proof -
    from that have "q \<noteq> p" using inj_onD [OF R(1) _ _ assms(4), of "(q, k)"] by auto
    then show ?thesis using covers_member [OF assms(1), of q k] that by auto
  qed
  ultimately show ?thesis using R(1) by (auto simp: covers_def inj_on_diff)
qed

lemma trace_covers:
  "alloc_trace malloc release h0 h R \<Longrightarrow> held h0 {} \<Longrightarrow>
     \<exists>L. held h L \<and> covers L R \<and> (\<forall>(p, n) \<in> R. n \<noteq> 0)"
proof (induction rule: alloc_trace.induct)
  case start
  then show ?case by (auto simp: covers_def)
next
  case (got h R n p h')
  then obtain L where L: "held h L" "covers L R" "\<forall>(p, n) \<in> R. n \<noteq> 0" by blast
  with got malloc_ok [OF L(1) got(2,3)] obtain s where
    "held h' (insert (p, s) L)" "p \<notin> fst ` L" "unat n \<le> unat s" by auto
  moreover from this L have "covers (insert (p, s) L) (insert (p, n) R)"
    by (auto simp: covers_def inj_on_def image_iff)
  ultimately show ?case using L(3) got(2) by blast
next
  case (refused h R n h')
  then obtain L where L: "held h L" "covers L R" "\<forall>(p, n) \<in> R. n \<noteq> 0" by blast
  with refused malloc_ok [OF L(1) refused(2,3)] have "held h' L" by auto
  with L show ?case by blast
next
  case (freed h R p n h')
  then obtain L where L: "held h L" "covers L R" "\<forall>(p, n) \<in> R. n \<noteq> 0" by blast
  with freed obtain s where s: "(p, s) \<in> L" "unat n \<le> unat s" by (auto simp: covers_def)
  have "held h' (L - {(p, s)})" using release_ok [OF L(1) s(1)] freed(3) by auto
  moreover have "covers (L - {(p, s)}) (R - {(p, n)})"
    using L(2) held_inj [OF L(1)] s(1) freed(2) by (rule covers_remove)
  ultimately show ?case using L(3) by blast
qed

text \<open>Whatever the client did, its allocations are non-null and pairwise disjoint as asked for.\<close>

lemma trace_disjoint:
  assumes "alloc_trace malloc release h0 h R" and "held h0 {}"
    and "(p, n) \<in> R" and "(q, k) \<in> R" and "(p, n) \<noteq> (q, k)"
  shows "p \<noteq> 0 \<and> (unat p + unat n \<le> unat q \<or> unat q + unat k \<le> unat p)"
proof -
  from trace_covers [OF assms(1,2)] obtain L where L: "held h L" "covers L R" by blast
  from L(2) assms(3,4) obtain s t where "(p, s) \<in> L" "unat n \<le> unat s" "(q, t) \<in> L" "unat k \<le> unat t"
    using covers_member by meson
  moreover have inj: "inj_on fst R" using L(2) by (simp add: covers_def)
  have "p \<noteq> q" using inj_onD [OF inj _ assms(3,4)] assms(5) by auto
  ultimately show ?thesis
    using held_disjoint [OF L(1), of p s q t] held_nonnull [OF L(1)] by fastforce
qed

text \<open>The allocator never gets stuck: every further request and every release of a held pointer returns.\<close>

lemma trace_progress:
  assumes "alloc_trace malloc release h0 h R" and "held h0 {}"
  shows "n \<noteq> 0 \<Longrightarrow> unat n + 7 < 2 ^ 32 \<Longrightarrow> \<exists>p h'. malloc n h = Some (p, h')"
    and "(p, n) \<in> R \<Longrightarrow> \<exists>h'. release p h = Some h'"
proof -
  from trace_covers [OF assms] obtain L where L: "held h L" "covers L R" by blast
  show "\<exists>p h'. malloc n h = Some (p, h')" if "n \<noteq> 0" "unat n + 7 < 2 ^ 32"
    using malloc_ok [OF L(1) that] by blast
  show "\<exists>h'. release p h = Some h'" if "(p, n) \<in> R"
    using covers_member [OF L(2) that] release_ok [OF L(1)] by blast
qed

end

lemma heap_live_facts:
  assumes "heap_inv e xs h"
  shows "inj_on fst (live xs)"
    and "(p, s) \<in> live xs \<Longrightarrow> p \<noteq> 0 \<and> unat p + unat s \<le> 2 ^ 27"
    and "(p, s) \<in> live xs \<Longrightarrow> (q, t) \<in> live xs \<Longrightarrow> (p, s) \<noteq> (q, t) \<Longrightarrow>
      unat p + unat s \<le> unat q \<or> unat q + unat t \<le> unat p"
proof -
  have end_le: "unat (a + 16) = unat a + 16 \<and> unat a + 16 + unat s \<le> 2 ^ 27" if "(a, s, False) \<in> set xs" for a s
    using heap_inv_blocks_end [OF assms that] blk_end_addr [of a s False] by (simp add: blk_end_def)
  show "inj_on fst (live xs)"
    using heap_inv_basic(1) [OF assms] by (fastforce simp: inj_on_def live_iff distinct_map)
  show "p \<noteq> 0 \<and> unat p + unat s \<le> 2 ^ 27" if "(p, s) \<in> live xs"
    using that end_le by (fastforce simp: live_iff)
  assume "(p, s) \<in> live xs" "(q, t) \<in> live xs" "(p, s) \<noteq> (q, t)"
  then obtain a b where ab: "(a, s, False) \<in> set xs" "p = a + 16" "(b, t, False) \<in> set xs" "q = b + 16"
    "(a, s, False) \<noteq> (b, t, False)" by (auto simp: live_iff)
  then show "unat p + unat s \<le> unat q \<or> unat q + unat t \<le> unat p"
    using layout_disjoint [of 1 xs "(a, s, False)" "(b, t, False)"] assms end_le [OF ab(1)] end_le [OF ab(3)]
    by (auto simp: heap_inv_def blk_end_def)
qed

definition heap_held :: "heap \<Rightarrow> (u32 \<times> u32) set \<Rightarrow> bool" where
  "heap_held h L \<longleftrightarrow> (\<exists>e xs. heap_inv e xs h \<and> L = live xs)"

interpretation kheap: allocator kmalloc kfree heap_held
proof
  fix h L and n :: u32 assume h: "heap_held h L" and n: "n \<noteq> 0" "unat n + 7 < 2 ^ 32"
  then obtain e xs where inv: "heap_inv e xs h" "L = live xs" by (auto simp: heap_held_def)
  have "unat n \<le> unat (align_up n 8)" using align_up_8 [OF n(2)] by simp
  moreover obtain p h' e' ys where m: "kmalloc n h = Some (p, h')" "heap_inv e' ys h'"
    "if p = 0 then live ys = live xs \<and> find (\<lambda>(a, s, f). f \<and> align_up n 8 \<le> s) xs = None
     else \<exists>s. live ys = insert (p, s) (live xs) \<and> p \<notin> fst ` live xs \<and> 8 dvd unat p \<and>
       unat (align_up n 8) \<le> unat s \<and> unat s < unat (align_up n 8) + 32"
    using kmalloc_inv [OF inv(1) n(1)] by (elim exE conjE) (rule that)
  moreover have "heap_held h' (live ys)" using m(2) by (auto simp: heap_held_def)
  ultimately show "\<exists>p h' M. kmalloc n h = Some (p, h') \<and> heap_held h' M \<and>
      (if p = 0 then M = L else \<exists>s. M = insert (p, s) L \<and> p \<notin> fst ` L \<and> unat n \<le> unat s)"
    unfolding inv(2)
    by (intro exI [of _ p] exI [of _ h'] exI [of _ "live ys"]) (cases "p = 0"; force)
next
  fix h L p s assume "heap_held h L" "(p, s) \<in> L"
  then obtain e xs where inv: "heap_inv e xs h" and ps: "(p, s) \<in> live xs" and L: "L = live xs"
    by (auto simp: heap_held_def)
  from kfree_inv [OF inv ps] show "\<exists>h'. kfree p h = Some h' \<and> heap_held h' (L - {(p, s)})"
    unfolding heap_held_def L by metis
next
  fix h L assume "heap_held h L"
  then obtain e xs where inv: "heap_inv e xs h" and L: "L = live xs" by (auto simp: heap_held_def)
  show "inj_on fst L" unfolding L by (rule heap_live_facts(1) [OF inv])
  fix p s assume ps: "(p, s) \<in> L"
  show "p \<noteq> 0" "unat p + unat s < 2 ^ 32" using heap_live_facts(2) [OF inv] ps L by fastforce+
  fix q t assume "(q, t) \<in> L" "(p, s) \<noteq> (q, t)"
  then show "unat p + unat s \<le> unat q \<or> unat q + unat t \<le> unat p"
    using heap_live_facts(3) [OF inv] ps L by blast
qed

section \<open>Byte counters\<close>

lemma finite_live [simp]: "finite (live xs)"
  by (induction xs) auto

lemma live_sum: "distinct (map fst xs) \<Longrightarrow> (\<Sum>(p, s) \<in> live xs. unat s) = used_sum xs"
proof (induction xs)
  case (Cons x xs)
  obtain a s f where x: "x = (a, s, f)" by (cases x)
  with Cons.prems have "(a + 16, s) \<notin> live xs" by (force simp: live_iff)
  with Cons x show ?case by auto
qed simp

lemma heap_used_bytes:
  assumes "heap_inv e xs h"
  shows "unat (used_bytes h) = (\<Sum>(p, s) \<in> live xs. unat s)"
proof -
  have "used_sum xs < 2 ^ 32" using heap_inv_basic(4) [OF assms] by simp
  then show ?thesis
    using assms live_sum [OF heap_inv_basic(1) [OF assms]] by (simp add: heap_inv_def unat_of_nat_small)
qed

lemma heap_init_held:
  assumes "pmm_inv (pm h)" and "0 \<notin> avail (pm h)" and "heap_init h = Some h0"
  shows "heap_held h0 {}"
  using heap_init_inv [OF assms(1,2)] assms(3) by (auto simp: heap_held_def)

section \<open>Properties\<close>

text \<open>
  C5. In a heap satisfying its invariant, \<open>kmalloc\<close> of a size that can be rounded up to
  the alignment returns.  A null result leaves the live allocations alone and means no
  free block of the list fits; otherwise one new 8-byte aligned allocation, distinct from
  all live ones, is added, of at least the requested size and less than 40 bytes more.
  The invariant is preserved.
\<close>

theorem kmalloc_correct:
  assumes "heap_inv e xs h" and "n \<noteq> 0" and "unat n + 7 < 2 ^ 32"
  shows "\<exists>p h' e' ys. kmalloc n h = Some (p, h') \<and> heap_inv e' ys h' \<and>
     (if p = 0 then live ys = live xs \<and> (\<forall>(a, s, f) \<in> set xs. f \<longrightarrow> s < align_up n 8)
      else \<exists>s. live ys = insert (p, s) (live xs) \<and> p \<notin> fst ` live xs \<and> 8 dvd unat p \<and>
             unat n \<le> unat s \<and> unat s < unat n + 40)"
proof -
  let ?a = "align_up n 8"
  have a: "unat n \<le> unat ?a" "unat ?a < unat n + 8" using align_up_8 [OF assms(3)] by auto
  obtain p h' e' ys where m: "kmalloc n h = Some (p, h')" "heap_inv e' ys h'"
    "if p = 0 then live ys = live xs \<and> find (\<lambda>(a, s, f). f \<and> ?a \<le> s) xs = None
     else \<exists>s. live ys = insert (p, s) (live xs) \<and> p \<notin> fst ` live xs \<and> 8 dvd unat p \<and>
       unat ?a \<le> unat s \<and> unat s < unat ?a + 32"
    using kmalloc_inv [OF assms(1,2)] by (elim exE conjE) (rule that)
  show ?thesis
  proof (intro exI conjI, rule m(1), rule m(2), cases "p = 0")
    case True
    with m(3) show "if p = 0 then live ys = live xs \<and> (\<forall>(a, s, f) \<in> set xs. f \<longrightarrow> s < ?a)
      else \<exists>s. live ys = insert (p, s) (live xs) \<and> p \<notin> fst ` live xs \<and> 8 dvd unat p \<and>
        unat n \<le> unat s \<and> unat s < unat n + 40"
      by (auto simp: find_None_iff not_le)
  next
    case False
    with m(3) a show "if p = 0 then live ys = live xs \<and> (\<forall>(a, s, f) \<in> set xs. f \<longrightarrow> s < ?a)
      else \<exists>s. live ys = insert (p, s) (live xs) \<and> p \<notin> fst ` live xs \<and> 8 dvd unat p \<and>
        unat n \<le> unat s \<and> unat s < unat n + 40"
      by fastforce
  qed
qed

text \<open>
  C6. \<open>kfree\<close> of a live pointer returns, coalescing with its neighbours without touching
  any other allocation: exactly that allocation disappears and the counters move by its
  size.
\<close>

theorem kfree_correct:
  assumes "heap_inv e xs h" and "(p, s) \<in> live xs"
  shows "\<exists>h' ys. kfree p h = Some h' \<and> heap_inv e ys h' \<and> live ys = live xs - {(p, s)} \<and>
     heap_get_used_bytes h' = heap_get_used_bytes h - s \<and>
     heap_get_free_bytes h' = heap_get_free_bytes h + s"
  using kfree_inv [OF assms] by (simp add: heap_get_used_bytes_def heap_get_free_bytes_def)

text \<open>
  C4. From \<open>heap_init\<close> on, over every sequence of \<open>kmalloc\<close> and \<open>kfree\<close> calls in which only
  held pointers are freed, the regions handed out and not yet freed are non-null and
  pairwise disjoint, each as large as requested.
\<close>

theorem heap_regions_disjoint:
  assumes "pmm_inv (pm h)" and "0 \<notin> avail (pm h)" and "heap_init h = Some h0"
    and "alloc_trace kmalloc kfree h0 h1 R"
    and "(p, n) \<in> R" and "(q, k) \<in> R" and "(p, n) \<noteq> (q, k)"
  shows "p \<noteq> 0 \<and> (unat p + unat n \<le> unat q \<or> unat q + unat k \<le> unat p)"
  by (rule kheap.trace_disjoint [OF assms(4) heap_init_held [OF assms(1-3)] assms(5-7)])

text \<open>
  C7. The heap never gets stuck: \<open>heap_init\<close> returns, and after any such sequence every
  further request (of a size that can be rounded up) and every \<open>kfree\<close> of a held pointer
  returns, neither following a wild pointer nor looping.
\<close>

theorem heap_never_stuck:
  assumes "pmm_inv (pm h)" and "0 \<notin> avail (pm h)"
  shows "\<exists>h0. heap_init h = Some h0 \<and>
     (\<forall>h1 R. alloc_trace kmalloc kfree h0 h1 R \<longrightarrow>
        (\<forall>n. n \<noteq> 0 \<longrightarrow> unat n + 7 < 2 ^ 32 \<longrightarrow> kmalloc n h1 \<noteq> None) \<and>
        (\<forall>(p, n) \<in> R. kfree p h1 \<noteq> None))"
proof -
  obtain h0 where h0: "heap_init h = Some h0" using heap_init_inv [OF assms] by blast
  note held = heap_init_held [OF assms h0]
  show ?thesis
    using h0 kheap.trace_progress [OF _ held] by (intro exI [of _ h0]) fastforce
qed

text \<open>
  C8. \<open>used_bytes\<close> is exact: after any such sequence it is the sum of the usable sizes
  of the live allocations, of which there is one for each region the client holds.
\<close>

theorem heap_used_bytes_exact:
  assumes "pmm_inv (pm h)" and "0 \<notin> avail (pm h)" and "heap_init h = Some h0"
    and "alloc_trace kmalloc kfree h0 h1 R"
  shows "\<exists>e xs. heap_inv e xs h1 \<and> fst ` R = fst ` live xs \<and>
     unat (heap_get_used_bytes h1) = (\<Sum>(p, s) \<in> live xs. unat s)"
proof -
  from kheap.trace_covers [OF assms(4) heap_init_held [OF assms(1-3)]]
  obtain L where "heap_held h1 L" "kheap.covers L R" by blast
  then obtain e xs where "heap_inv e xs h1" "fst ` R = fst ` live xs"
    by (auto simp: heap_held_def kheap.covers_def)
  then show ?thesis using heap_used_bytes by (auto simp: heap_get_used_bytes_def)
qed

text \<open>
  C21. Requests of the last seven sizes below \<open>2 ^ 32\<close> wrap in \<open>align_up\<close> to 0: \<open>kmalloc\<close>
  then succeeds with a region of fewer than 32 bytes for a request of almost 4 GB.
\<close>

theorem kmalloc_size_wraps:
  assumes "heap_inv e xs h" and "2 ^ 32 \<le> unat n + 7" and "(a, t, True) \<in> set xs"
  shows "\<exists>p h' e' ys s. kmalloc n h = Some (p, h') \<and> p \<noteq> 0 \<and> heap_inv e' ys h' \<and>
     (p, s) \<in> live ys \<and> unat s < 32"
proof -
  have n: "n \<noteq> 0" "align_up n 8 = 0" using assms(2) align_up_wraps by auto
  obtain p h' e' ys where m: "kmalloc n h = Some (p, h')" "heap_inv e' ys h'"
    "if p = 0 then live ys = live xs \<and> find (\<lambda>(a, s, f). f \<and> align_up n 8 \<le> s) xs = None
     else \<exists>s. live ys = insert (p, s) (live xs) \<and> p \<notin> fst ` live xs \<and> 8 dvd unat p \<and>
       unat (align_up n 8) \<le> unat s \<and> unat s < unat (align_up n 8) + 32"
    using kmalloc_inv [OF assms(1) n(1)] by (elim exE conjE) (rule that)
  have "p \<noteq> 0" using m(3) assms(3) n(2) by (auto simp: find_None_iff split: if_splits)
  with m(3) n(2) obtain s where "live ys = insert (p, s) (live xs)" "unat s < 32" by auto
  with m(1,2) \<open>p \<noteq> 0\<close> show ?thesis by blast
qed

subsection \<open>Witnesses\<close>

text \<open>A heap of one free block, and the heap that \<open>heap_init\<close> builds from the pages 7 and 9.\<close>

definition one_block :: "pmm \<Rightarrow> heap" where
  "one_block p = \<lparr>pm = p, blocks = [0x7000 \<mapsto> \<lparr>hb_size = 4080, hb_free = True, hb_next = 0, hb_prev = 0\<rparr>],
     heap_head = 0x7000, used_bytes = 0, free_bytes = 4080\<rparr>"

definition cold_heap :: heap where
  "cold_heap = \<lparr>pm = two_pages, blocks = Map.empty, heap_head = 0, used_bytes = 0, free_bytes = 0\<rparr>"

lemma one_block_inv: "heap_inv 1 [(0x7000, 4080, True)] (one_block (reserve_all boot_pmm))"
  using reserve_all_avail [of boot_pmm] by (simp add: heap_inv_def one_block_def blk_end_def)

lemma cold_heap_pm: "pmm_inv (pm cold_heap)" "0 \<notin> avail (pm cold_heap)"
  using two_pages_avail by (simp_all add: cold_heap_def)

lemma heap_init_one_page:
  assumes "pmm_alloc_page s = (0x7000, s1)" and "pmm_alloc_page s1 = (0x9000, s2)"
  shows "heap_init \<lparr>pm = s, blocks = Map.empty, heap_head = 0, used_bytes = 0, free_bytes = 0\<rparr> =
    Some (one_block (pmm_free_page 0x9000 s2))"
proof -
  have n: "unat (16 :: u32) - 1 = Suc 14" by simp
  have "grab_pages pmm_alloc_page pmm_free_page (Suc 14) 0x8000 1 s1 = (1, pmm_free_page 0x9000 s2)"
    by (simp only: grab_pages.simps assms) simp
  then show ?thesis
    by (simp add: heap_init_def heap_extend_def n assms one_block_def del: grab_pages.simps)
qed

lemma cold_heap_init: "\<exists>p. heap_init cold_heap = Some (one_block p)"
proof -
  let ?s1 = "claimed (of_nat 7) two_pages"
  have s1: "pmm_inv ?s1" "avail ?s1 = {9}"
    using claimed_avail [OF two_pages_avail(1), of 7] unfolding two_pages_avail(2) by auto
  have a1: "pmm_alloc_page two_pages = (0x7000, ?s1)"
    using pmm_alloc_lowest [of two_pages] unfolding two_pages_avail(2) by (simp add: page_addr_def)
  obtain s2 where a2: "pmm_alloc_page ?s1 = (0x9000, s2)"
    using pmm_alloc_lowest [of ?s1] unfolding s1(2) by (simp add: page_addr_def)
  show ?thesis unfolding cold_heap_def heap_init_one_page [OF a1 a2] by blast
qed

lemma one_block_run:
  "\<exists>h1 h2. kmalloc 100 (one_block p) = Some (0x7010, h1) \<and> kmalloc 24 h1 = Some (0x7088, h2)"
  by (simp add: kmalloc_def choose_block_def split_block_def one_block_def align_up_def
      find_free.simps Let_def)

lemma cold_heap_trace:
  obtains h0 h2 where "heap_init cold_heap = Some h0"
    and "alloc_trace kmalloc kfree h0 h2 {(0x7088, 24), (0x7010, 100)}"
proof -
  obtain p where p: "heap_init cold_heap = Some (one_block p)" using cold_heap_init by blast
  obtain h1 h2 where m: "kmalloc 100 (one_block p) = Some (0x7010, h1)" "kmalloc 24 h1 = Some (0x7088, h2)"
    using one_block_run by blast
  have "alloc_trace kmalloc kfree (one_block p) h1 {(0x7010, 100)}"
    by (rule alloc_trace.got [where R = "{}" and malloc = kmalloc, OF alloc_trace.start _ _ m(1)]) simp_all
  then have "alloc_trace kmalloc kfree (one_block p) h2 {(0x7088, 24), (0x7010, 100)}"
    by (rule alloc_trace.got [where R = "{(0x7010, 100)}" and malloc = kmalloc, OF _ _ _ m(2)]) simp_all
  with p show ?thesis by (rule that)
qed

theorem kmalloc_correct_witness:
  "\<exists>p h' e' ys. kmalloc 100 (one_block (reserve_all boot_pmm)) = Some (p, h') \<and> heap_inv e' ys h' \<and>
     (p = 0 \<longrightarrow> live ys = {} \<and> 4080 < align_up (100 :: u32) 8)"
  using kmalloc_correct [OF one_block_inv, of 100] by (fastforce split: if_splits)

theorem kmalloc_size_wraps_witness:
  "\<exists>p h' e' ys s. kmalloc 0xFFFFFFFF (one_block (reserve_all boot_pmm)) = Some (p, h') \<and> p \<noteq> 0 \<and>
     heap_inv e' ys h' \<and> (p, s) \<in> live ys \<and> unat s < 32"
  using kmalloc_size_wraps [OF one_block_inv, of "0xFFFFFFFF"] by simp

theorem kfree_correct_witness:
  "\<exists>h' ys. kfree 0x7010 ((one_block (reserve_all boot_pmm))
        \<lparr>blocks := [0x7000 \<mapsto> \<lparr>hb_size = 4080, hb_free = False, hb_next = 0, hb_prev = 0\<rparr>],
         used_bytes := 4080, free_bytes := 0\<rparr>) = Some h' \<and>
     heap_inv 1 ys h' \<and> live ys = {} \<and> heap_get_used_bytes h' = 0 \<and> heap_get_free_bytes h' = 4080"
proof -
  let ?h = "(one_block (reserve_all boot_pmm))
        \<lparr>blocks := [0x7000 \<mapsto> \<lparr>hb_size = 4080, hb_free = False, hb_next = 0, hb_prev = 0\<rparr>],
         used_bytes := 4080, free_bytes := 0\<rparr>"
  have "heap_inv 1 [(0x7000, 4080, False)] ?h"
    using reserve_all_avail [of boot_pmm] by (simp add: heap_inv_def one_block_def blk_end_def)
  moreover have "(0x7010, 4080) \<in> live [(0x7000, 4080, False)]" by simp
  ultimately have "\<exists>h' ys. kfree 0x7010 ?h = Some h' \<and> heap_inv 1 ys h' \<and>
     live ys = live [(0x7000, 4080, False)] - {(0x7010, 4080)} \<and>
     heap_get_used_bytes h' = heap_get_used_bytes ?h - 4080 \<and>
     heap_get_free_bytes h' = heap_get_free_bytes ?h + 4080"
    by (rule kfree_correct)
  then show ?thesis by (simp add: heap_get_used_bytes_def heap_get_free_bytes_def)
qed

theorem heap_regions_disjoint_witness:
  "\<exists>h0 h2. heap_init cold_heap = Some h0 \<and>
     alloc_trace kmalloc kfree h0 h2 {(0x7088, 24), (0x7010, 100)} \<and>
     (0x7010 :: u32) \<noteq> 0 \<and>
     (unat (0x7010 :: u32) + unat (100 :: u32) \<le> unat (0x7088 :: u32) \<or>
      unat (0x7088 :: u32) + unat (24 :: u32) \<le> unat (0x7010 :: u32))"
proof -
  obtain h0 h2 where t: "heap_init cold_heap = Some h0"
    "alloc_trace kmalloc kfree h0 h2 {(0x7088, 24), (0x7010, 100)}"
    by (rule cold_heap_trace)
  have "(0x7010 :: u32) \<noteq> 0 \<and>
     (unat (0x7010 :: u32) + unat (100 :: u32) \<le> unat (0x7088 :: u32) \<or>
      unat (0x7088 :: u32) + unat (24 :: u32) \<le> unat (0x7010 :: u32))"
    by (rule heap_regions_disjoint [OF cold_heap_pm t]) simp_all
  with t show ?thesis by blast
qed

theorem heap_never_stuck_witness:
  "\<exists>h0 h2. heap_init cold_heap = Some h0 \<and>
     alloc_trace kmalloc kfree h0 h2 {(0x7088, 24), (0x7010, 100)} \<and>
     kmalloc 5000 h2 \<noteq> None \<and> kfree 0x7010 h2 \<noteq> None"
proof -
  obtain h0 h2 where t: "heap_init cold_heap = Some h0"
    "alloc_trace kmalloc kfree h0 h2 {(0x7088, 24), (0x7010, 100)}"
    by (rule cold_heap_trace)
  obtain h0' where h0': "heap_init cold_heap = Some h0'"
    and all: "\<forall>h1 R. alloc_trace kmalloc kfree h0' h1 R \<longrightarrow>
        (\<forall>n. n \<noteq> 0 \<longrightarrow> unat n + 7 < 2 ^ 32 \<longrightarrow> kmalloc n h1 \<noteq> None) \<and>
        (\<forall>(p, n) \<in> R. kfree p h1 \<noteq> None)"
    using heap_never_stuck [OF cold_heap_pm] by (elim exE conjE) (rule that)
  have [simp]: "h0' = h0" using h0' t(1) by simp
  note a = all [rule_format, OF t(2) [folded \<open>h0' = h0\<close>]]
  have "kmalloc 5000 h2 \<noteq> None" using a by simp
  moreover have "kfree 0x7010 h2 \<noteq> None" using a by simp
  ultimately show ?thesis using t by blast
qed

theorem heap_used_bytes_exact_witness:
  "\<exists>h0 h2 e xs. heap_init cold_heap = Some h0 \<and>
     alloc_trace kmalloc kfree h0 h2 {(0x7088, 24), (0x7010, 100)} \<and> heap_inv e xs h2 \<and>
     {0x7088, 0x7010} = fst ` live xs \<and>
     unat (heap_get_used_bytes h2) = (\<Sum>(p, s) \<in> live xs. unat s)"
proof -
  obtain h0 h2 where t: "heap_init cold_heap = Some h0"
    "alloc_trace kmalloc kfree h0 h2 {(0x7088, 24), (0x7010, 100)}"
    by (rule cold_heap_trace)
  from heap_used_bytes_exact [OF cold_heap_pm t] obtain e xs where
    "heap_inv e xs h2" "fst ` {(0x7088, 24 :: u32), (0x7010, 100)} = fst ` live xs"
    "unat (heap_get_used_bytes h2) = (\<Sum>(p, s) \<in> live xs. unat s)"
    by (elim exE conjE) (rule that)
  with t show ?thesis by (intro exI conjI) (assumption, assumption, assumption, simp, assumption)
qed

end
