(* ===== verification/PortIO.thy ===== *)
theory PortIO
  imports Prelude
begin

text \<open>
  Port I/O (\<^verbatim>\<open>kernel/io.c\<close>).  The hardware behind the four port instructions is a
  parameter: a record \<open>'d ports\<close> of functions on a device state \<open>'d\<close>, of which the
  definitions of the drivers assume nothing.  What a driver needs of its device to do its
  work is a hypothesis of the driver's theory.
\<close>

record 'd ports =
  p_inb :: "u16 \<Rightarrow> 'd \<Rightarrow> u8 \<times> 'd"
  p_outb :: "u16 \<Rightarrow> u8 \<Rightarrow> 'd \<Rightarrow> 'd"
  p_inw :: "u16 \<Rightarrow> 'd \<Rightarrow> u16 \<times> 'd"
  p_outw :: "u16 \<Rightarrow> u16 \<Rightarrow> 'd \<Rightarrow> 'd"

definition inb :: "'d ports \<Rightarrow> u16 \<Rightarrow> 'd \<Rightarrow> u8 \<times> 'd" where
  "inb io port d = (case p_inb io port d of (result, d) \<Rightarrow> (result, d))"

definition outb :: "'d ports \<Rightarrow> u16 \<Rightarrow> u8 \<Rightarrow> 'd \<Rightarrow> 'd" where
  "outb io port val d = p_outb io port val d"

definition inw :: "'d ports \<Rightarrow> u16 \<Rightarrow> 'd \<Rightarrow> u16 \<times> 'd" where
  "inw io port d = (case p_inw io port d of (result, d) \<Rightarrow> (result, d))"

definition outw :: "'d ports \<Rightarrow> u16 \<Rightarrow> u16 \<Rightarrow> 'd \<Rightarrow> 'd" where
  "outw io port val d = p_outw io port val d"

end
