(* ===== verification/Ata.thy ===== *)
theory Ata
  imports PortIO
begin

text \<open>
  The ATA PIO driver (\<^verbatim>\<open>kernel/drivers/ata.c\<close>).

  \<^item> \<open>ata_conforms\<close> is the hypothesis on a drive under which the driver is meant to work:
    the documented PIO protocol, as the behaviour of a view of the device state (its
    task file, phase and media).
  \<^item> The locale \<open>block_device\<close> is what the partition and file system code relies on; the
    driver on a conforming drive is an interpretation of it.
\<close>

section \<open>The driver\<close>

abbreviation ATA_DATA :: u16 where "ATA_DATA \<equiv> 0x1F0"
abbreviation ATA_SECTOR_CNT :: u16 where "ATA_SECTOR_CNT \<equiv> 0x1F2"
abbreviation ATA_LBA_LO :: u16 where "ATA_LBA_LO \<equiv> 0x1F3"
abbreviation ATA_LBA_MID :: u16 where "ATA_LBA_MID \<equiv> 0x1F4"
abbreviation ATA_LBA_HI :: u16 where "ATA_LBA_HI \<equiv> 0x1F5"
abbreviation ATA_DRIVE_HEAD :: u16 where "ATA_DRIVE_HEAD \<equiv> 0x1F6"
abbreviation ATA_STATUS :: u16 where "ATA_STATUS \<equiv> 0x1F7"
abbreviation ATA_COMMAND :: u16 where "ATA_COMMAND \<equiv> 0x1F7"

abbreviation ATA_CMD_READ :: u8 where "ATA_CMD_READ \<equiv> 0x20"
abbreviation ATA_CMD_WRITE :: u8 where "ATA_CMD_WRITE \<equiv> 0x30"
abbreviation ATA_CMD_IDENTIFY :: u8 where "ATA_CMD_IDENTIFY \<equiv> 0xEC"

abbreviation ATA_STATUS_ERR :: u8 where "ATA_STATUS_ERR \<equiv> 0x01"
abbreviation ATA_STATUS_DRQ :: u8 where "ATA_STATUS_DRQ \<equiv> 0x08"
abbreviation ATA_STATUS_BSY :: u8 where "ATA_STATUS_BSY \<equiv> 0x80"

text \<open>The two polling loops, with the number of iterations left.\<close>

fun wait_ready :: "'d ports \<Rightarrow> nat \<Rightarrow> 'd \<Rightarrow> bool \<times> 'd" where
  "wait_ready io 0 d = (False, d)"
| "wait_ready io (Suc n) d =
     (case inb io ATA_STATUS d of (status, d) \<Rightarrow>
        if status AND ATA_STATUS_BSY = 0 then (status AND ATA_STATUS_ERR = 0, d)
        else wait_ready io n d)"

definition ata_wait_ready :: "'d ports \<Rightarrow> 'd \<Rightarrow> bool \<times> 'd" where
  "ata_wait_ready io d = wait_ready io 100000 d"

fun wait_drq :: "'d ports \<Rightarrow> nat \<Rightarrow> 'd \<Rightarrow> bool \<times> 'd" where
  "wait_drq io 0 d = (False, d)"
| "wait_drq io (Suc n) d =
     (case inb io ATA_STATUS d of (status, d) \<Rightarrow>
        if status AND ATA_STATUS_ERR \<noteq> 0 then (False, d)
        else if status AND ATA_STATUS_DRQ \<noteq> 0 then (True, d)
        else wait_drq io n d)"

definition ata_wait_drq :: "'d ports \<Rightarrow> 'd \<Rightarrow> bool \<times> 'd" where
  "ata_wait_drq io d = wait_drq io 100000 d"

text \<open>The data loop of \<open>ata_identify\<close>: \<open>n\<close> words from the data port.\<close>

fun read_words :: "'d ports \<Rightarrow> nat \<Rightarrow> 'd \<Rightarrow> u16 list \<times> 'd" where
  "read_words io 0 d = ([], d)"
| "read_words io (Suc n) d =
     (case inw io ATA_DATA d of (w, d) \<Rightarrow>
        case read_words io n d of (ws, d) \<Rightarrow> (w # ws, d))"

text \<open>The new value of \<open>total_sectors_cache\<close> is part of the result.\<close>

definition ata_identify :: "'d ports \<Rightarrow> u32 \<Rightarrow> 'd \<Rightarrow> bool \<times> u32 \<times> 'd" where
  "ata_identify io total_sectors_cache d =
     (let d = outb io ATA_DRIVE_HEAD 0xA0 d;
          d = outb io ATA_SECTOR_CNT 0 d;
          d = outb io ATA_LBA_LO 0 d;
          d = outb io ATA_LBA_MID 0 d;
          d = outb io ATA_LBA_HI 0 d;
          d = outb io ATA_COMMAND ATA_CMD_IDENTIFY d
      in case inb io ATA_STATUS d of (status, d) \<Rightarrow>
         if status = 0 then (False, total_sectors_cache, d)
         else case ata_wait_drq io d of (ok, d) \<Rightarrow>
           if \<not> ok then (False, total_sectors_cache, d)
           else case read_words io 256 d of (words, d) \<Rightarrow>
             (True, ucast (words ! 60) OR push_bit 16 (ucast (words ! 61)), d))"

definition ata_get_total_sectors :: "u32 \<Rightarrow> u32" where
  "ata_get_total_sectors total_sectors_cache = total_sectors_cache"

text \<open>The task file set-up and the command, the same lines of the two sector operations.\<close>

definition ata_command :: "'d ports \<Rightarrow> u32 \<Rightarrow> u8 \<Rightarrow> 'd \<Rightarrow> 'd" where
  "ata_command io lba cmd d =
     (let d = outb io ATA_DRIVE_HEAD (ucast (0xE0 OR (drop_bit 24 lba AND 0x0F))) d;
          d = outb io ATA_SECTOR_CNT 1 d;
          d = outb io ATA_LBA_LO (byte_of 0 lba) d;
          d = outb io ATA_LBA_MID (byte_of 1 lba) d;
          d = outb io ATA_LBA_HI (byte_of 2 lba) d
      in outb io ATA_COMMAND cmd d)"

text \<open>\<open>buf16[i] = w\<close> and \<open>buf16[i]\<close> on the bytes behind the pointer.\<close>

definition put16 :: "nat \<Rightarrow> u16 \<Rightarrow> u8 list \<Rightarrow> u8 list" where
  "put16 i w buf = buf[2 * i := byte_of 0 w, 2 * i + 1 := byte_of 1 w]"

definition get16 :: "nat \<Rightarrow> u8 list \<Rightarrow> u16" where
  "get16 i buf = ucast (le16 (buf ! (2 * i)) (buf ! (2 * i + 1)))"

fun read_data :: "'d ports \<Rightarrow> nat \<Rightarrow> nat \<Rightarrow> u8 list \<Rightarrow> 'd \<Rightarrow> u8 list \<times> 'd" where
  "read_data io 0 i buf d = (buf, d)"
| "read_data io (Suc n) i buf d =
     (case inw io ATA_DATA d of (w, d) \<Rightarrow> read_data io n (i + 1) (put16 i w buf) d)"

fun write_data :: "'d ports \<Rightarrow> nat \<Rightarrow> nat \<Rightarrow> u8 list \<Rightarrow> 'd \<Rightarrow> 'd" where
  "write_data io 0 i buf d = d"
| "write_data io (Suc n) i buf d = write_data io n (i + 1) buf (outw io ATA_DATA (get16 i buf) d)"

definition ata_read_sector :: "'d ports \<Rightarrow> u32 \<Rightarrow> u8 list \<Rightarrow> 'd \<Rightarrow> bool \<times> u8 list \<times> 'd" where
  "ata_read_sector io lba buf d =
     (case ata_wait_ready io d of (ok, d) \<Rightarrow>
        if \<not> ok then (False, buf, d)
        else case ata_wait_drq io (ata_command io lba ATA_CMD_READ d) of (ok, d) \<Rightarrow>
          if \<not> ok then (False, buf, d)
          else case read_data io 256 0 buf d of (buf, d) \<Rightarrow> (True, buf, d))"

definition ata_write_sector :: "'d ports \<Rightarrow> u32 \<Rightarrow> u8 list \<Rightarrow> 'd \<Rightarrow> bool \<times> 'd" where
  "ata_write_sector io lba buf d =
     (case ata_wait_ready io d of (ok, d) \<Rightarrow>
        if \<not> ok then (False, d)
        else case ata_wait_drq io (ata_command io lba ATA_CMD_WRITE d) of (ok, d) \<Rightarrow>
          if \<not> ok then (False, d)
          else (True, write_data io 256 0 buf d))"

section \<open>The drive's side of the protocol\<close>

text \<open>
  What can be seen of a drive: \<open>Busy n q\<close> is busy for another \<open>n\<close> polls after the next and
  then in phase \<open>q\<close>; \<open>DataIn ws\<close> has the words \<open>ws\<close> left to be read; \<open>DataOut lba ws\<close> has
  received \<open>ws\<close> for sector \<open>lba\<close>; \<open>Failed\<close> has aborted a command.
\<close>

datatype phase = Idle | Failed | DataIn "u16 list" | DataOut u32 "u16 list" | Busy nat phase

record drive =
  task :: "u16 \<Rightarrow> u8"
  phase :: phase
  media :: "u32 \<Rightarrow> u16 list"
  capacity :: u32
  ident :: "u16 list"

fun status_bits :: "phase \<Rightarrow> u8" where
  "status_bits Idle = 0"
| "status_bits Failed = ATA_STATUS_ERR"
| "status_bits (DataIn ws) = ATA_STATUS_DRQ"
| "status_bits (DataOut lba ws) = ATA_STATUS_DRQ"
| "status_bits (Busy n q) = ATA_STATUS_BSY"

fun tick :: "phase \<Rightarrow> phase" where
  "tick (Busy 0 q) = q"
| "tick (Busy (Suc n) q) = Busy n q"
| "tick q = q"

text \<open>The sector the task file addresses: 28 bits, and master and LBA mode selected.\<close>

definition task_lba :: "(u16 \<Rightarrow> u8) \<Rightarrow> u32" where
  "task_lba t = le32 (t ATA_LBA_LO) (t ATA_LBA_MID) (t ATA_LBA_HI) (t ATA_DRIVE_HEAD AND 0x0F)"

definition task_ready :: "(u16 \<Rightarrow> u8) \<Rightarrow> bool" where
  "task_ready t \<longleftrightarrow> t ATA_SECTOR_CNT = 1 \<and> t ATA_DRIVE_HEAD AND 0xF0 = 0xE0"

definition accepts :: "phase \<Rightarrow> bool" where
  "accepts q \<longleftrightarrow> q = Idle \<or> q = Failed"

text \<open>
  A drive that follows the PIO protocol, seen through \<open>view\<close>.  The drive is slow but not
  wedged: no busy phase lasts for 99999 polls.  While busy it reports neither ERR nor DRQ
  (the driver's \<open>ata_wait_drq\<close> does not look at BSY).
\<close>

definition ata_conforms :: "'d ports \<Rightarrow> ('d \<Rightarrow> drive) \<Rightarrow> bool" where
  "ata_conforms io view \<longleftrightarrow>
    (\<forall>d st d'. p_inb io ATA_STATUS d = (st, d') \<longrightarrow>
       st AND 0x89 = status_bits (phase (view d)) \<and>
       view d' = (view d)\<lparr>phase := tick (phase (view d))\<rparr>) \<and>
    (\<forall>d r v. accepts (phase (view d)) \<and>
       r \<in> {ATA_SECTOR_CNT, ATA_LBA_LO, ATA_LBA_MID, ATA_LBA_HI, ATA_DRIVE_HEAD} \<longrightarrow>
       view (p_outb io r v d) = (view d)\<lparr>task := (task (view d))(r := v)\<rparr>) \<and>
    (\<forall>d. accepts (phase (view d)) \<and> task_ready (task (view d)) \<longrightarrow>
       (\<exists>n < 99999. view (p_outb io ATA_COMMAND ATA_CMD_READ d) = (view d)\<lparr>phase :=
          Busy n (if task_lba (task (view d)) < capacity (view d)
                  then DataIn (media (view d) (task_lba (task (view d)))) else Failed)\<rparr>)) \<and>
    (\<forall>d. accepts (phase (view d)) \<and> task_ready (task (view d)) \<longrightarrow>
       (\<exists>n < 99999. view (p_outb io ATA_COMMAND ATA_CMD_WRITE d) = (view d)\<lparr>phase :=
          Busy n (if task_lba (task (view d)) < capacity (view d)
                  then DataOut (task_lba (task (view d))) [] else Failed)\<rparr>)) \<and>
    (\<forall>d. accepts (phase (view d)) \<and> task (view d) ATA_DRIVE_HEAD AND 0xB0 = 0xA0 \<longrightarrow>
       (\<exists>n < 99999. view (p_outb io ATA_COMMAND ATA_CMD_IDENTIFY d) =
          (view d)\<lparr>phase := Busy n (DataIn (ident (view d)))\<rparr>)) \<and>
    (\<forall>d w ws. phase (view d) = DataIn (w # ws) \<longrightarrow>
       (\<exists>d'. p_inw io ATA_DATA d = (w, d') \<and>
          view d' = (view d)\<lparr>phase := if ws = [] then Idle else DataIn ws\<rparr>)) \<and>
    (\<forall>d lba ws w. phase (view d) = DataOut lba ws \<and> length ws < 255 \<longrightarrow>
       view (p_outw io ATA_DATA w d) = (view d)\<lparr>phase := DataOut lba (ws @ [w])\<rparr>) \<and>
    (\<forall>d lba ws w. phase (view d) = DataOut lba ws \<and> length ws = 255 \<longrightarrow>
       (\<exists>n < 99999. view (p_outw io ATA_DATA w d) =
          (view d)\<lparr>phase := Busy n Idle, media := (media (view d))(lba := ws @ [w])\<rparr>))"

text \<open>
  A drive ready for the driver: every sector and the identification are 256 words, the
  capacity fits LBA28, and it is idle or still busy finishing a write.
\<close>

fun settles :: "phase \<Rightarrow> bool" where
  "settles Idle \<longleftrightarrow> True"
| "settles (Busy n Idle) \<longleftrightarrow> n < 99999"
| "settles _ \<longleftrightarrow> False"

definition drive_ok :: "drive \<Rightarrow> bool" where
  "drive_ok v \<longleftrightarrow> (\<forall>lba. length (media v lba) = 256) \<and> length (ident v) = 256 \<and>
     unat (capacity v) \<le> 2 ^ 28 \<and> settles (phase v)"

text \<open>The bytes of a sector, two to a word.\<close>

definition bytes_of :: "u16 list \<Rightarrow> u8 list" where
  "bytes_of ws = concat (map (\<lambda>w. [byte_of 0 w, byte_of 1 w]) ws)"

section \<open>Polling a conforming drive\<close>

lemma status_tests:
  assumes "st AND 0x89 = (s :: u8)"
  shows "st AND 0x80 = s AND 0x80" and "st AND 0x08 = s AND 0x08" and "st AND 0x01 = s AND 0x01"
proof -
  have "st AND 0x80 = (st AND 0x89) AND 0x80" "st AND 0x08 = (st AND 0x89) AND 0x08"
    "st AND 0x01 = (st AND 0x89) AND 0x01" by (simp_all add: and.assoc)
  with assms show "st AND 0x80 = s AND 0x80" "st AND 0x08 = s AND 0x08" "st AND 0x01 = s AND 0x01"
    by simp_all
qed

lemma conforms_status:
  assumes "ata_conforms io view"
  obtains st d' where "inb io ATA_STATUS d = (st, d')"
    and "st AND 0x89 = status_bits (phase (view d))"
    and "view d' = (view d)\<lparr>phase := tick (phase (view d))\<rparr>"
proof -
  obtain st d' where "p_inb io ATA_STATUS d = (st, d')" by (cases "p_inb io ATA_STATUS d")
  with assms that show ?thesis unfolding ata_conforms_def inb_def by simp
qed

text \<open>The number of polls until a phase is left that the driver waits for.\<close>

fun polls :: "phase \<Rightarrow> nat" where
  "polls (Busy n q) = Suc n + polls q"
| "polls q = 0"

fun after :: "phase \<Rightarrow> phase" where
  "after (Busy n q) = after q"
| "after q = q"

lemma tick_polls: "polls q \<noteq> 0 \<Longrightarrow> Suc (polls (tick q)) = polls q"
  by (cases q rule: tick.cases) auto

lemma after_tick [simp]: "after (tick q) = after q"
  by (cases q rule: tick.cases) auto

lemma polls_busy: "polls q = 0 \<longleftrightarrow> (\<forall>n q'. q \<noteq> Busy n q')"
  by (cases q) auto

lemma after_idle: "polls q = 0 \<Longrightarrow> after q = q \<and> tick q = q"
  by (cases q) auto

lemma status_busy: "polls q \<noteq> 0 \<Longrightarrow> status_bits q = 0x80"
  by (cases q) auto

lemma wait_ready_polls:
  assumes "ata_conforms io view" and "polls (phase (view d)) < n"
  shows "\<exists>d'. wait_ready io n d = (status_bits (after (phase (view d))) AND ATA_STATUS_ERR = 0, d') \<and>
    view d' = (view d)\<lparr>phase := after (phase (view d))\<rparr>"
  using assms(2)
proof (induction n arbitrary: d)
  case (Suc n)
  obtain st d1 where st: "inb io ATA_STATUS d = (st, d1)" "st AND 0x89 = status_bits (phase (view d))"
    "view d1 = (view d)\<lparr>phase := tick (phase (view d))\<rparr>"
    by (rule conforms_status [OF assms(1)])
  note tests = status_tests [OF st(2)]
  show ?case
  proof (cases "polls (phase (view d)) = 0")
    case True
    then have "status_bits (phase (view d)) AND 0x80 = 0" by (cases "phase (view d)") auto
    then show ?thesis using st tests True after_idle [OF True] by simp
  next
    case False
    then have "polls (phase (view d1)) < n" using Suc.prems tick_polls [OF False] st(3) by simp
    then show ?thesis using Suc.IH [of d1] st tests status_busy [OF False] by simp
  qed
qed simp

lemma wait_drq_polls:
  assumes "ata_conforms io view" and "polls (phase (view d)) < n"
    and "after (phase (view d)) \<noteq> Idle"
  shows "\<exists>d'. wait_drq io n d = (after (phase (view d)) \<noteq> Failed, d') \<and>
    view d' = (view d)\<lparr>phase := after (phase (view d))\<rparr>"
  using assms(2,3)
proof (induction n arbitrary: d)
  case (Suc n)
  obtain st d1 where st: "inb io ATA_STATUS d = (st, d1)" "st AND 0x89 = status_bits (phase (view d))"
    "view d1 = (view d)\<lparr>phase := tick (phase (view d))\<rparr>"
    by (rule conforms_status [OF assms(1)])
  note tests = status_tests [OF st(2)]
  show ?case
  proof (cases "polls (phase (view d)) = 0")
    case True
    then show ?thesis using st tests Suc.prems(2) after_idle [OF True] by (cases "phase (view d)") auto
  next
    case False
    then have "polls (phase (view d1)) < n" "after (phase (view d1)) \<noteq> Idle"
      using Suc.prems tick_polls [OF False] st(3) by simp_all
    then show ?thesis using Suc.IH [of d1] st tests status_busy [OF False] by simp
  qed
qed simp

section \<open>Commands\<close>

lemma conforms_task:
  assumes "ata_conforms io view" and "accepts (phase (view d))"
    and "r \<in> {ATA_SECTOR_CNT, ATA_LBA_LO, ATA_LBA_MID, ATA_LBA_HI, ATA_DRIVE_HEAD}"
  shows "view (outb io r v d) = (view d)\<lparr>task := (task (view d))(r := v)\<rparr>"
  using assms unfolding ata_conforms_def outb_def by simp

definition lba_task :: "u32 \<Rightarrow> (u16 \<Rightarrow> u8) \<Rightarrow> u16 \<Rightarrow> u8" where
  "lba_task lba t = t(ATA_DRIVE_HEAD := ucast (0xE0 OR (drop_bit 24 lba AND 0x0F)), ATA_SECTOR_CNT := 1,
     ATA_LBA_LO := byte_of 0 lba, ATA_LBA_MID := byte_of 1 lba, ATA_LBA_HI := byte_of 2 lba)"

lemma ata_command_view:
  assumes "ata_conforms io view" and "accepts (phase (view d))"
  obtains d' where "ata_command io lba cmd d = outb io ATA_COMMAND cmd d'"
    and "view d' = (view d)\<lparr>task := lba_task lba (task (view d))\<rparr>"
proof
  let ?d1 = "outb io ATA_DRIVE_HEAD (ucast (0xE0 OR (drop_bit 24 lba AND 0x0F))) d"
  let ?d2 = "outb io ATA_SECTOR_CNT 1 ?d1"
  let ?d3 = "outb io ATA_LBA_LO (byte_of 0 lba) ?d2"
  let ?d4 = "outb io ATA_LBA_MID (byte_of 1 lba) ?d3"
  let ?d5 = "outb io ATA_LBA_HI (byte_of 2 lba) ?d4"
  show "ata_command io lba cmd d = outb io ATA_COMMAND cmd ?d5"
    by (simp add: ata_command_def)
  note t = conforms_task [OF assms(1)]
  show "view ?d5 = (view d)\<lparr>task := lba_task lba (task (view d))\<rparr>"
    using assms(2) by (simp add: t lba_task_def)
qed

lemma head_bits:
  "bit (0xE0 :: int) n \<longleftrightarrow> n = 5 \<or> n = 6 \<or> n = 7"
  "bit (0x0F :: int) n \<longleftrightarrow> n < 4"
  "bit (0xF0 :: int) n \<longleftrightarrow> n = 4 \<or> n = 5 \<or> n = 6 \<or> n = 7"
proof -
  have e: "(0xE0 :: int) = push_bit 5 (mask 3)" "(0x0F :: int) = mask 4" "(0xF0 :: int) = push_bit 4 (mask 4)"
    by (simp_all add: mask_eq_exp_minus_1 push_bit_eq_mult)
  show "bit (0xE0 :: int) n \<longleftrightarrow> n = 5 \<or> n = 6 \<or> n = 7"
    unfolding e(1) bit_push_bit_iff bit_mask_iff by auto
  show "bit (0x0F :: int) n \<longleftrightarrow> n < 4"
    unfolding e(2) bit_mask_iff by simp
  show "bit (0xF0 :: int) n \<longleftrightarrow> n = 4 \<or> n = 5 \<or> n = 6 \<or> n = 7"
    unfolding e(3) bit_push_bit_iff bit_mask_iff by auto
qed

lemma task_ready_lba: "task_ready (lba_task lba t)"
proof -
  have "(ucast ((0xE0 :: u32) OR (drop_bit 24 lba AND 0x0F)) :: u8) AND 0xF0 = 0xE0"
    by (rule bit_word_eqI) (auto simp: bit_simps head_bits)
  then show ?thesis by (simp add: task_ready_def lba_task_def)
qed

text \<open>The five register writes assemble the low 28 bits of the sector number.\<close>

lemma task_lba_lba: "task_lba (lba_task lba t) = take_bit 28 lba"
proof -
  have "task_lba (lba_task lba t) = le32 (byte_of 0 lba) (byte_of 1 lba) (byte_of 2 lba)
     (ucast ((0xE0 :: u32) OR (drop_bit 24 lba AND 0x0F)) AND 0x0F)"
    by (simp add: task_lba_def lba_task_def)
  also have "\<dots> = take_bit 28 lba"
    by (rule bit_word_eqI)
      (auto simp: bit_le32 bit_byte_of bit_simps head_bits le_diff_conv dest: bit_imp_le_length)
  finally show ?thesis .
qed

lemma take_bit_28:
  assumes "lba < cap" and "unat cap \<le> 2 ^ 28"
  shows "take_bit 28 lba = (lba :: u32)"
proof -
  have "unat lba < 2 ^ 28" using assms by (simp add: word_less_nat_alt)
  then have "unat (take_bit 28 lba) = unat lba"
    by (simp add: unsigned_take_bit_eq take_bit_nat_eq_self)
  then show ?thesis by (simp only: word_unat_eq_iff)
qed

section \<open>Data transfers\<close>

lemma ucast16_byte_of:
  "byte_of 0 (ucast (le16 a b) :: u16) = a" "byte_of (Suc 0) (ucast (le16 a b) :: u16) = b"
  by (rule bit_word_eqI; auto simp: bit_byte_of bit_le16 bit_simps dest: bit_imp_le_length)+

lemma le16_bytes [le_simps]: "ucast (le16 (byte_of 0 w) (byte_of (Suc 0) w)) = (w :: u16)"
  by (rule bit_word_eqI) (auto simp: bit_byte_of bit_le16 bit_simps dest: bit_imp_le_length)

lemma bytes_of_simps [simp]:
  "bytes_of [] = []" "bytes_of (w # ws) = byte_of 0 w # byte_of (Suc 0) w # bytes_of ws"
  by (simp_all add: bytes_of_def)

lemma length_bytes_of [simp]: "length (bytes_of ws) = 2 * length ws"
  by (induction ws) auto

lemma nth_bytes_of:
  "k < 2 * length ws \<Longrightarrow> bytes_of ws ! k = byte_of (k mod 2) (ws ! (k div 2))"
proof (induction ws arbitrary: k)
  case (Cons w ws)
  show ?case
  proof (cases "k < 2")
    case True
    then show ?thesis by (cases k) auto
  next
    case False
    define j where "j = k - 2"
    with False have "k = Suc (Suc j)" by simp
    with Cons show ?thesis by simp
  qed
qed simp

lemma length_put16 [simp]: "length (put16 i w buf) = length buf"
  by (simp add: put16_def)

lemma put16_take:
  assumes "2 * i + 2 \<le> length buf"
  shows "take (2 * Suc i) (put16 i w buf) = take (2 * i) buf @ [byte_of 0 w, byte_of (Suc 0) w]"
    and "2 * Suc i \<le> k \<Longrightarrow> drop k (put16 i w buf) = drop k buf"
  using assms by (auto simp: put16_def take_Suc_conv_app_nth take_update_swap list_update_append)

lemma conforms_inw:
  assumes "ata_conforms io view" and "phase (view d) = DataIn (w # ws)"
  obtains d' where "inw io ATA_DATA d = (w, d')"
    and "view d' = (view d)\<lparr>phase := if ws = [] then Idle else DataIn ws\<rparr>"
proof -
  from assms have "\<exists>d'. p_inw io ATA_DATA d = (w, d') \<and>
      view d' = (view d)\<lparr>phase := if ws = [] then Idle else DataIn ws\<rparr>"
    unfolding ata_conforms_def by blast
  with that show ?thesis unfolding inw_def by fastforce
qed

lemma conforms_outw:
  assumes "ata_conforms io view" and "phase (view d) = DataOut lba ws" and "length ws < 255"
  shows "view (outw io ATA_DATA w d) = (view d)\<lparr>phase := DataOut lba (ws @ [w])\<rparr>"
  using assms unfolding ata_conforms_def outw_def by (elim conjE) blast

lemma conforms_outw_last:
  assumes "ata_conforms io view" and "phase (view d) = DataOut lba ws \<and> length ws = 255"
  shows "\<exists>n < 99999. view (outw io ATA_DATA w d) =
    (view d)\<lparr>phase := Busy n Idle, media := (media (view d))(lba := ws @ [w])\<rparr>"
proof -
  have "\<forall>d lba ws w. phase (view d) = DataOut lba ws \<and> length ws = 255 \<longrightarrow>
       (\<exists>n < 99999. view (p_outw io ATA_DATA w d) =
          (view d)\<lparr>phase := Busy n Idle, media := (media (view d))(lba := ws @ [w])\<rparr>)"
    using assms(1) unfolding ata_conforms_def by (elim conjE) assumption
  from this [rule_format, OF assms(2), of w] show ?thesis unfolding outw_def .
qed

lemma conforms_command:
  assumes "ata_conforms io view" and "accepts (phase (view d))" and "task_ready (task (view d))"
    and "cmd = ATA_CMD_READ \<and> q = DataIn (media (view d) (task_lba (task (view d)))) \<or>
      cmd = ATA_CMD_WRITE \<and> q = DataOut (task_lba (task (view d))) []"
  shows "\<exists>n < 99999. view (outb io ATA_COMMAND cmd d) = (view d)\<lparr>phase :=
    Busy n (if task_lba (task (view d)) < capacity (view d) then q else Failed)\<rparr>"
  using assms(4)
proof (elim disjE conjE)
  assume "cmd = ATA_CMD_READ" "q = DataIn (media (view d) (task_lba (task (view d))))"
  with assms(1-3) show ?thesis unfolding ata_conforms_def outb_def by (elim conjE) blast
next
  assume "cmd = ATA_CMD_WRITE" "q = DataOut (task_lba (task (view d))) []"
  with assms(1-3) show ?thesis unfolding ata_conforms_def outb_def by (elim conjE) blast
qed

lemma read_data_words:
  assumes "ata_conforms io view"
    and "phase (view d) = (if ws = [] then Idle else DataIn ws)"
    and "2 * (i + length ws) \<le> length buf"
  shows "\<exists>d'. read_data io (length ws) i buf d =
      (take (2 * i) buf @ bytes_of ws @ drop (2 * (i + length ws)) buf, d') \<and>
    view d' = (view d)\<lparr>phase := Idle\<rparr>"
  using assms(2,3)
proof (induction ws arbitrary: i buf d)
  case (Cons w ws)
  then obtain d1 where d1: "inw io ATA_DATA d = (w, d1)"
    "view d1 = (view d)\<lparr>phase := if ws = [] then Idle else DataIn ws\<rparr>"
    using conforms_inw [OF assms(1)] by (metis list.distinct(1))
  have len: "2 * i + 2 \<le> length buf" using Cons.prems(2) by simp
  note take = put16_take(1) [OF len, of w] and drop = put16_take(2) [OF len, of "2 * (Suc i + length ws)" w]
  have "\<exists>d'. read_data io (length ws) (Suc i) (put16 i w buf) d1 =
      (take (2 * Suc i) (put16 i w buf) @ bytes_of ws @ drop (2 * (Suc i + length ws)) (put16 i w buf), d') \<and>
    view d' = (view d1)\<lparr>phase := Idle\<rparr>"
    by (rule Cons.IH) (use Cons.prems(2) d1(2) in auto)
  then show ?case using d1 take drop by simp
qed simp

lemma read_words_data:
  assumes "ata_conforms io view" and "phase (view d) = (if ws = [] then Idle else DataIn ws)"
  shows "\<exists>d'. read_words io (length ws) d = (ws, d') \<and> view d' = (view d)\<lparr>phase := Idle\<rparr>"
  using assms(2)
proof (induction ws arbitrary: d)
  case (Cons w ws)
  then obtain d1 where d1: "inw io ATA_DATA d = (w, d1)"
    "view d1 = (view d)\<lparr>phase := if ws = [] then Idle else DataIn ws\<rparr>"
    using conforms_inw [OF assms(1)] by (metis list.distinct(1))
  with Cons.IH [of d1] show ?case by auto
qed simp

definition sector_words :: "nat \<Rightarrow> nat \<Rightarrow> u8 list \<Rightarrow> u16 list" where
  "sector_words i n buf = map (\<lambda>j. get16 j buf) [i ..< i + n]"

lemma sector_words_Suc: "sector_words i (Suc n) buf = get16 i buf # sector_words (Suc i) n buf"
  by (simp add: sector_words_def upt_conv_Cons del: upt_Suc)

lemma bytes_of_sector_words:
  assumes "length buf = 2 * n"
  shows "bytes_of (sector_words 0 n buf) = buf"
proof (rule nth_equalityI)
  fix k assume "k < length (bytes_of (sector_words 0 n buf))"
  then have k: "k < 2 * n" by (simp add: sector_words_def)
  then have "bytes_of (sector_words 0 n buf) ! k = byte_of (k mod 2) (get16 (k div 2) buf)"
    by (subst nth_bytes_of) (auto simp: sector_words_def)
  also have "\<dots> = buf ! k"
  proof (cases "even k")
    case True
    then show ?thesis by (simp add: get16_def ucast16_byte_of even_iff_mod_2_eq_zero)
  next
    case False
    then have "k mod 2 = Suc 0" "2 * (k div 2) + 1 = k" by (simp_all add: odd_iff_mod_2_eq_one)
    then show ?thesis by (simp add: get16_def ucast16_byte_of)
  qed
  finally show "bytes_of (sector_words 0 n buf) ! k = buf ! k" .
qed (simp add: assms sector_words_def)

lemma write_data_words:
  assumes "ata_conforms io view"
    and "phase (view d) = DataOut lba ws" and "length ws + Suc n = 256"
  shows "\<exists>k < 99999. view (write_data io (Suc n) i buf d) =
    (view d)\<lparr>phase := Busy k Idle, media := (media (view d))(lba := ws @ sector_words i (Suc n) buf)\<rparr>"
  using assms(2,3)
proof (induction n arbitrary: d i ws)
  case 0
  have "sector_words i (Suc 0) buf = [get16 i buf]" by (simp add: sector_words_def)
  moreover have "phase (view d) = DataOut lba ws \<and> length ws = 255" using 0 by simp
  ultimately show ?case
    using conforms_outw_last [OF assms(1), of d lba ws "get16 i buf"] by (simp only: write_data.simps)
next
  case (Suc n)
  let ?d = "outw io ATA_DATA (get16 i buf) d"
  have d: "view ?d = (view d)\<lparr>phase := DataOut lba (ws @ [get16 i buf])\<rparr>"
    using conforms_outw [OF assms(1), of d lba ws] Suc.prems by simp
  have "\<exists>k < 99999. view (write_data io (Suc n) (Suc i) buf ?d) = (view ?d)\<lparr>phase := Busy k Idle,
      media := (media (view ?d))(lba := (ws @ [get16 i buf]) @ sector_words (Suc i) (Suc n) buf)\<rparr>"
    by (rule Suc.IH) (use d Suc.prems in simp_all)
  then show ?case using d by (simp add: sector_words_Suc [of i "Suc n"] fun_upd_def)
qed

section \<open>Sector operations on a conforming drive\<close>

lemma settles_polls: "settles q \<Longrightarrow> polls q < 100000 \<and> after q = Idle"
  by (cases q rule: settles.cases) auto

lemma ready_idle:
  assumes "ata_conforms io view" and "settles (phase (view d))"
  obtains d' where "ata_wait_ready io d = (True, d')" and "view d' = (view d)\<lparr>phase := Idle\<rparr>"
proof -
  from settles_polls [OF assms(2)] wait_ready_polls [OF assms(1), of d 100000]
  show ?thesis using that unfolding ata_wait_ready_def by auto
qed

lemma drq_after:
  assumes "ata_conforms io view" and "phase (view d) = Busy n q" and "n < 99999"
    and "polls q = 0" and "q \<noteq> Idle"
  obtains d' where "ata_wait_drq io d = (q \<noteq> Failed, d')" and "view d' = (view d)\<lparr>phase := q\<rparr>"
proof -
  have "after (phase (view d)) = q" "polls (phase (view d)) < 100000"
    using assms(2-4) after_idle [of q] by auto
  with wait_drq_polls [OF assms(1), of d 100000] assms(5) that
  show ?thesis unfolding ata_wait_drq_def by auto
qed

text \<open>Issuing a command from an idle drive and waiting for its data phase.\<close>

lemma command_phase:
  assumes conf: "ata_conforms io view" and ok: "drive_ok (view d)"
    and cmd: "cmd = ATA_CMD_READ \<and> q = DataIn (media (view d) (take_bit 28 lba)) \<or>
      cmd = ATA_CMD_WRITE \<and> q = DataOut (take_bit 28 lba) []"
  obtains d1 d2 where "ata_wait_ready io d = (True, d1)"
    and "ata_wait_drq io (ata_command io lba cmd d1) = (take_bit 28 lba < capacity (view d), d2)"
    and "view d2 = (view d)\<lparr>task := lba_task lba (task (view d)),
           phase := if take_bit 28 lba < capacity (view d) then q else Failed\<rparr>"
proof -
  have "settles (phase (view d))" using ok by (simp add: drive_ok_def)
  then obtain d1 where d1: "ata_wait_ready io d = (True, d1)" "view d1 = (view d)\<lparr>phase := Idle\<rparr>"
    by (rule ready_idle [OF conf])
  then have "accepts (phase (view d1))" by (simp add: accepts_def)
  then obtain d' where d': "ata_command io lba cmd d1 = outb io ATA_COMMAND cmd d'"
    "view d' = (view d1)\<lparr>task := lba_task lba (task (view d1))\<rparr>"
    by (rule ata_command_view [OF conf])
  let ?q = "if take_bit 28 lba < capacity (view d) then q else Failed"
  have acc: "accepts (phase (view d'))" "task_ready (task (view d'))"
    and lba: "task_lba (task (view d')) = take_bit 28 lba" "capacity (view d') = capacity (view d)"
      "media (view d') = media (view d)"
    using d1 d' by (simp_all add: accepts_def task_ready_lba task_lba_lba)
  have "\<exists>n < 99999. view (outb io ATA_COMMAND cmd d') = (view d')\<lparr>phase := Busy n ?q\<rparr>"
    using conforms_command [OF conf acc, of cmd q] cmd unfolding lba by blast
  then obtain n where n: "n < 99999" "view (outb io ATA_COMMAND cmd d') = (view d')\<lparr>phase := Busy n ?q\<rparr>"
    by blast
  have "polls ?q = 0" "?q \<noteq> Idle" "(?q \<noteq> Failed) = (take_bit 28 lba < capacity (view d))"
    using cmd by auto
  then obtain d2 where "ata_wait_drq io (outb io ATA_COMMAND cmd d') = (take_bit 28 lba < capacity (view d), d2)"
    "view d2 = (view (outb io ATA_COMMAND cmd d'))\<lparr>phase := ?q\<rparr>"
    using drq_after [OF conf, of "outb io ATA_COMMAND cmd d'" n ?q] n by auto
  then show ?thesis using that d1 d' n(2) by simp
qed

lemma ata_read_ok:
  assumes conf: "ata_conforms io view" and ok: "drive_ok (view d)" and lba: "lba < capacity (view d)"
    and len: "length buf = 512"
  shows "\<exists>d'. ata_read_sector io lba buf d = (True, bytes_of (media (view d) lba), d') \<and>
    view d' = (view d)\<lparr>task := lba_task lba (task (view d)), phase := Idle\<rparr>"
proof -
  have t: "take_bit 28 lba = lba" using take_bit_28 [OF lba] ok by (simp add: drive_ok_def)
  obtain d1 d2 where d: "ata_wait_ready io d = (True, d1)"
    "ata_wait_drq io (ata_command io lba ATA_CMD_READ d1) = (True, d2)"
    "view d2 = (view d)\<lparr>task := lba_task lba (task (view d)), phase := DataIn (media (view d) lba)\<rparr>"
    by (rule command_phase [OF conf ok, of ATA_CMD_READ "DataIn (media (view d) lba)" lba])
      (use t lba in simp_all)
  have m: "length (media (view d) lba) = 256" using ok by (simp add: drive_ok_def)
  then have "phase (view d2) = (if media (view d) lba = [] then Idle else DataIn (media (view d) lba))"
    using d(3) by auto
  then have "\<exists>d'. read_data io 256 0 buf d2 = (bytes_of (media (view d) lba), d') \<and>
      view d' = (view d2)\<lparr>phase := Idle\<rparr>"
    using read_data_words [OF conf, of d2 "media (view d) lba" 0 buf] m len by simp
  then show ?thesis using d by (auto simp: ata_read_sector_def)
qed

lemma ata_write_ok:
  assumes conf: "ata_conforms io view" and ok: "drive_ok (view d)" and lba: "lba < capacity (view d)"
    and len: "length buf = 512"
  shows "\<exists>d' k. ata_write_sector io lba buf d = (True, d') \<and> k < 99999 \<and>
    view d' = (view d)\<lparr>task := lba_task lba (task (view d)), phase := Busy k Idle,
      media := (media (view d))(lba := sector_words 0 256 buf)\<rparr>"
proof -
  have t: "take_bit 28 lba = lba" using take_bit_28 [OF lba] ok by (simp add: drive_ok_def)
  obtain d1 d2 where d: "ata_wait_ready io d = (True, d1)"
    "ata_wait_drq io (ata_command io lba ATA_CMD_WRITE d1) = (True, d2)"
    "view d2 = (view d)\<lparr>task := lba_task lba (task (view d)), phase := DataOut lba []\<rparr>"
    by (rule command_phase [OF conf ok, of ATA_CMD_WRITE "DataOut lba []" lba])
      (use t lba in simp_all)
  have n: "256 = Suc 255" by simp
  have "\<exists>k < 99999. view (write_data io 256 0 buf d2) =
    (view d2)\<lparr>phase := Busy k Idle, media := (media (view d2))(lba := sector_words 0 256 buf)\<rparr>"
    using write_data_words [OF conf, of d2 lba "[]" 255 0 buf] d(3) unfolding n by simp
  then show ?thesis using d by (auto simp: ata_write_sector_def)
qed

section \<open>Errors and identification\<close>

text \<open>
  A client's sector commands, and what a sequence of them reports.
\<close>

datatype sector_command = Read_sector u32 "u8 list" | Write_sector u32 "u8 list"

primrec lba_of :: "sector_command \<Rightarrow> u32" where
  "lba_of (Read_sector lba buf) = lba"
| "lba_of (Write_sector lba buf) = lba"

fun issue :: "'d ports \<Rightarrow> sector_command \<Rightarrow> 'd \<Rightarrow> bool \<times> 'd" where
  "issue io (Read_sector lba buf) d = (case ata_read_sector io lba buf d of (ok, _, d) \<Rightarrow> (ok, d))"
| "issue io (Write_sector lba buf) d = ata_write_sector io lba buf d"

primrec issue_all :: "'d ports \<Rightarrow> sector_command list \<Rightarrow> 'd \<Rightarrow> bool list \<times> 'd" where
  "issue_all io [] d = ([], d)"
| "issue_all io (c # cs) d =
     (case issue io c d of (ok, d) \<Rightarrow> case issue_all io cs d of (oks, d) \<Rightarrow> (ok # oks, d))"

lemma issue_beyond:
  assumes conf: "ata_conforms io view" and ok: "drive_ok (view d)"
    and lba: "\<not> take_bit 28 (lba_of c) < capacity (view d)"
  shows "\<exists>d' t. issue io c d = (False, d') \<and> view d' = (view d)\<lparr>task := t, phase := Failed\<rparr>"
proof (cases c)
  case (Read_sector n buf)
  obtain d1 d2 where "ata_wait_ready io d = (True, d1)"
    "ata_wait_drq io (ata_command io n ATA_CMD_READ d1) = (False, d2)"
    "view d2 = (view d)\<lparr>task := lba_task n (task (view d)), phase := Failed\<rparr>"
    by (rule command_phase [OF conf ok, of ATA_CMD_READ "DataIn (media (view d) (take_bit 28 n))" n])
      (use lba Read_sector in simp_all)
  then show ?thesis by (auto simp: Read_sector ata_read_sector_def)
next
  case (Write_sector n buf)
  obtain d1 d2 where "ata_wait_ready io d = (True, d1)"
    "ata_wait_drq io (ata_command io n ATA_CMD_WRITE d1) = (False, d2)"
    "view d2 = (view d)\<lparr>task := lba_task n (task (view d)), phase := Failed\<rparr>"
    by (rule command_phase [OF conf ok, of ATA_CMD_WRITE "DataOut (take_bit 28 n) []" n])
      (use lba Write_sector in simp_all)
  then show ?thesis by (auto simp: Write_sector ata_write_sector_def)
qed

lemma ata_failed_refuses:
  assumes "ata_conforms io view" and "phase (view d) = Failed"
  obtains d' where "ata_wait_ready io d = (False, d')" and "view d' = view d"
proof -
  have "\<exists>d'. wait_ready io 100000 d = (False, d') \<and> view d' = (view d)\<lparr>phase := phase (view d)\<rparr>"
    using wait_ready_polls [OF assms(1), of d 100000] assms(2) by simp
  then show ?thesis using that unfolding ata_wait_ready_def by auto
qed

lemma issue_all_failed:
  "ata_conforms io view \<Longrightarrow> phase (view d) = Failed \<Longrightarrow>
     \<exists>d'. issue_all io cs d = (replicate (length cs) False, d') \<and> view d' = view d"
proof (induction cs arbitrary: d)
  case (Cons c cs)
  obtain d1 where d1: "ata_wait_ready io d = (False, d1)" "view d1 = view d"
    by (rule ata_failed_refuses [OF Cons.prems])
  then have "issue io c d = (False, d1)"
    by (cases c) (simp_all add: ata_read_sector_def ata_write_sector_def)
  with Cons.IH [OF Cons.prems(1), of d1] d1(2) Cons.prems(2) show ?case by auto
qed simp

lemma conforms_identify:
  assumes "ata_conforms io view" and "accepts (phase (view d)) \<and> task (view d) ATA_DRIVE_HEAD AND 0xB0 = 0xA0"
  shows "\<exists>n < 99999. view (outb io ATA_COMMAND ATA_CMD_IDENTIFY d) =
    (view d)\<lparr>phase := Busy n (DataIn (ident (view d)))\<rparr>"
proof -
  have "\<forall>d. accepts (phase (view d)) \<and> task (view d) ATA_DRIVE_HEAD AND 0xB0 = 0xA0 \<longrightarrow>
       (\<exists>n < 99999. view (p_outb io ATA_COMMAND ATA_CMD_IDENTIFY d) =
          (view d)\<lparr>phase := Busy n (DataIn (ident (view d)))\<rparr>)"
    using assms(1) unfolding ata_conforms_def by (elim conjE) assumption
  from this [rule_format, OF assms(2)] show ?thesis unfolding outb_def .
qed

lemma identify_registers:
  assumes "ata_conforms io view" and "accepts (phase (view d))"
  obtains d' t where "d' = outb io ATA_LBA_HI 0 (outb io ATA_LBA_MID 0 (outb io ATA_LBA_LO 0
      (outb io ATA_SECTOR_CNT 0 (outb io ATA_DRIVE_HEAD 0xA0 d))))"
    and "view d' = (view d)\<lparr>task := t\<rparr>" and "t ATA_DRIVE_HEAD AND 0xB0 = 0xA0"
proof (rule that [OF refl])
  let ?t = "(task (view d))(ATA_DRIVE_HEAD := 0xA0, ATA_SECTOR_CNT := 0, ATA_LBA_LO := 0,
    ATA_LBA_MID := 0, ATA_LBA_HI := 0)"
  show "view (outb io ATA_LBA_HI 0 (outb io ATA_LBA_MID 0 (outb io ATA_LBA_LO 0
      (outb io ATA_SECTOR_CNT 0 (outb io ATA_DRIVE_HEAD 0xA0 d))))) = (view d)\<lparr>task := ?t\<rparr>"
    using assms(2) by (simp add: conforms_task [OF assms(1)])
  show "?t ATA_DRIVE_HEAD AND 0xB0 = 0xA0" by simp
qed

lemma ata_identify_ok:
  assumes conf: "ata_conforms io view" and acc: "accepts (phase (view d))" and len: "length (ident (view d)) = 256"
  shows "\<exists>d' t. ata_identify io cache d =
      (True, ucast (ident (view d) ! 60) OR push_bit 16 (ucast (ident (view d) ! 61)), d') \<and>
    view d' = (view d)\<lparr>task := t, phase := Idle\<rparr>"
proof -
  obtain d1 t where d1: "d1 = outb io ATA_LBA_HI 0 (outb io ATA_LBA_MID 0 (outb io ATA_LBA_LO 0
      (outb io ATA_SECTOR_CNT 0 (outb io ATA_DRIVE_HEAD 0xA0 d))))"
    "view d1 = (view d)\<lparr>task := t\<rparr>" "t ATA_DRIVE_HEAD AND 0xB0 = 0xA0"
    by (rule identify_registers [OF conf acc])
  let ?d2 = "outb io ATA_COMMAND ATA_CMD_IDENTIFY d1"
  let ?q = "DataIn (ident (view d))"
  obtain n where n: "n < 99999" "view ?d2 = (view d1)\<lparr>phase := Busy n ?q\<rparr>"
    using conforms_identify [OF conf, of d1] acc d1 by auto
  obtain st d3 where st: "inb io ATA_STATUS ?d2 = (st, d3)" "st AND 0x89 = status_bits (phase (view ?d2))"
    "view d3 = (view ?d2)\<lparr>phase := tick (phase (view ?d2))\<rparr>"
    by (rule conforms_status [OF conf])
  have "st \<noteq> 0" using st(2) n(2) by auto
  have "polls (tick (Busy n ?q)) < 100000" "after (tick (Busy n ?q)) = ?q"
    using n(1) tick_polls [of "Busy n ?q"] by simp_all
  then obtain d4 where d4: "ata_wait_drq io d3 = (True, d4)" "view d4 = (view d3)\<lparr>phase := ?q\<rparr>"
    using wait_drq_polls [OF conf, of d3 100000] st(3) n(2) unfolding ata_wait_drq_def by auto
  have "ident (view d) \<noteq> []" using len by auto
  then obtain d5 where d5: "read_words io 256 d4 = (ident (view d), d5)" "view d5 = (view d4)\<lparr>phase := Idle\<rparr>"
    using read_words_data [OF conf, of d4 "ident (view d)"] d4(2) len by auto
  have "ata_identify io cache d =
      (True, ucast (ident (view d) ! 60) OR push_bit 16 (ucast (ident (view d) ! 61)), d5)"
    using st(1) \<open>st \<noteq> 0\<close> d4(1) d5(1) d1(1) by (simp add: ata_identify_def)
  moreover have "view d5 = (view d)\<lparr>task := t, phase := Idle\<rparr>"
    using d5(2) d4(2) st(3) n(2) d1(2) by simp
  ultimately show ?thesis by blast
qed

lemma ata_identify_sectors:
  assumes "ata_conforms io view" and "drive_ok ((view d)\<lparr>phase := Idle\<rparr>)"
    and "phase (view d) = Idle \<or> phase (view d) = Failed"
  shows "\<exists>d' total. ata_identify io cache d = (True, total, d') \<and>
    unat (ata_get_total_sectors total) = unat (ident (view d) ! 60) + 65536 * unat (ident (view d) ! 61) \<and>
    drive_ok (view d') \<and> media (view d') = media (view d) \<and> capacity (view d') = capacity (view d)"
proof -
  have "accepts (phase (view d))" "length (ident (view d)) = 256"
    using assms(2,3) by (simp_all add: accepts_def drive_ok_def)
  from ata_identify_ok [OF assms(1) this] obtain d' t where d': "ata_identify io cache d =
      (True, ucast (ident (view d) ! 60) OR push_bit 16 (ucast (ident (view d) ! 61)), d')"
    "view d' = (view d)\<lparr>task := t, phase := Idle\<rparr>" by blast
  have or_plus: "(ucast a :: u32) OR push_bit 16 (ucast b) = ucast a + push_bit 16 (ucast b)" for a b :: u16
    by (rule sym, rule disjunctive_add) (auto simp: bit_simps dest: bit_imp_le_length)
  have "unat (ucast a + push_bit 16 (ucast b) :: u32) = unat a + 65536 * unat b" for a b :: u16
    using unsigned_less [of a, where ?'a = nat] unsigned_less [of b, where ?'a = nat]
    by (simp add: push_bit_eq_mult unat_word_ariths unat_simps)
  with d' or_plus assms(2) show ?thesis
    by (intro exI conjI) (assumption, simp_all add: ata_get_total_sectors_def drive_ok_def)
qed

section \<open>The interface of a block device\<close>

text \<open>
  What the partition table and the file system are handed: the two sector operations,
  and the contents a fresh local \<^verbatim>\<open>unsigned char sector[512]\<close> happens to have (which C
  leaves open, and which matters where a caller ignores a failed read).
\<close>

record 'd sector_io =
  rd_sector :: "u32 \<Rightarrow> u8 list \<Rightarrow> 'd \<Rightarrow> bool \<times> u8 list \<times> 'd"
  wr_sector :: "u32 \<Rightarrow> u8 list \<Rightarrow> 'd \<Rightarrow> bool \<times> 'd"
  stack_buf :: "'d \<Rightarrow> u8 list"

definition ata_io :: "'d ports \<Rightarrow> ('d \<Rightarrow> u8 list) \<Rightarrow> 'd sector_io" where
  "ata_io io stk = \<lparr>rd_sector = ata_read_sector io, wr_sector = ata_write_sector io, stack_buf = stk\<rparr>"

text \<open>\<open>sec d\<close> is the contents of the disk, \<open>cap d\<close> its size in sectors.\<close>

locale block_device =
  fixes E :: "'d sector_io"
    and ok :: "'d \<Rightarrow> bool"
    and cap :: "'d \<Rightarrow> u32"
    and sec :: "'d \<Rightarrow> u32 \<Rightarrow> u8 list"
  assumes read_ok: "ok d \<Longrightarrow> lba < cap d \<Longrightarrow> length buf = 512 \<Longrightarrow>
      \<exists>d'. rd_sector E lba buf d = (True, sec d lba, d') \<and> ok d' \<and> sec d' = sec d \<and> cap d' = cap d"
    and write_ok: "ok d \<Longrightarrow> lba < cap d \<Longrightarrow> length buf = 512 \<Longrightarrow>
      \<exists>d'. wr_sector E lba buf d = (True, d') \<and> ok d' \<and> sec d' = (sec d)(lba := buf) \<and> cap d' = cap d"
    and sec_length: "ok d \<Longrightarrow> length (sec d lba) = 512"
    and stack_length: "ok d \<Longrightarrow> length (stack_buf E d) = 512"
    and cap_bound: "ok d \<Longrightarrow> unat (cap d) \<le> 2 ^ 28"

context block_device
begin

lemma write_read:
  assumes "ok d" and "lba < cap d" and "length buf = 512" and "lba' < cap d" and "length buf' = 512"
  shows "\<exists>d1 d2. wr_sector E lba buf d = (True, d1) \<and>
    rd_sector E lba' buf' d1 = (True, if lba' = lba then buf else sec d lba', d2) \<and> ok d2 \<and>
    sec d2 = (sec d)(lba := buf) \<and> cap d2 = cap d"
proof -
  obtain d1 where d1: "wr_sector E lba buf d = (True, d1)" "ok d1" "sec d1 = (sec d)(lba := buf)" "cap d1 = cap d"
    using write_ok [OF assms(1-3)] by blast
  moreover obtain d2 where "rd_sector E lba' buf' d1 = (True, sec d1 lba', d2)" "ok d2" "sec d2 = sec d1" "cap d2 = cap d1"
    using read_ok [OF d1(2), of lba' buf'] d1(4) assms(4,5) by auto
  ultimately show ?thesis by auto
qed

end

definition ata_ready :: "'d ports \<Rightarrow> ('d \<Rightarrow> drive) \<Rightarrow> ('d \<Rightarrow> u8 list) \<Rightarrow> 'd \<Rightarrow> bool" where
  "ata_ready io view stk d \<longleftrightarrow> ata_conforms io view \<and> drive_ok (view d) \<and> (\<forall>d. length (stk d) = 512)"

definition ata_sectors :: "('d \<Rightarrow> drive) \<Rightarrow> 'd \<Rightarrow> u32 \<Rightarrow> u8 list" where
  "ata_sectors view d lba = bytes_of (media (view d) lba)"

interpretation ata: block_device "ata_io io stk" "ata_ready io view stk" "\<lambda>d. capacity (view d)" "ata_sectors view"
  for io stk view
proof
  fix d lba and buf :: "u8 list" assume r: "ata_ready io view stk d" and lba: "lba < capacity (view d)" and len: "length buf = 512"
  then have conf: "ata_conforms io view" and ok: "drive_ok (view d)" by (simp_all add: ata_ready_def)
  from ata_read_ok [OF conf ok lba len] r
  show "\<exists>d'. rd_sector (ata_io io stk) lba buf d = (True, ata_sectors view d lba, d') \<and>
      ata_ready io view stk d' \<and> ata_sectors view d' = ata_sectors view d \<and> capacity (view d') = capacity (view d)"
    by (auto simp: ata_io_def ata_ready_def ata_sectors_def drive_ok_def fun_eq_iff)
  have "bytes_of (sector_words 0 256 buf) = buf" "length (sector_words 0 256 buf) = 256"
    using bytes_of_sector_words [of buf 256] len by (simp_all add: sector_words_def)
  with ata_write_ok [OF conf ok lba len] r
  show "\<exists>d'. wr_sector (ata_io io stk) lba buf d = (True, d') \<and> ata_ready io view stk d' \<and>
      ata_sectors view d' = (ata_sectors view d)(lba := buf) \<and> capacity (view d') = capacity (view d)"
    by (auto simp: ata_io_def ata_ready_def ata_sectors_def drive_ok_def fun_eq_iff)
next
  fix d lba assume r: "ata_ready io view stk d"
  then show "length (ata_sectors view d lba) = 512" "length (stack_buf (ata_io io stk) d) = 512"
    "unat (capacity (view d)) \<le> 2 ^ 28"
    by (simp_all add: ata_ready_def drive_ok_def ata_sectors_def ata_io_def)
qed

section \<open>Properties\<close>

text \<open>
  C17. On a drive that follows the PIO protocol and is idle or finishing a write, writing
  a sector succeeds, and reading any sector of the drive afterwards succeeds and delivers
  the 512 bytes written, or for every other sector the ones it had.
\<close>

theorem ata_write_read:
  assumes "ata_conforms io view" and "drive_ok (view d)"
    and "lba < capacity (view d)" and "length buf = 512"
    and "lba' < capacity (view d)" and "length buf' = 512"
  shows "\<exists>d1 d2. ata_write_sector io lba buf d = (True, d1) \<and>
    ata_read_sector io lba' buf' d1 =
      (True, if lba' = lba then buf else bytes_of (media (view d) lba'), d2) \<and> drive_ok (view d2)"
proof -
  have "ata_ready io view (\<lambda>_. buf) d" using assms by (simp add: ata_ready_def)
  from ata.write_read [OF this assms(3-6)]
  show ?thesis by (auto simp: ata_io_def ata_sectors_def ata_ready_def)
qed

text \<open>
  C22. One read or write beyond the end of the drive disables the driver: the command fails,
  and so does every command of any later sequence of reads and writes, of any sector, because
  the driver waits for a status without ERR before it issues the command that would clear it.
  Only \<open>ata_identify\<close>, which does not wait, gets the drive going again.
\<close>

theorem ata_error_sticks:
  assumes "ata_conforms io view" and "drive_ok (view d)"
    and "\<not> take_bit 28 (lba_of c) < capacity (view d)"
  shows "\<exists>d'. issue_all io (c # cs) d = (replicate (Suc (length cs)) False, d') \<and>
    media (view d') = media (view d) \<and>
    (\<exists>total d''. ata_identify io cache d' = (True, total, d'') \<and> drive_ok (view d''))"
proof -
  obtain d1 t where d1: "issue io c d = (False, d1)" "view d1 = (view d)\<lparr>task := t, phase := Failed\<rparr>"
    using issue_beyond [OF assms] by blast
  obtain d' where d': "issue_all io cs d1 = (replicate (length cs) False, d')" "view d' = view d1"
    using issue_all_failed [OF assms(1), of d1 cs] d1(2) by auto
  have "drive_ok ((view d')\<lparr>phase := Idle\<rparr>)" "phase (view d') = Failed"
    using assms(2) d1(2) d'(2) by (simp_all add: drive_ok_def)
  from ata_identify_sectors [OF assms(1) this(1), of cache] this(2)
  have "\<exists>total d''. ata_identify io cache d' = (True, total, d'') \<and> drive_ok (view d'')" by blast
  then show ?thesis using d1 d' by simp
qed

text \<open>
  C18. \<open>ata_identify\<close> on a conforming drive that is idle, or stuck in an error, succeeds
  and caches words 60 and 61 of the identification as the number of sectors; the drive
  is ready for sector commands afterwards and its media unchanged.
\<close>

theorem ata_identify_correct:
  assumes "ata_conforms io view" and "drive_ok ((view d)\<lparr>phase := Idle\<rparr>)"
    and "phase (view d) = Idle \<or> phase (view d) = Failed"
  shows "\<exists>d' total. ata_identify io cache d = (True, total, d') \<and>
    unat (ata_get_total_sectors total) = unat (ident (view d) ! 60) + 65536 * unat (ident (view d) ! 61) \<and>
    drive_ok (view d') \<and> media (view d') = media (view d) \<and> capacity (view d') = capacity (view d)"
  by (rule ata_identify_sectors [OF assms])

section \<open>Witnesses\<close>

text \<open>A drive of eight sectors that answers at once; its state is its own view.\<close>

definition demo_outb :: "u16 \<Rightarrow> u8 \<Rightarrow> drive \<Rightarrow> drive" where
  "demo_outb r v d =
     (if r \<noteq> ATA_COMMAND then d\<lparr>task := (task d)(r := v)\<rparr>
      else d\<lparr>phase := Busy 0
        (if v = ATA_CMD_IDENTIFY then DataIn (ident d)
         else if \<not> task_lba (task d) < capacity d then Failed
         else if v = ATA_CMD_READ then DataIn (media d (task_lba (task d)))
         else DataOut (task_lba (task d)) [])\<rparr>)"

definition demo_inw :: "u16 \<Rightarrow> drive \<Rightarrow> u16 \<times> drive" where
  "demo_inw r d = (case phase d of
      DataIn (w # ws) \<Rightarrow> (w, d\<lparr>phase := if ws = [] then Idle else DataIn ws\<rparr>)
    | _ \<Rightarrow> (0, d))"

definition demo_outw :: "u16 \<Rightarrow> u16 \<Rightarrow> drive \<Rightarrow> drive" where
  "demo_outw r w d = (case phase d of
      DataOut lba ws \<Rightarrow>
        if length ws < 255 then d\<lparr>phase := DataOut lba (ws @ [w])\<rparr>
        else d\<lparr>phase := Busy 0 Idle, media := (media d)(lba := ws @ [w])\<rparr>
    | _ \<Rightarrow> d)"

definition demo_io :: "drive ports" where
  "demo_io = \<lparr>p_inb = (\<lambda>r d. (status_bits (phase d), d\<lparr>phase := tick (phase d)\<rparr>)),
     p_outb = demo_outb, p_inw = demo_inw, p_outw = demo_outw\<rparr>"

definition demo_drive :: "phase \<Rightarrow> drive" where
  "demo_drive q = \<lparr>task = (\<lambda>_. 0), phase = q, media = (\<lambda>_. replicate 256 0), capacity = 8,
     ident = (replicate 256 0)[60 := 8]\<rparr>"

lemma status_bits_mask: "status_bits q AND 0x89 = status_bits q"
  by (cases q) simp_all

lemma demo_conforms: "ata_conforms demo_io (\<lambda>d. d)"
  unfolding ata_conforms_def
proof (intro conjI allI impI)
  fix d st d' assume "p_inb demo_io ATA_STATUS d = (st, d')"
  then show "st AND 0x89 = status_bits (phase d)" "d' = d\<lparr>phase := tick (phase d)\<rparr>"
    by (auto simp: demo_io_def status_bits_mask)
qed (auto simp: demo_io_def demo_outb_def demo_inw_def demo_outw_def intro!: exI [where x = "0 :: nat"])

lemma demo_drive_ok: "drive_ok (demo_drive Idle)"
  by (simp add: drive_ok_def demo_drive_def)

theorem ata_write_read_witness:
  "\<exists>d1 d2. ata_write_sector demo_io 3 (replicate 512 7) (demo_drive Idle) = (True, d1) \<and>
    ata_read_sector demo_io 3 (replicate 512 0) d1 = (True, replicate 512 7, d2)"
  using ata_write_read [OF demo_conforms demo_drive_ok, of 3 "replicate 512 7" 3 "replicate 512 0"]
  by (auto simp: demo_drive_def)

theorem ata_error_sticks_witness:
  "\<exists>d'. issue_all demo_io [Write_sector 8 [], Read_sector 0 [], Write_sector 0 []] (demo_drive Idle) =
      ([False, False, False], d')"
proof -
  have "\<not> take_bit 28 (lba_of (Write_sector 8 [])) < capacity (demo_drive Idle)" by (simp add: demo_drive_def)
  from ata_error_sticks [OF demo_conforms demo_drive_ok this, of "[Read_sector 0 [], Write_sector 0 []]" 0]
  show ?thesis by (elim exE conjE) (intro exI, simp add: numeral_3_eq_3)
qed

theorem ata_identify_correct_witness:
  "\<exists>d' total. ata_identify demo_io 0 (demo_drive Failed) = (True, total, d') \<and>
     unat (ata_get_total_sectors total) = 8 \<and> drive_ok d'"
proof -
  have "drive_ok ((demo_drive Failed)\<lparr>phase := Idle\<rparr>)" "phase (demo_drive Failed) = Failed"
    by (simp_all add: drive_ok_def demo_drive_def)
  from ata_identify_correct [OF demo_conforms this(1), of 0] this(2)
  obtain d' total where "ata_identify demo_io 0 (demo_drive Failed) = (True, total, d')"
    "unat (ata_get_total_sectors total) =
       unat (ident (demo_drive Failed) ! 60) + 65536 * unat (ident (demo_drive Failed) ! 61)" "drive_ok d'"
    by auto
  then show ?thesis by (simp add: demo_drive_def)
qed

end
