(* ===== verification/Mbr.thy ===== *)
theory Mbr
  imports Ata
begin

text \<open>
  The partition table, \<^verbatim>\<open>kernel/fs/mbr.c\<close>, over a block device.  The lemmas are proved in the
  locale \<open>block_device\<close> and reach the driver through its interpretation: what is written
  is what is read back, no other entry of the table and no boot code is lost, and a disk
  without the signature is reported as having no partitions.
\<close>

section \<open>Definitions\<close>

record mbr_partition =
  bootable :: u8
  ptype :: u8
  lba_start :: u32
  sector_count :: u32

abbreviation MBR_PARTITION_TABLE_OFFSET :: nat where "MBR_PARTITION_TABLE_OFFSET \<equiv> 446"
abbreviation MBR_SIGNATURE_OFFSET :: nat where "MBR_SIGNATURE_OFFSET \<equiv> 510"
abbreviation MBR_ENTRY_SIZE :: nat where "MBR_ENTRY_SIZE \<equiv> 16"

definition mbr_signature :: "u8 list \<Rightarrow> u32" where
  "mbr_signature sector = le16 (sector ! MBR_SIGNATURE_OFFSET) (sector ! (MBR_SIGNATURE_OFFSET + 1))"

definition parse_entry :: "u8 list \<Rightarrow> nat \<Rightarrow> mbr_partition" where
  "parse_entry sector i =
     (let e = MBR_PARTITION_TABLE_OFFSET + i * MBR_ENTRY_SIZE;
          status = sector ! e;
          type = sector ! (e + 4)
      in \<lparr>bootable = (if status = 0x80 then 1 else 0), ptype = type,
          lba_start = le32 (sector ! (e + 8)) (sector ! (e + 9)) (sector ! (e + 10)) (sector ! (e + 11)),
          sector_count = le32 (sector ! (e + 12)) (sector ! (e + 13)) (sector ! (e + 14)) (sector ! (e + 15))\<rparr>)"

text \<open>
  The array \<open>out[4]\<close> is only written: the result holds its new contents beside the returned
  number of used entries.
\<close>

definition mbr_read_partitions :: "'d sector_io \<Rightarrow> 'd \<Rightarrow> nat \<times> mbr_partition list \<times> 'd" where
  "mbr_read_partitions E d =
     (let out = replicate 4 \<lparr>bootable = 0, ptype = 0, lba_start = 0, sector_count = 0\<rparr>
      in case rd_sector E 0 (stack_buf E d) d of (ok, sector, d) \<Rightarrow>
        if \<not> ok then (0, out, d)
        else if mbr_signature sector \<noteq> 0xAA55 then (0, out, d)
        else let out = map (parse_entry sector) [0 ..< 4]
             in (length (filter (\<lambda>p. ptype p \<noteq> 0) out), out, d))"

definition fill_entry :: "nat \<Rightarrow> u8 \<Rightarrow> u8 \<Rightarrow> u32 \<Rightarrow> u32 \<Rightarrow> u8 list \<Rightarrow> u8 list" where
  "fill_entry index boot type start count sector =
     (let e = MBR_PARTITION_TABLE_OFFSET + index * MBR_ENTRY_SIZE
      in sector[e := (if boot \<noteq> 0 then 0x80 else 0x00),
           e + 1 := 0, e + 2 := 0, e + 3 := 0,
           e + 4 := type,
           e + 5 := 0, e + 6 := 0, e + 7 := 0,
           e + 8 := byte_of 0 start, e + 9 := byte_of 1 start,
           e + 10 := byte_of 2 start, e + 11 := byte_of 3 start,
           e + 12 := byte_of 0 count, e + 13 := byte_of 1 count,
           e + 14 := byte_of 2 count, e + 15 := byte_of 3 count,
           MBR_SIGNATURE_OFFSET := 0x55, MBR_SIGNATURE_OFFSET + 1 := 0xAA])"

definition mbr_write_partition ::
    "'d sector_io \<Rightarrow> int \<Rightarrow> u8 \<Rightarrow> u8 \<Rightarrow> u32 \<Rightarrow> u32 \<Rightarrow> 'd \<Rightarrow> bool \<times> 'd" where
  "mbr_write_partition E index boot type start count d =
     (if index < 0 \<or> index > 3 then (False, d)
      else case rd_sector E 0 (stack_buf E d) d of (ok, sector, d) \<Rightarrow>
        if \<not> ok then (False, d)
        else let sector = (if mbr_signature sector \<noteq> 0xAA55 then map (\<lambda>_. 0) sector else sector)
             in wr_sector E 0 (fill_entry (nat index) boot type start count sector) d)"

section \<open>Lemmas\<close>

lemma length_fill_entry [simp]: "length (fill_entry i b t st c s) = length s"
  by (simp add: fill_entry_def Let_def)

lemma fill_entry_nth:
  assumes "length s = 512" and "i < 4"
  shows "k < 446 \<Longrightarrow> fill_entry i b t st c s ! k = s ! k"
    and "j < 4 \<Longrightarrow> j \<noteq> i \<Longrightarrow> a < 16 \<Longrightarrow>
      fill_entry i b t st c s ! (446 + j * 16 + a) = s ! (446 + j * 16 + a)"
  using assms by (auto simp: fill_entry_def Let_def nth_list_update)

lemma fill_entry_signature:
  assumes "length s = 512"
  shows "mbr_signature (fill_entry i b t st c s) = 0xAA55"
proof -
  have "fill_entry i b t st c s ! 510 = 0x55" "fill_entry i b t st c s ! 511 = 0xAA"
    using assms by (simp_all add: fill_entry_def Let_def)
  then show ?thesis by (simp add: mbr_signature_def le16_def)
qed

lemma fill_entry_fields:
  assumes "length s = 512" and "i < 4"
  shows "parse_entry (fill_entry i b t st c s) i =
    \<lparr>bootable = if b \<noteq> 0 then 1 else 0, ptype = t, lba_start = st, sector_count = c\<rparr>"
  using assms by (simp add: parse_entry_def fill_entry_def Let_def le_simps)

lemma parse_entry_other:
  assumes "length s = 512" and "i < 4" and "j < 4" and "j \<noteq> i"
  shows "parse_entry (fill_entry i b t st c s) j = parse_entry s j"
proof -
  note nth = fill_entry_nth(2) [OF assms]
  have "fill_entry i b t st c s ! (446 + j * 16) = s ! (446 + j * 16)" using nth [of 0] by simp
  moreover have "fill_entry i b t st c s ! (446 + j * 16 + a) = s ! (446 + j * 16 + a)"
    if "a \<in> {4, 8, 9, 10, 11, 12, 13, 14, 15}" for a
    by (rule nth) (use that in auto)
  ultimately show ?thesis unfolding parse_entry_def Let_def by (simp only: insert_iff simp_thms)
qed

text \<open>The sector a successful write leaves behind, from the one it found.\<close>

definition mbr_base :: "u8 list \<Rightarrow> u8 list" where
  "mbr_base s = (if mbr_signature s \<noteq> 0xAA55 then replicate 512 0 else s)"

text \<open>The table a sector holds: four unused entries when the signature is missing.\<close>

definition mbr_table :: "u8 list \<Rightarrow> mbr_partition list" where
  "mbr_table s = (if mbr_signature s \<noteq> 0xAA55
     then replicate 4 \<lparr>bootable = 0, ptype = 0, lba_start = 0, sector_count = 0\<rparr>
     else map (parse_entry s) [0 ..< 4])"

lemma parse_entry_zero:
  "j < 4 \<Longrightarrow> parse_entry (replicate 512 0) j = \<lparr>bootable = 0, ptype = 0, lba_start = 0, sector_count = 0\<rparr>"
  by (simp add: parse_entry_def Let_def le32_def)

lemma mbr_table_fill:
  assumes "length s = 512" and "i < 4"
  shows "mbr_table (fill_entry i b t st c (mbr_base s)) =
    (mbr_table s)[i := \<lparr>bootable = if b \<noteq> 0 then 1 else 0, ptype = t, lba_start = st, sector_count = c\<rparr>]"
proof (rule nth_equalityI)
  have len: "length (mbr_base s) = 512" using assms(1) by (simp add: mbr_base_def)
  fix j assume "j < length (mbr_table (fill_entry i b t st c (mbr_base s)))"
  then have j: "j < 4" by (simp add: mbr_table_def split: if_splits)
  have "parse_entry (mbr_base s) j = mbr_table s ! j"
    using j by (simp add: mbr_base_def mbr_table_def parse_entry_zero)
  moreover have "length (mbr_table s) = 4" by (simp add: mbr_table_def)
  ultimately show "mbr_table (fill_entry i b t st c (mbr_base s)) ! j =
    (mbr_table s)[i := \<lparr>bootable = if b \<noteq> 0 then 1 else 0, ptype = t, lba_start = st, sector_count = c\<rparr>] ! j"
    using j fill_entry_fields [OF len assms(2)] parse_entry_other [OF len assms(2) j]
    by (cases "j = i")
      (simp_all add: mbr_table_def [of "fill_entry i b t st c (mbr_base s)"] fill_entry_signature [OF len])
qed (simp add: mbr_table_def)

lemma filter_replicate_unused:
  "filter (\<lambda>p. ptype p \<noteq> 0) (replicate n \<lparr>bootable = 0, ptype = 0, lba_start = 0, sector_count = 0\<rparr>) = []"
  by (induction n) auto

context block_device
begin

lemma mbr_read_ok:
  assumes "ok d" and "0 < cap d"
  shows "\<exists>d'. mbr_read_partitions E d =
     (length (filter (\<lambda>p. ptype p \<noteq> 0) (mbr_table (sec d 0))), mbr_table (sec d 0), d') \<and>
     ok d' \<and> sec d' = sec d \<and> cap d' = cap d"
proof -
  obtain d' where "rd_sector E 0 (stack_buf E d) d = (True, sec d 0, d')" "ok d'" "sec d' = sec d" "cap d' = cap d"
    using read_ok [OF assms stack_length [OF assms(1)]] by blast
  then show ?thesis
    by (simp add: mbr_read_partitions_def mbr_table_def filter_replicate_unused Let_def)
qed

lemma mbr_write_ok:
  assumes "ok d" and "0 < cap d" and "0 \<le> i" and "i < 4"
  shows "\<exists>d'. mbr_write_partition E i b t st c d = (True, d') \<and> ok d' \<and>
     sec d' = (sec d)(0 := fill_entry (nat i) b t st c (mbr_base (sec d 0))) \<and> cap d' = cap d"
proof -
  obtain d1 where d1: "rd_sector E 0 (stack_buf E d) d = (True, sec d 0, d1)" "ok d1" "sec d1 = sec d" "cap d1 = cap d"
    using read_ok [OF assms(1,2) stack_length [OF assms(1)]] by blast
  have len: "length (sec d 0) = 512" using sec_length [OF assms(1)] .
  then have z: "map (\<lambda>_. 0) (sec d 0) = replicate 512 (0 :: u8)"
    by (simp add: map_replicate_const)
  have "length (fill_entry (nat i) b t st c (mbr_base (sec d 0))) = 512"
    using len by (simp add: mbr_base_def)
  from write_ok [OF d1(2) _ this, of 0] assms d1 show ?thesis
    by (simp add: mbr_write_partition_def mbr_base_def z split: if_splits)
qed

end

section \<open>Properties\<close>

text \<open>
  C19. On a conforming drive \<open>mbr_write_partition\<close> with an index from 0 to 3 succeeds, and
  \<open>mbr_read_partitions\<close> afterwards returns the table it would have returned before with
  exactly that entry replaced by the given one, and counts its used entries.  No other
  sector changes.
\<close>

theorem mbr_write_read:
  assumes "ata_ready io view stk d" and "0 < capacity (view d)" and "0 \<le> i" and "i < 4"
  shows "\<exists>n tab d0 d1 m d2. mbr_read_partitions (ata_io io stk) d = (n, tab, d0) \<and> length tab = 4 \<and>
     mbr_write_partition (ata_io io stk) i b t st c d = (True, d1) \<and>
     mbr_read_partitions (ata_io io stk) d1 = (m, tab[nat i :=
       \<lparr>bootable = if b \<noteq> 0 then 1 else 0, ptype = t, lba_start = st, sector_count = c\<rparr>], d2) \<and>
     m = length (filter (\<lambda>p. ptype p \<noteq> 0) (tab[nat i :=
       \<lparr>bootable = if b \<noteq> 0 then 1 else 0, ptype = t, lba_start = st, sector_count = c\<rparr>])) \<and>
     (\<forall>lba. lba \<noteq> 0 \<longrightarrow> ata_sectors view d2 lba = ata_sectors view d lba)"
proof -
  let ?E = "ata_io io stk" and ?s = "ata_sectors view d 0"
  have len: "length ?s = 512" "nat i < 4" using ata.sec_length [OF assms(1)] assms(3,4) by simp_all
  obtain d1 where d1: "mbr_write_partition ?E i b t st c d = (True, d1)" "ata_ready io view stk d1"
    "ata_sectors view d1 = (ata_sectors view d)(0 := fill_entry (nat i) b t st c (mbr_base ?s))"
    "capacity (view d1) = capacity (view d)"
    using ata.mbr_write_ok [OF assms, of b t st c] by blast
  have cap: "0 < capacity (view d1)" using assms(2) d1(4) by simp
  from ata.mbr_read_ok [OF assms(1,2)] ata.mbr_read_ok [OF d1(2) cap] d1(1,3) mbr_table_fill [OF len]
  show ?thesis by (fastforce simp: mbr_table_def)
qed

text \<open>
  C20. Writing an entry to a disk that already has a partition table keeps the boot code
  (the first 446 bytes of sector 0) and ends the sector with the signature; an index out
  of range is refused without touching the disk.
\<close>

theorem mbr_write_keeps_boot_code:
  assumes "ata_ready io view stk d" and "0 < capacity (view d)"
    and "mbr_signature (ata_sectors view d 0) = 0xAA55"
  shows "\<exists>ok d'. mbr_write_partition (ata_io io stk) i b t st c d = (ok, d') \<and>
     take 446 (ata_sectors view d' 0) = take 446 (ata_sectors view d 0) \<and>
     mbr_signature (ata_sectors view d' 0) = 0xAA55 \<and> (ok \<longleftrightarrow> 0 \<le> i \<and> i \<le> 3) \<and> (\<not> ok \<longrightarrow> d' = d)"
proof (cases "0 \<le> i \<and> i \<le> 3")
  case True
  then have i: "0 \<le> i" "i < 4" "nat i < 4" by auto
  let ?s = "ata_sectors view d 0"
  have len: "length ?s = 512" using ata.sec_length [OF assms(1)] .
  obtain d1 where d1: "mbr_write_partition (ata_io io stk) i b t st c d = (True, d1)"
    "ata_sectors view d1 = (ata_sectors view d)(0 := fill_entry (nat i) b t st c (mbr_base ?s))"
    using ata.mbr_write_ok [OF assms(1,2) i(1,2), of b t st c] by blast
  have "take 446 (fill_entry (nat i) b t st c ?s) = take 446 ?s"
    using fill_entry_nth(1) [OF len i(3)] len by (intro nth_equalityI) simp_all
  with d1 True fill_entry_signature [OF len] assms(3) show ?thesis
    by (intro exI [of _ True] exI [of _ d1]) (simp add: mbr_base_def)
next
  case False
  with assms(3) show ?thesis by (auto simp: mbr_write_partition_def)
qed

section \<open>Witnesses\<close>

definition demo_stk :: "drive \<Rightarrow> u8 list" where
  "demo_stk d = replicate 512 0xCC"

lemma demo_ready: "ata_ready demo_io (\<lambda>d. d) demo_stk (demo_drive Idle)"
  using demo_conforms demo_drive_ok by (simp add: ata_ready_def demo_stk_def)

theorem mbr_write_read_witness:
  "\<exists>tab d1 m d2. mbr_write_partition (ata_io demo_io demo_stk) 2 1 6 2048 4096 (demo_drive Idle) = (True, d1) \<and>
     mbr_read_partitions (ata_io demo_io demo_stk) d1 =
       (m, tab[2 := \<lparr>bootable = 1, ptype = 6, lba_start = 2048, sector_count = 4096\<rparr>], d2)"
  using mbr_write_read [OF demo_ready, of 2 1 6 2048 4096] by (fastforce simp: demo_drive_def)

theorem mbr_write_keeps_boot_code_witness:
  "\<exists>ok d'. mbr_write_partition (ata_io demo_io demo_stk) 2 1 6 2048 4096
      ((demo_drive Idle)\<lparr>media := \<lambda>_. (replicate 256 0)[255 := 0xAA55]\<rparr>) = (ok, d') \<and>
     mbr_signature (ata_sectors (\<lambda>d. d) d' 0) = 0xAA55 \<and> ok"
proof -
  let ?d = "(demo_drive Idle)\<lparr>media := \<lambda>_. (replicate 256 0)[255 := 0xAA55]\<rparr>"
  have r: "ata_ready demo_io (\<lambda>d. d) demo_stk ?d"
    using demo_conforms by (simp add: ata_ready_def demo_stk_def drive_ok_def demo_drive_def)
  have "mbr_signature (ata_sectors (\<lambda>d. d) ?d 0) = 0xAA55"
    by (simp add: mbr_signature_def ata_sectors_def nth_bytes_of byte_of_def le16_def)
  from mbr_write_keeps_boot_code [OF r _ this, of 2 1 6 2048 4096] show ?thesis
    by (auto simp: demo_drive_def)
qed

end
