(* ===== verification/Fat16.thy ===== *)
theory Fat16
  imports Ata
begin

text \<open>
  The FAT16 file system, \<^verbatim>\<open>kernel/fs/fat16.c\<close>, over a block device.

  \<^item> The static variables \<open>vol\<close> and \<open>mounted\<close> are the record \<open>fat16\<close>; the disk is the state of
    the block device, passed through every operation.
  \<^item> An operation has the result \<open>None\<close> where the C code divides by zero, indexes one of its
    sector buffers, the caller's data or the caller's buffer out of bounds, or never
    returns.  The C results 0 and 1 are \<open>False\<close> and \<open>True\<close>.
  \<^item> A local sector buffer starts out as \<open>stack_buf\<close>, so that a failed read that the code
    ignores leaves it arbitrary.
\<close>

section \<open>Formatting\<close>

abbreviation BYTES_PER_SECTOR :: nat where "BYTES_PER_SECTOR \<equiv> 512"
abbreviation SECTORS_PER_CLUSTER :: u32 where "SECTORS_PER_CLUSTER \<equiv> 64"
abbreviation RESERVED_SECTORS :: u32 where "RESERVED_SECTORS \<equiv> 1"
abbreviation NUM_FATS :: u32 where "NUM_FATS \<equiv> 2"
abbreviation ROOT_ENTRIES :: u32 where "ROOT_ENTRIES \<equiv> 512"
abbreviation ROOT_DIR_SECTORS :: u32 where "ROOT_DIR_SECTORS \<equiv> 32"
abbreviation FAT_SIZE_SECTORS :: u32 where "FAT_SIZE_SECTORS \<equiv> 256"

definition zero_sector :: "u8 list \<Rightarrow> u8 list" where
  "zero_sector buf = replicate BYTES_PER_SECTOR 0 @ drop BYTES_PER_SECTOR buf"

definition oem :: "u8 list" where
  "oem = [0x41, 0x4C, 0x44, 0x45, 0x52, 0x4B, 0x52, 0x4E]"

definition label :: "u8 list" where
  "label = [0x41, 0x4C, 0x44, 0x45, 0x52, 0x4B, 0x52, 0x4E, 0x4C, 0x20, 0x20]"

definition fstype :: "u8 list" where
  "fstype = [0x46, 0x41, 0x54, 0x31, 0x36, 0x20, 0x20, 0x20]"

definition boot_sector :: "u32 \<Rightarrow> u32 \<Rightarrow> u8 list \<Rightarrow> u8 list" where
  "boot_sector partition_lba sector_count sector =
     (let sector = zero_sector sector;
          sector = sector[0 := 0xEB, 1 := 0x3C, 2 := 0x90];
          sector = store_at 3 oem sector;
          sector = sector[
            11 := byte_of 0 (of_nat BYTES_PER_SECTOR :: u32), 12 := byte_of 1 (of_nat BYTES_PER_SECTOR :: u32),
            13 := ucast SECTORS_PER_CLUSTER,
            14 := byte_of 0 RESERVED_SECTORS, 15 := byte_of 1 RESERVED_SECTORS,
            16 := ucast NUM_FATS,
            17 := byte_of 0 ROOT_ENTRIES, 18 := byte_of 1 ROOT_ENTRIES,
            19 := 0, 20 := 0,
            21 := 0xF8,
            22 := byte_of 0 FAT_SIZE_SECTORS, 23 := byte_of 1 FAT_SIZE_SECTORS,
            24 := 63, 25 := 0,
            26 := 255, 27 := 0,
            28 := byte_of 0 partition_lba, 29 := byte_of 1 partition_lba,
            30 := byte_of 2 partition_lba, 31 := byte_of 3 partition_lba,
            32 := byte_of 0 sector_count, 33 := byte_of 1 sector_count,
            34 := byte_of 2 sector_count, 35 := byte_of 3 sector_count,
            36 := 0x80,
            37 := 0,
            38 := 0x29,
            39 := 0x78, 40 := 0x56, 41 := 0x34, 42 := 0x12];
          sector = store_at 43 label sector;
          sector = store_at 54 fstype sector
      in sector[510 := 0x55, 511 := 0xAA])"

text \<open>Writing the same sector to \<open>n\<close> consecutive addresses, stopping at the first failure.\<close>

fun write_run :: "'d sector_io \<Rightarrow> u8 list \<Rightarrow> nat \<Rightarrow> u32 \<Rightarrow> 'd \<Rightarrow> bool \<times> 'd" where
  "write_run E sector 0 lba d = (True, d)"
| "write_run E sector (Suc n) lba d =
     (case wr_sector E lba sector d of (ok, d) \<Rightarrow>
        if \<not> ok then (False, d) else write_run E sector n (lba + 1) d)"

definition format_fat :: "'d sector_io \<Rightarrow> u32 \<Rightarrow> u8 list \<Rightarrow> 'd \<Rightarrow> bool \<times> 'd" where
  "format_fat E base sector d =
     (let sector = (zero_sector sector)[0 := 0xF8, 1 := 0xFF, 2 := 0xFF, 3 := 0xFF]
      in case wr_sector E base sector d of (ok, d) \<Rightarrow>
        if \<not> ok then (False, d)
        else write_run E (zero_sector sector) (unat FAT_SIZE_SECTORS - 1) (base + 1) d)"

fun format_fats :: "'d sector_io \<Rightarrow> u32 \<Rightarrow> u8 list \<Rightarrow> nat \<Rightarrow> u32 \<Rightarrow> 'd \<Rightarrow> bool \<times> 'd" where
  "format_fats E fat_start sector 0 copy d = (True, d)"
| "format_fats E fat_start sector (Suc n) copy d =
     (case format_fat E (fat_start + copy * FAT_SIZE_SECTORS) sector d of (ok, d) \<Rightarrow>
        if \<not> ok then (False, d) else format_fats E fat_start sector n (copy + 1) d)"

definition fat16_format :: "'d sector_io \<Rightarrow> u32 \<Rightarrow> u32 \<Rightarrow> 'd \<Rightarrow> bool \<times> 'd" where
  "fat16_format E partition_lba sector_count d =
     (let non_data_sectors = RESERVED_SECTORS + NUM_FATS * FAT_SIZE_SECTORS + ROOT_DIR_SECTORS
      in if sector_count \<le> non_data_sectors then (False, d)
         else let data_sectors = sector_count - non_data_sectors;
                  cluster_count = data_sectors div SECTORS_PER_CLUSTER
              in if cluster_count < 4085 \<or> cluster_count > 65524 then (False, d)
                 else let sector = boot_sector partition_lba sector_count (stack_buf E d)
                      in case wr_sector E partition_lba sector d of (ok, d) \<Rightarrow>
                        if \<not> ok then (False, d)
                        else let fat_start = partition_lba + RESERVED_SECTORS
                             in case format_fats E fat_start sector (unat NUM_FATS) 0 d of (ok, d) \<Rightarrow>
                               if \<not> ok then (False, d)
                               else let root_start = fat_start + NUM_FATS * FAT_SIZE_SECTORS
                                    in write_run E (zero_sector sector) (unat ROOT_DIR_SECTORS) root_start d)"

section \<open>The mounted volume\<close>

record fat16_volume =
  partition_lba :: u32
  bytes_per_sector :: u32
  sectors_per_cluster :: u32
  reserved_sectors :: u32
  num_fats :: u32
  root_entries :: u32
  fat_size_sectors :: u32
  root_dir_sectors :: u32
  fat_start :: u32
  root_start :: u32
  data_start :: u32

record fat16 =
  vol :: fat16_volume
  mounted :: bool

text \<open>A failing mount may already have overwritten \<open>vol\<close>; \<open>mounted\<close> is only ever set.\<close>

definition fat16_mount :: "'d sector_io \<Rightarrow> u32 \<Rightarrow> fat16 \<Rightarrow> 'd \<Rightarrow> bool \<times> fat16 \<times> 'd" where
  "fat16_mount E lba F d =
     (case rd_sector E lba (stack_buf E d) d of (ok, sector, d) \<Rightarrow>
        if \<not> ok then (False, F, d)
        else if sector ! 510 \<noteq> 0x55 \<or> sector ! 511 \<noteq> 0xAA then (False, F, d)
        else let V = (vol F)\<lparr>partition_lba := lba,
                       bytes_per_sector := le16 (sector ! 11) (sector ! 12),
                       sectors_per_cluster := ucast (sector ! 13),
                       reserved_sectors := le16 (sector ! 14) (sector ! 15),
                       num_fats := ucast (sector ! 16),
                       root_entries := le16 (sector ! 17) (sector ! 18),
                       fat_size_sectors := le16 (sector ! 22) (sector ! 23)\<rparr>
             in if bytes_per_sector V = 0 \<or> sectors_per_cluster V = 0 then (False, F\<lparr>vol := V\<rparr>, d)
                else let V = V\<lparr>root_dir_sectors :=
                               (root_entries V * 32 + bytes_per_sector V - 1) div bytes_per_sector V\<rparr>;
                         V = V\<lparr>fat_start := lba + reserved_sectors V\<rparr>;
                         V = V\<lparr>root_start := fat_start V + num_fats V * fat_size_sectors V\<rparr>;
                         V = V\<lparr>data_start := root_start V + root_dir_sectors V\<rparr>
                     in (True, F\<lparr>vol := V, mounted := True\<rparr>, d))"

definition cluster_to_lba :: "fat16_volume \<Rightarrow> u32 \<Rightarrow> u32" where
  "cluster_to_lba V cluster = data_start V + (cluster - 2) * sectors_per_cluster V"

section \<open>The file allocation table\<close>

definition fat_read_entry :: "'d sector_io \<Rightarrow> fat16_volume \<Rightarrow> u32 \<Rightarrow> 'd \<Rightarrow> (u16 \<times> 'd) option" where
  "fat_read_entry E V cluster d =
     (if bytes_per_sector V = 0 then None
      else let byte_offset = cluster * 2;
               sector_index = byte_offset div bytes_per_sector V;
               offset_in_sector = unat (byte_offset mod bytes_per_sector V)
           in case rd_sector E (fat_start V + sector_index) (stack_buf E d) d of (_, sector, d) \<Rightarrow>
             do {
               a \<leftarrow> get_at sector offset_in_sector;
               b \<leftarrow> get_at sector (offset_in_sector + 1);
               Some (ucast (le16 a b), d)
             })"

text \<open>The loop over the copies of the FAT; the results of both sector operations are ignored.\<close>

fun write_copies :: "'d sector_io \<Rightarrow> fat16_volume \<Rightarrow> u32 \<Rightarrow> nat \<Rightarrow> u16 \<Rightarrow> nat \<Rightarrow> u32 \<Rightarrow> 'd \<Rightarrow> 'd option" where
  "write_copies E V sector_index offset_in_sector val 0 copy d = Some d"
| "write_copies E V sector_index offset_in_sector val (Suc n) copy d =
     (let base = fat_start V + copy * fat_size_sectors V
      in case rd_sector E (base + sector_index) (stack_buf E d) d of (_, sector, d) \<Rightarrow>
        do {
          sector \<leftarrow> put_at sector offset_in_sector (byte_of 0 val);
          sector \<leftarrow> put_at sector (offset_in_sector + 1) (byte_of 1 val);
          write_copies E V sector_index offset_in_sector val n (copy + 1)
            (snd (wr_sector E (base + sector_index) sector d))
        })"

definition fat_write_entry :: "'d sector_io \<Rightarrow> fat16_volume \<Rightarrow> u32 \<Rightarrow> u16 \<Rightarrow> 'd \<Rightarrow> 'd option" where
  "fat_write_entry E V cluster val d =
     (if bytes_per_sector V = 0 then None
      else let byte_offset = cluster * 2;
               sector_index = byte_offset div bytes_per_sector V;
               offset_in_sector = unat (byte_offset mod bytes_per_sector V)
           in write_copies E V sector_index offset_in_sector val (unat (num_fats V)) 0 d)"

fun alloc_scan :: "'d sector_io \<Rightarrow> fat16_volume \<Rightarrow> nat \<Rightarrow> u32 \<Rightarrow> 'd \<Rightarrow> (u32 \<times> 'd) option" where
  "alloc_scan E V 0 c d = Some (0, d)"
| "alloc_scan E V (Suc n) c d =
     do {
       (v, d) \<leftarrow> fat_read_entry E V c d;
       if v = 0x0000
       then do { d \<leftarrow> fat_write_entry E V c 0xFFFF d; Some (c, d) }
       else alloc_scan E V n (c + 1) d
     }"

definition fat_alloc_cluster :: "'d sector_io \<Rightarrow> fat16_volume \<Rightarrow> 'd \<Rightarrow> (u32 \<times> 'd) option" where
  "fat_alloc_cluster E V d =
     (let max_cluster = (fat_size_sectors V * bytes_per_sector V) div 2
      in alloc_scan E V (unat max_cluster - 2) 2 d)"

section \<open>Directory entries\<close>

function copy_chars :: "u8 list \<Rightarrow> u8 list \<Rightarrow> nat \<Rightarrow> nat \<Rightarrow> u8 list \<times> nat" where
  "copy_chars dest src len i =
     (if i < len \<and> cstr src i \<noteq> 0 then copy_chars (dest[i := cstr src i]) src len (i + 1)
      else (dest, i))"
  by pat_completeness auto

termination by (relation "measure (\<lambda>(dest, src, len, i). len - i)") auto

function pad_spaces :: "u8 list \<Rightarrow> nat \<Rightarrow> nat \<Rightarrow> u8 list" where
  "pad_spaces dest len i = (if i < len then pad_spaces (dest[i := 0x20]) len (i + 1) else dest)"
  by pat_completeness auto

termination by (relation "measure (\<lambda>(dest, len, i). len - i)") auto

declare copy_chars.simps [simp del] pad_spaces.simps [simp del]

definition copy_padded :: "u8 list \<Rightarrow> u8 list \<Rightarrow> nat \<Rightarrow> u8 list" where
  "copy_padded dest src len = (case copy_chars dest src len 0 of (dest, i) \<Rightarrow> pad_spaces dest len i)"

definition set_dir_entry :: "u8 list \<Rightarrow> u8 list \<Rightarrow> u8 list \<Rightarrow> u8 \<Rightarrow> u32 \<Rightarrow> u32 \<Rightarrow> u8 list" where
  "set_dir_entry e name ext attr cluster sz =
     (let e = copy_padded e name 8;
          e = take 8 e @ copy_padded (drop 8 e) ext 3;
          e = e[11 := attr];
          e = store_at 12 (replicate 14 0) e
      in e[26 := byte_of 0 cluster, 27 := byte_of 1 cluster,
           28 := byte_of 0 sz, 29 := byte_of 1 sz, 30 := byte_of 2 sz, 31 := byte_of 3 sz])"

text \<open>The inner loop over the 16 slots of a sector: the first free or deleted one.\<close>

fun free_slot :: "u8 list \<Rightarrow> nat \<Rightarrow> nat \<Rightarrow> nat option" where
  "free_slot sector 0 i = None"
| "free_slot sector (Suc n) i =
     (if sector ! (i * 32) = 0x00 \<or> sector ! (i * 32) = 0xE5 then Some i
      else free_slot sector n (i + 1))"

text \<open>The loop over the sectors of a directory, the same lines of the two functions below.\<close>

fun place_entry :: "'d sector_io \<Rightarrow> u8 list \<Rightarrow> nat \<Rightarrow> u32 \<Rightarrow> u8 list \<Rightarrow> 'd \<Rightarrow> bool \<times> 'd" where
  "place_entry E entry32 0 lba sector d = (False, d)"
| "place_entry E entry32 (Suc n) lba sector d =
     (case rd_sector E lba sector d of (ok, sector, d) \<Rightarrow>
        if \<not> ok then (False, d)
        else case free_slot sector 16 0 of
          Some i \<Rightarrow> wr_sector E lba (store_at (i * 32) (take 32 entry32) sector) d
        | None \<Rightarrow> place_entry E entry32 n (lba + 1) sector d)"

definition write_entry_in_root :: "'d sector_io \<Rightarrow> fat16_volume \<Rightarrow> u8 list \<Rightarrow> 'd \<Rightarrow> bool \<times> 'd" where
  "write_entry_in_root E V entry32 d =
     place_entry E entry32 (unat (root_dir_sectors V)) (root_start V) (stack_buf E d) d"

definition write_entry_in_dir_cluster ::
    "'d sector_io \<Rightarrow> fat16_volume \<Rightarrow> u32 \<Rightarrow> u8 list \<Rightarrow> 'd \<Rightarrow> bool \<times> 'd" where
  "write_entry_in_dir_cluster E V dir_cluster entry32 d =
     place_entry E entry32 (unat (sectors_per_cluster V)) (cluster_to_lba V dir_cluster) (stack_buf E d) d"

text \<open>A local \<^verbatim>\<open>unsigned char entry[32]\<close> before \<open>set_dir_entry\<close> fills it.\<close>

definition entry_buf :: "'d sector_io \<Rightarrow> 'd \<Rightarrow> u8 list" where
  "entry_buf E d = take 32 (stack_buf E d)"

text \<open>\<open>out_cluster\<close> is \<open>None\<close> for a null pointer, otherwise the variable it points to.\<close>

definition fat16_mkdir_root ::
    "'d sector_io \<Rightarrow> fat16 \<Rightarrow> u8 list \<Rightarrow> u8 list \<Rightarrow> u32 option \<Rightarrow> 'd \<Rightarrow> (bool \<times> u32 option \<times> 'd) option" where
  "fat16_mkdir_root E F name ext out_cluster d =
     (if \<not> mounted F then Some (False, out_cluster, d)
      else let V = vol F in do {
        (cluster, d) \<leftarrow> fat_alloc_cluster E V d;
        if cluster = 0 then Some (False, out_cluster, d)
        else let sector = zero_sector (stack_buf E d);
                 dot_entry = set_dir_entry (entry_buf E d) [0x2E] [] 0x10 cluster 0;
                 dotdot_entry = set_dir_entry (entry_buf E d) [0x2E, 0x2E] [] 0x10 0 0;
                 sector = store_at 0 dot_entry sector;
                 sector = store_at 32 dotdot_entry sector;
                 base = cluster_to_lba V cluster
             in case wr_sector E base sector d of (ok, d) \<Rightarrow>
               if \<not> ok then Some (False, out_cluster, d)
               else case write_run E (zero_sector sector) (unat (sectors_per_cluster V) - 1) (base + 1) d of
                 (ok, d) \<Rightarrow>
                   if \<not> ok then Some (False, out_cluster, d)
                   else let root_entry = set_dir_entry (entry_buf E d) name ext 0x10 cluster 0
                        in case write_entry_in_root E V root_entry d of (ok, d) \<Rightarrow>
                          if \<not> ok then Some (False, out_cluster, d)
                          else Some (True, map_option (\<lambda>_. cluster) out_cluster, d)
      })"

section \<open>Writing files\<close>

text \<open>\<open>sector[b] = data[base + b]\<close> for \<open>n\<close> bytes from \<open>b\<close> on.\<close>

fun copy_in :: "u8 list \<Rightarrow> u32 \<Rightarrow> nat \<Rightarrow> nat \<Rightarrow> u8 list \<Rightarrow> u8 list option" where
  "copy_in data base 0 b sector = Some sector"
| "copy_in data base (Suc n) b sector =
     do {
       v \<leftarrow> get_at data (unat (base + of_nat b));
       sector \<leftarrow> put_at sector b v;
       copy_in data base n (b + 1) sector
     }"

text \<open>The loop over the sectors of one cluster, \<open>n\<close> of them left.\<close>

fun write_cluster ::
    "'d sector_io \<Rightarrow> u8 list \<Rightarrow> u32 \<Rightarrow> u32 \<Rightarrow> nat \<Rightarrow> u32 \<Rightarrow> u32 \<Rightarrow> 'd \<Rightarrow> (bool \<times> 'd) option" where
  "write_cluster E data offset this_chunk 0 lba written_in_cluster d = Some (True, d)"
| "write_cluster E data offset this_chunk (Suc n) lba written_in_cluster d =
     do {
       let sector = zero_sector (stack_buf E d);
       sector \<leftarrow>
         (if written_in_cluster < this_chunk
          then let copy_len = (if this_chunk - written_in_cluster < of_nat BYTES_PER_SECTOR
                               then unat (this_chunk - written_in_cluster) else BYTES_PER_SECTOR)
               in copy_in data (offset + written_in_cluster) copy_len 0 sector
          else Some sector);
       case wr_sector E lba sector d of (ok, d) \<Rightarrow>
         if \<not> ok then Some (False, d)
         else write_cluster E data offset this_chunk n (lba + 1)
                (written_in_cluster + of_nat BYTES_PER_SECTOR) d
     }"

partial_function (option) write_clusters ::
    "'d sector_io \<Rightarrow> fat16_volume \<Rightarrow> u8 list \<Rightarrow> u32 \<Rightarrow> u32 \<Rightarrow> u32 \<Rightarrow> 'd \<Rightarrow> (bool \<times> 'd) option" where
  "write_clusters E V data cluster offset remaining d =
     do {
       let bytes_per_cluster = sectors_per_cluster V * bytes_per_sector V;
       let this_chunk = (if remaining < bytes_per_cluster then remaining else bytes_per_cluster);
       (ok, d) \<leftarrow> write_cluster E data offset this_chunk (unat (sectors_per_cluster V))
         (cluster_to_lba V cluster) 0 d;
       if \<not> ok then Some (False, d)
       else if remaining - this_chunk = 0
       then do { d \<leftarrow> fat_write_entry E V cluster 0xFFFF d; Some (True, d) }
       else do {
         (next, d) \<leftarrow> fat_alloc_cluster E V d;
         if next = 0 then Some (False, d)
         else do {
           d \<leftarrow> fat_write_entry E V cluster (ucast next) d;
           write_clusters E V data next (offset + this_chunk) (remaining - this_chunk) d
         }
       }
     }"

definition write_file_data ::
    "'d sector_io \<Rightarrow> fat16_volume \<Rightarrow> u32 \<Rightarrow> u8 list \<Rightarrow> u32 \<Rightarrow> 'd \<Rightarrow> (bool \<times> 'd) option" where
  "write_file_data E V first_cluster data sz d = write_clusters E V data first_cluster 0 sz d"

text \<open>Allocating and writing the contents, the same lines of the two functions below.\<close>

definition store_contents :: "'d sector_io \<Rightarrow> fat16_volume \<Rightarrow> u8 list \<Rightarrow> u32 \<Rightarrow> 'd \<Rightarrow> (bool \<times> u32 \<times> 'd) option" where
  "store_contents E V data sz d =
     (if sz > 0
      then do {
        (first_cluster, d) \<leftarrow> fat_alloc_cluster E V d;
        if first_cluster = 0 then Some (False, 0, d)
        else do {
          (ok, d) \<leftarrow> write_file_data E V first_cluster data sz d;
          Some (ok, first_cluster, d)
        }
      }
      else Some (True, 0, d))"

definition fat16_create_file_root ::
    "'d sector_io \<Rightarrow> fat16 \<Rightarrow> u8 list \<Rightarrow> u8 list \<Rightarrow> u8 list \<Rightarrow> u32 \<Rightarrow> 'd \<Rightarrow> (bool \<times> 'd) option" where
  "fat16_create_file_root E F name ext data sz d =
     (if \<not> mounted F then Some (False, d)
      else do {
        (ok, first_cluster, d) \<leftarrow> store_contents E (vol F) data sz d;
        if \<not> ok then Some (False, d)
        else Some (write_entry_in_root E (vol F)
                     (set_dir_entry (entry_buf E d) name ext 0x20 first_cluster sz) d)
      })"

definition fat16_create_file_in_dir ::
    "'d sector_io \<Rightarrow> fat16 \<Rightarrow> u32 \<Rightarrow> u8 list \<Rightarrow> u8 list \<Rightarrow> u8 list \<Rightarrow> u32 \<Rightarrow> 'd \<Rightarrow> (bool \<times> 'd) option" where
  "fat16_create_file_in_dir E F dir_cluster name ext data sz d =
     (if \<not> mounted F then Some (False, d)
      else do {
        (ok, first_cluster, d) \<leftarrow> store_contents E (vol F) data sz d;
        if \<not> ok then Some (False, d)
        else Some (write_entry_in_dir_cluster E (vol F) dir_cluster
                     (set_dir_entry (entry_buf E d) name ext 0x20 first_cluster sz) d)
      })"

section \<open>Reading directories\<close>

definition upper :: "u8 \<Rightarrow> u8" where
  "upper c = (if c \<ge> 0x61 \<and> c \<le> 0x7A then c - 32 else c)"

definition names_equal :: "u8 list \<Rightarrow> u8 list \<Rightarrow> u8 list \<Rightarrow> bool" where
  "names_equal entry11 name ext =
     (let qname = copy_padded (replicate 8 0) name 8;
          qext = copy_padded (replicate 3 0) ext 3
      in (\<forall>i \<in> set [0 ..< 8]. entry11 ! i = upper (qname ! i)) \<and>
         (\<forall>i \<in> set [0 ..< 3]. entry11 ! (8 + i) = upper (qext ! i)))"

fun trim_end :: "u8 list \<Rightarrow> nat \<Rightarrow> nat" where
  "trim_end src 0 = 0"
| "trim_end src (Suc n) = (if src ! n = 0x20 then trim_end src n else Suc n)"

definition trim_copy :: "u8 list \<Rightarrow> u8 list \<Rightarrow> nat \<Rightarrow> u8 list" where
  "trim_copy dest src len =
     (let end' = trim_end src len in (store_at 0 (take end' src) dest)[end' := 0])"

text \<open>\<open>char name[9]\<close> and \<open>char ext[4]\<close> are the whole arrays, terminator included.\<close>

record fat16_dirent =
  de_name :: "u8 list"
  de_ext :: "u8 list"
  de_attr :: u8
  de_cluster :: u32
  de_size :: u32

definition fill_dirent :: "fat16_dirent \<Rightarrow> u8 list \<Rightarrow> fat16_dirent" where
  "fill_dirent dd e =
     \<lparr>de_name = trim_copy (de_name dd) e 8, de_ext = trim_copy (de_ext dd) (drop 8 e) 3, de_attr = e ! 11,
      de_cluster = le16 (e ! 26) (e ! 27), de_size = le32 (e ! 28) (e ! 29) (e ! 30) (e ! 31)\<rparr>"

text \<open>The entry at slot \<open>i\<close> of a sector (\<open>&sector[i * 32]\<close>).\<close>

definition slot :: "u8 list \<Rightarrow> nat \<Rightarrow> u8 list" where
  "slot sector i = take 32 (drop (i * 32) sector)"

text \<open>
  One sector of a listing, \<open>n\<close> slots left: whether the end of the directory was met, the
  count, and the output array.
\<close>

fun list_slots ::
    "u8 list \<Rightarrow> int \<Rightarrow> nat \<Rightarrow> nat \<Rightarrow> nat \<Rightarrow> fat16_dirent list \<Rightarrow> (bool \<times> nat \<times> fat16_dirent list) option" where
  "list_slots sector max_entries 0 i cnt out = Some (False, cnt, out)"
| "list_slots sector max_entries (Suc n) i cnt out =
     (let e = slot sector i
      in if e ! 0 = 0x00 then Some (True, cnt, out)
         else if e ! 0 = 0xE5 \<or> e ! 11 = 0x0F then list_slots sector max_entries n (i + 1) cnt out
         else if int cnt < max_entries
         then do {
           dd \<leftarrow> get_at out cnt;
           list_slots sector max_entries n (i + 1) (cnt + 1) (out[cnt := fill_dirent dd e])
         }
         else list_slots sector max_entries n (i + 1) (cnt + 1) out)"

fun list_sectors ::
    "'d sector_io \<Rightarrow> int \<Rightarrow> nat \<Rightarrow> u32 \<Rightarrow> nat \<Rightarrow> u8 list \<Rightarrow> fat16_dirent list \<Rightarrow> 'd \<Rightarrow>
     (int \<times> fat16_dirent list \<times> 'd) option" where
  "list_sectors E max_entries 0 lba cnt sector out d = Some (int cnt, out, d)"
| "list_sectors E max_entries (Suc n) lba cnt sector out d =
     (case rd_sector E lba sector d of (ok, sector, d) \<Rightarrow>
        if \<not> ok then Some (int cnt, out, d)
        else do {
          (stop, cnt, out) \<leftarrow> list_slots sector max_entries 16 0 cnt out;
          if stop then Some (int cnt, out, d)
          else list_sectors E max_entries n (lba + 1) cnt sector out d
        })"

definition list_dir_sectors ::
    "'d sector_io \<Rightarrow> u32 \<Rightarrow> u32 \<Rightarrow> fat16_dirent list \<Rightarrow> int \<Rightarrow> 'd \<Rightarrow> (int \<times> fat16_dirent list \<times> 'd) option" where
  "list_dir_sectors E start_lba num_sectors out max_entries d =
     list_sectors E max_entries (unat num_sectors) start_lba 0 (stack_buf E d) out d"

definition fat16_list_root ::
    "'d sector_io \<Rightarrow> fat16 \<Rightarrow> fat16_dirent list \<Rightarrow> int \<Rightarrow> 'd \<Rightarrow> (int \<times> fat16_dirent list \<times> 'd) option" where
  "fat16_list_root E F out max_entries d =
     (if \<not> mounted F then Some (-1, out, d)
      else list_dir_sectors E (root_start (vol F)) (root_dir_sectors (vol F)) out max_entries d)"

definition fat16_list_dir ::
    "'d sector_io \<Rightarrow> fat16 \<Rightarrow> u32 \<Rightarrow> fat16_dirent list \<Rightarrow> int \<Rightarrow> 'd \<Rightarrow> (int \<times> fat16_dirent list \<times> 'd) option" where
  "fat16_list_dir E F dir_cluster out max_entries d =
     (if \<not> mounted F then Some (-1, out, d)
      else list_dir_sectors E (cluster_to_lba (vol F) dir_cluster) (sectors_per_cluster (vol F)) out max_entries d)"

text \<open>One sector of a search: \<open>Some None\<close> at the end of the directory, \<open>Some (Some e)\<close> at a match.\<close>

fun find_slot :: "u8 list \<Rightarrow> u8 list \<Rightarrow> u8 list \<Rightarrow> nat \<Rightarrow> nat \<Rightarrow> u8 list option option" where
  "find_slot sector name ext 0 i = None"
| "find_slot sector name ext (Suc n) i =
     (let e = slot sector i
      in if e ! 0 = 0x00 then Some None
         else if e ! 0 = 0xE5 \<or> e ! 11 = 0x0F then find_slot sector name ext n (i + 1)
         else if names_equal e name ext then Some (Some e)
         else find_slot sector name ext n (i + 1))"

fun find_sectors ::
    "'d sector_io \<Rightarrow> u8 list \<Rightarrow> u8 list \<Rightarrow> nat \<Rightarrow> u32 \<Rightarrow> u8 list \<Rightarrow> fat16_dirent \<Rightarrow> 'd \<Rightarrow>
     bool \<times> fat16_dirent \<times> 'd" where
  "find_sectors E name ext 0 lba sector out d = (False, out, d)"
| "find_sectors E name ext (Suc n) lba sector out d =
     (case rd_sector E lba sector d of (ok, sector, d) \<Rightarrow>
        if \<not> ok then (False, out, d)
        else case find_slot sector name ext 16 0 of
          Some None \<Rightarrow> (False, out, d)
        | Some (Some e) \<Rightarrow> (True, fill_dirent out e, d)
        | None \<Rightarrow> find_sectors E name ext n (lba + 1) sector out d)"

definition find_in_sectors ::
    "'d sector_io \<Rightarrow> u32 \<Rightarrow> u32 \<Rightarrow> u8 list \<Rightarrow> u8 list \<Rightarrow> fat16_dirent \<Rightarrow> 'd \<Rightarrow> bool \<times> fat16_dirent \<times> 'd" where
  "find_in_sectors E start_lba num_sectors name ext out d =
     find_sectors E name ext (unat num_sectors) start_lba (stack_buf E d) out d"

definition fat16_find_in_root ::
    "'d sector_io \<Rightarrow> fat16 \<Rightarrow> u8 list \<Rightarrow> u8 list \<Rightarrow> fat16_dirent \<Rightarrow> 'd \<Rightarrow> bool \<times> fat16_dirent \<times> 'd" where
  "fat16_find_in_root E F name ext out d =
     (if \<not> mounted F then (False, out, d)
      else find_in_sectors E (root_start (vol F)) (root_dir_sectors (vol F)) name ext out d)"

definition fat16_find_in_dir ::
    "'d sector_io \<Rightarrow> fat16 \<Rightarrow> u32 \<Rightarrow> u8 list \<Rightarrow> u8 list \<Rightarrow> fat16_dirent \<Rightarrow> 'd \<Rightarrow> bool \<times> fat16_dirent \<times> 'd" where
  "fat16_find_in_dir E F dir_cluster name ext out d =
     (if \<not> mounted F then (False, out, d)
      else find_in_sectors E (cluster_to_lba (vol F) dir_cluster) (sectors_per_cluster (vol F)) name ext out d)"

section \<open>Reading files\<close>

text \<open>\<open>buffer[base + b] = sector[b]\<close> for \<open>n\<close> bytes from \<open>b\<close> on, below \<open>buffer_size\<close>.\<close>

fun copy_out :: "u8 list \<Rightarrow> u32 \<Rightarrow> u32 \<Rightarrow> nat \<Rightarrow> nat \<Rightarrow> u8 list \<Rightarrow> u8 list option" where
  "copy_out sector base buffer_size 0 b buffer = Some buffer"
| "copy_out sector base buffer_size (Suc n) b buffer =
     (let dest_index = base + of_nat b
      in if dest_index < buffer_size
         then do {
           v \<leftarrow> get_at sector b;
           buffer \<leftarrow> put_at buffer (unat dest_index) v;
           copy_out sector base buffer_size n (b + 1) buffer
         }
         else copy_out sector base buffer_size n (b + 1) buffer)"

fun read_cluster ::
    "'d sector_io \<Rightarrow> u32 \<Rightarrow> u32 \<Rightarrow> u32 \<Rightarrow> nat \<Rightarrow> u32 \<Rightarrow> u32 \<Rightarrow> u8 list \<Rightarrow> u8 list \<Rightarrow> 'd \<Rightarrow>
     (bool \<times> u8 list \<times> u8 list \<times> 'd) option" where
  "read_cluster E buffer_size offset this_chunk 0 lba read_in_cluster sector buffer d =
     Some (True, sector, buffer, d)"
| "read_cluster E buffer_size offset this_chunk (Suc n) lba read_in_cluster sector buffer d =
     (if \<not> read_in_cluster < this_chunk then Some (True, sector, buffer, d)
      else case rd_sector E lba sector d of (ok, sector, d) \<Rightarrow>
        if \<not> ok then Some (False, sector, buffer, d)
        else let copy_len = (if this_chunk - read_in_cluster < of_nat BYTES_PER_SECTOR
                             then unat (this_chunk - read_in_cluster) else BYTES_PER_SECTOR)
             in do {
               buffer \<leftarrow> copy_out sector (offset + read_in_cluster) buffer_size copy_len 0 buffer;
               read_cluster E buffer_size offset this_chunk n (lba + 1)
                 (read_in_cluster + of_nat BYTES_PER_SECTOR) sector buffer d
             })"

partial_function (option) read_clusters ::
    "'d sector_io \<Rightarrow> fat16_volume \<Rightarrow> u32 \<Rightarrow> u32 \<Rightarrow> u32 \<Rightarrow> u32 \<Rightarrow> u8 list \<Rightarrow> u8 list \<Rightarrow> 'd \<Rightarrow>
     (bool \<times> u8 list \<times> 'd) option" where
  "read_clusters E V buffer_size cluster offset remaining sector buffer d =
     (if remaining = 0 then Some (True, buffer, d)
      else do {
        let bytes_per_cluster = sectors_per_cluster V * bytes_per_sector V;
        let this_chunk = (if remaining < bytes_per_cluster then remaining else bytes_per_cluster);
        (ok, sector, buffer, d) \<leftarrow> read_cluster E buffer_size offset this_chunk
          (unat (sectors_per_cluster V)) (cluster_to_lba V cluster) 0 sector buffer d;
        if \<not> ok then Some (False, buffer, d)
        else if remaining - this_chunk = 0 then Some (True, buffer, d)
        else do {
          (next, d) \<leftarrow> fat_read_entry E V cluster d;
          if next \<ge> 0xFFF8 then Some (True, buffer, d)
          else read_clusters E V buffer_size (ucast next) (offset + this_chunk)
                 (remaining - this_chunk) sector buffer d
        }
      })"

definition fat16_read_file ::
    "'d sector_io \<Rightarrow> fat16 \<Rightarrow> u32 \<Rightarrow> u32 \<Rightarrow> u8 list \<Rightarrow> u32 \<Rightarrow> 'd \<Rightarrow> (bool \<times> u8 list \<times> 'd) option" where
  "fat16_read_file E F first_cluster sz buffer buffer_size d =
     (if \<not> mounted F then Some (False, buffer, d)
      else if sz = 0 \<or> first_cluster = 0 then Some (True, buffer, d)
      else read_clusters E (vol F) buffer_size first_cluster 0 sz (stack_buf E d) buffer d)"

end
