(* ===== verification/FatTable.thy ===== *)
theory FatTable
  imports Fat16
begin

text \<open>
  The file allocation table: where a volume keeps it (\<open>vol_ok\<close>), the value of an entry in
  each copy (\<open>fatv\<close>), and what reading, writing and allocating an entry do on a block
  device, proved in the locale \<open>block_device\<close>.
\<close>

section \<open>The layout of a volume\<close>

text \<open>
  A volume with 512-byte sectors whose FAT, root directory and data regions follow each
  other without wrapping around, with \<open>N\<close> data clusters that lie below sector \<open>cap\<close>, have
  FAT entries, and have numbers below the end-of-chain markers.
\<close>

definition vol_ok :: "fat16_volume \<Rightarrow> nat \<Rightarrow> u32 \<Rightarrow> bool" where
  "vol_ok V N cap \<longleftrightarrow>
     bytes_per_sector V = 512 \<and> 0 < sectors_per_cluster V \<and> unat (sectors_per_cluster V) < 256 \<and>
     0 < num_fats V \<and> unat (num_fats V) < 256 \<and> unat (fat_size_sectors V) < 65536 \<and>
     unat (root_start V) = unat (fat_start V) + unat (num_fats V) * unat (fat_size_sectors V) \<and>
     unat (data_start V) = unat (root_start V) + unat (root_dir_sectors V) \<and>
     unat (data_start V) + N * unat (sectors_per_cluster V) \<le> unat cap \<and>
     N + 2 \<le> 256 * unat (fat_size_sectors V) \<and> N + 2 \<le> 0xFFF8"

text \<open>The sector and the offset of the entry of cluster \<open>c\<close> in a copy of the FAT.\<close>

definition fat_lba :: "fat16_volume \<Rightarrow> nat \<Rightarrow> nat \<Rightarrow> u32" where
  "fat_lba V copy c = fat_start V + of_nat copy * fat_size_sectors V + of_nat (c div 256)"

definition fat_off :: "nat \<Rightarrow> nat" where
  "fat_off c = 2 * (c mod 256)"

type_synonym disk = "u32 \<Rightarrow> u8 list"

definition fatv :: "fat16_volume \<Rightarrow> disk \<Rightarrow> nat \<Rightarrow> nat \<Rightarrow> u16" where
  "fatv V S copy c = ucast (le16 (S (fat_lba V copy c) ! fat_off c) (S (fat_lba V copy c) ! (fat_off c + 1)))"

definition put_entry :: "nat \<Rightarrow> u16 \<Rightarrow> u8 list \<Rightarrow> u8 list" where
  "put_entry c v s = s[fat_off c := byte_of 0 v, fat_off c + 1 := byte_of 1 v]"

text \<open>The disk with entry \<open>c\<close> set in the copies below \<open>n\<close>.\<close>

primrec put_fat :: "fat16_volume \<Rightarrow> nat \<Rightarrow> u16 \<Rightarrow> nat \<Rightarrow> disk \<Rightarrow> disk" where
  "put_fat V c v 0 S = S"
| "put_fat V c v (Suc n) S =
     (let S = put_fat V c v n S in S(fat_lba V n c := put_entry c v (S (fat_lba V n c))))"

lemma fat_off_bounds: "fat_off c + 1 < 512"
  by (simp add: fat_off_def)

lemma vol_ok_fat_bound:
  assumes "vol_ok V N cap" and "copy < unat (num_fats V)" and "c < 256 * unat (fat_size_sectors V)"
  shows "unat (fat_lba V copy c) = unat (fat_start V) + copy * unat (fat_size_sectors V) + c div 256"
    and "unat (fat_start V) + copy * unat (fat_size_sectors V) + c div 256 < unat (root_start V)"
    and "unat (root_start V) \<le> unat cap"
proof -
  note v = assms(1) [unfolded vol_ok_def]
  have "c div 256 < unat (fat_size_sectors V)" using assms(3) by (simp add: less_mult_imp_div_less mult.commute)
  moreover have "Suc copy * unat (fat_size_sectors V) \<le> unat (num_fats V) * unat (fat_size_sectors V)"
    using assms(2) by (intro mult_le_mono) simp_all
  ultimately show b: "unat (fat_start V) + copy * unat (fat_size_sectors V) + c div 256 < unat (root_start V)"
    using v by simp
  show "unat (root_start V) \<le> unat cap" using v by simp
  have r: "unat (root_start V) < 2 ^ 32" using unsigned_less [of "root_start V", where ?'a = nat] by simp
  have "fat_lba V copy c = of_nat (unat (fat_start V) + copy * unat (fat_size_sectors V) + c div 256)"
    by (simp add: fat_lba_def)
  then show "unat (fat_lba V copy c) = unat (fat_start V) + copy * unat (fat_size_sectors V) + c div 256"
    by (simp only:) (rule unat_of_nat_small, use b r in simp)
qed

lemma fat_lba_less:
  assumes "vol_ok V N cap" and "copy < unat (num_fats V)" and "c < 256 * unat (fat_size_sectors V)"
  shows "fat_lba V copy c < cap" and "unat (fat_start V) \<le> unat (fat_lba V copy c)"
    and "unat (fat_lba V copy c) < unat (root_start V)"
  using vol_ok_fat_bound [OF assms] by (simp_all add: word_less_nat_alt)

lemma mult_add_unique:
  assumes "k * n + a = k' * n + a'" and "a < n" and "a' < (n :: nat)"
  shows "k = k' \<and> a = a'"
proof -
  have "(k * n + a) div n = k" "(k' * n + a') div n = k'" using assms(2,3) by simp_all
  with assms(1) show ?thesis by auto
qed

lemma fat_lba_inj:
  assumes "vol_ok V N cap" and "k < unat (num_fats V)" and "k' < unat (num_fats V)"
    and "c < 256 * unat (fat_size_sectors V)" and "c' < 256 * unat (fat_size_sectors V)"
    and "fat_lba V k c = fat_lba V k' c'"
  shows "k = k' \<and> c div 256 = c' div 256"
proof -
  let ?n = "unat (fat_size_sectors V)"
  have "k * ?n + c div 256 = k' * ?n + c' div 256"
    using vol_ok_fat_bound(1) [OF assms(1,2,4)] vol_ok_fat_bound(1) [OF assms(1,3,5)] assms(6) by simp
  moreover have "c div 256 < ?n" "c' div 256 < ?n"
    using assms(4,5) by (simp_all add: less_mult_imp_div_less mult.commute)
  ultimately show ?thesis by (rule mult_add_unique)
qed

lemma length_put_entry [simp]: "length (put_entry c v s) = length s"
  by (simp add: put_entry_def)

lemma put_fat_length: "length (S lba) = 512 \<Longrightarrow> length (put_fat V c v n S lba) = 512"
  by (induction n) (auto simp: Let_def)

lemma put_fat_other:
  "(\<forall>k < n. lba \<noteq> fat_lba V k c) \<Longrightarrow> put_fat V c v n S lba = S lba"
  by (induction n) (auto simp: Let_def)

lemma put_fat_at:
  assumes "vol_ok V N cap" and "c < 256 * unat (fat_size_sectors V)" and "n \<le> unat (num_fats V)" and "k < n"
  shows "put_fat V c v n S (fat_lba V k c) = put_entry c v (S (fat_lba V k c))"
  using assms(3,4)
proof (induction n)
  case (Suc n)
  show ?case
  proof (cases "k = n")
    case True
    have "put_fat V c v n S (fat_lba V n c) = S (fat_lba V n c)"
    proof (intro put_fat_other allI impI notI)
      fix j assume "j < n" "fat_lba V n c = fat_lba V j c"
      then show False using fat_lba_inj [OF assms(1) _ _ assms(2,2), of n j] Suc.prems(1) by simp
    qed
    with True show ?thesis by (simp add: Let_def)
  next
    case False
    then have "fat_lba V k c \<noteq> fat_lba V n c" "k < n"
      using fat_lba_inj [OF assms(1) _ _ assms(2,2), of k n] Suc.prems by auto
    with Suc show ?thesis by (simp add: Let_def)
  qed
qed simp

lemma fatv_put_fat:
  assumes "vol_ok V N cap" and "c < 256 * unat (fat_size_sectors V)" and "c' < 256 * unat (fat_size_sectors V)"
    and "k < unat (num_fats V)" and len: "\<And>lba. length (S lba) = 512"
  shows "fatv V (put_fat V c v (unat (num_fats V)) S) k c' = (if c' = c then v else fatv V S k c')"
proof (cases "fat_lba V k c' = fat_lba V k c")
  case True
  then have div: "c' div 256 = c div 256" using fat_lba_inj [OF assms(1,4,4,3,2)] by simp
  have at: "put_fat V c v (unat (num_fats V)) S (fat_lba V k c) = put_entry c v (S (fat_lba V k c))"
    by (rule put_fat_at [OF assms(1,2) order_refl assms(4)])
  show ?thesis
  proof (cases "c' = c")
    case True
    then show ?thesis
      using at len fat_off_bounds [of c]
      by (simp add: fatv_def put_entry_def nth_list_update le16_bytes)
  next
    case False
    with div have "c' mod 256 \<noteq> c mod 256"
      using div_mult_mod_eq [of c' 256] div_mult_mod_eq [of c 256] by auto
    then have "fat_off c' \<noteq> fat_off c" "fat_off c' \<noteq> fat_off c + 1" "fat_off c' + 1 \<noteq> fat_off c"
      unfolding fat_off_def by arith+
    with False at True show ?thesis by (simp add: fatv_def put_entry_def nth_list_update)
  qed
next
  case False
  then have "fat_lba V k c' \<noteq> fat_lba V j c" if "j < unat (num_fats V)" for j
    using fat_lba_inj [OF assms(1,4) that assms(3,2)] by auto
  then show ?thesis using False by (auto simp: fatv_def put_fat_other)
qed

text \<open>Updating the table leaves the sectors outside of it alone.\<close>

lemma put_fat_outside:
  assumes "vol_ok V N cap" and "c < 256 * unat (fat_size_sectors V)"
    and "unat lba < unat (fat_start V) \<or> unat (root_start V) \<le> unat lba"
  shows "put_fat V c v (unat (num_fats V)) S lba = S lba"
  by (rule put_fat_other) (use fat_lba_less(2,3) [OF assms(1) _ assms(2)] assms(3) in force)

section \<open>The table on a block device\<close>

lemma fat_index:
  assumes "c < 2 ^ 24"
  shows "(of_nat c * 2 :: u32) div 512 = of_nat (c div 256)"
    and "unat ((of_nat c * 2 :: u32) mod 512) = fat_off c"
proof -
  have u: "unat (of_nat c * 2 :: u32) = 2 * c"
    using assms by (simp add: unat_word_ariths unat_of_nat)
  have "unat ((of_nat c * 2 :: u32) div 512) = c div 256"
    by (simp add: unat_div_distrib u)
  moreover have "unat (of_nat (c div 256) :: u32) = c div 256"
    by (rule unat_of_nat_small) (use assms in simp)
  ultimately show "(of_nat c * 2 :: u32) div 512 = of_nat (c div 256)" by (simp only: word_unat_eq_iff)
  have "unat ((of_nat c * 2 :: u32) mod 512) = (2 * c) mod (2 * 256)"
    by (simp add: unat_mod_distrib u)
  then show "unat ((of_nat c * 2 :: u32) mod 512) = fat_off c"
    by (simp only: fat_off_def mult_mod_right)
qed

lemma vol_ok_entries: "vol_ok V N C \<Longrightarrow> c < 256 * unat (fat_size_sectors V) \<Longrightarrow> c < 2 ^ 24"
  by (simp add: vol_ok_def)

context block_device
begin

text \<open>The state of the device as seen by its clients.\<close>

definition disk_is :: "'d \<Rightarrow> disk \<Rightarrow> u32 \<Rightarrow> bool" where
  "disk_is d S C \<longleftrightarrow> ok d \<and> sec d = S \<and> cap d = C"

lemma disk_read:
  assumes "disk_is d S C" and "lba < C" and "length buf = 512"
  obtains d' where "rd_sector E lba buf d = (True, S lba, d')" and "disk_is d' S C"
  using read_ok [of d lba buf] assms that by (auto simp: disk_is_def)

lemma disk_write:
  assumes "disk_is d S C" and "lba < C" and "length buf = 512"
  obtains d' where "wr_sector E lba buf d = (True, d')" and "disk_is d' (S(lba := buf)) C"
  using write_ok [of d lba buf] assms that by (auto simp: disk_is_def)

lemma disk_lengths:
  assumes "disk_is d S C"
  shows "length (S lba) = 512" and "length (stack_buf E d) = 512"
  using assms sec_length stack_length by (auto simp: disk_is_def)

lemma fat_read_ok:
  assumes "disk_is d S C" and "vol_ok V N C" and "c < 256 * unat (fat_size_sectors V)"
  obtains d' where "fat_read_entry E V (of_nat c) d = Some (fatv V S 0 c, d')" and "disk_is d' S C"
proof -
  have n: "0 < unat (num_fats V)" and b: "bytes_per_sector V = 512"
    using assms(2) by (simp_all add: vol_ok_def unat_gt_0 word_gt_0)
  have "fat_lba V 0 c < C" by (rule fat_lba_less(1) [OF assms(2) n assms(3)])
  then obtain d' where "rd_sector E (fat_lba V 0 c) (stack_buf E d) d = (True, S (fat_lba V 0 c), d')" "disk_is d' S C"
    using disk_read [OF assms(1) _ disk_lengths(2) [OF assms(1)]] by blast
  moreover have "fat_start V + (of_nat c * 2) div 512 = fat_lba V 0 c" "unat ((of_nat c * 2 :: u32) mod 512) = fat_off c"
    using fat_index [OF vol_ok_entries [OF assms(2,3)]] by (simp_all add: fat_lba_def)
  ultimately show ?thesis
    using that disk_lengths(1) [OF assms(1)] fat_off_bounds [of c] b
    by (simp add: fat_read_entry_def fatv_def Let_def)
qed

lemma write_copies_ok:
  assumes "vol_ok V N C" and "c < 256 * unat (fat_size_sectors V)"
    and "disk_is d (put_fat V c v k S) C" and "k + n = unat (num_fats V)"
  shows "\<exists>d'. write_copies E V (of_nat (c div 256)) (fat_off c) v n (of_nat k) d = Some d' \<and>
    disk_is d' (put_fat V c v (k + n) S) C"
  using assms(3,4)
proof (induction n arbitrary: k d)
  case (Suc n)
  let ?S = "put_fat V c v k S" and ?lba = "fat_lba V k c"
  note len = disk_lengths [OF Suc.prems(1)]
  have lba: "?lba < C" by (rule fat_lba_less(1) [OF assms(1) _ assms(2)]) (use Suc.prems(2) in simp)
  obtain d1 where d1: "rd_sector E ?lba (stack_buf E d) d = (True, ?S ?lba, d1)" "disk_is d1 ?S C"
    by (rule disk_read [OF Suc.prems(1) lba len(2)])
  obtain d2 where d2: "wr_sector E ?lba (put_entry c v (?S ?lba)) d1 = (True, d2)"
    "disk_is d2 (?S(?lba := put_entry c v (?S ?lba))) C"
    by (rule disk_write [OF d1(2) lba, of "put_entry c v (?S ?lba)"]) (use len(1) in simp_all)
  have "disk_is d2 (put_fat V c v (Suc k) S) C" using d2(2) by (simp add: Let_def)
  then have IH: "\<exists>d'. write_copies E V (of_nat (c div 256)) (fat_off c) v n (of_nat (Suc k)) d2 = Some d' \<and>
    disk_is d' (put_fat V c v (Suc k + n) S) C"
    by (rule Suc.IH) (use Suc.prems(2) in simp)
  have addr: "fat_start V + of_nat k * fat_size_sectors V + of_nat (c div 256) = ?lba"
    by (simp add: fat_lba_def)
  have "write_copies E V (of_nat (c div 256)) (fat_off c) v (Suc n) (of_nat k) d =
      write_copies E V (of_nat (c div 256)) (fat_off c) v n (of_nat (Suc k)) d2"
    using d1(1) d2(1) len(1) fat_off_bounds [of c] by (simp add: addr put_entry_def Let_def add.commute)
  with IH show ?case by (simp only: add_Suc_shift)
qed simp

lemma fat_write_ok:
  assumes "disk_is d S C" and "vol_ok V N C" and "c < 256 * unat (fat_size_sectors V)"
  obtains d' where "fat_write_entry E V (of_nat c) v d = Some d'"
    and "disk_is d' (put_fat V c v (unat (num_fats V)) S) C"
proof -
  have "disk_is d (put_fat V c v 0 S) C" using assms(1) by simp
  from write_copies_ok [OF assms(2,3) this, of "unat (num_fats V)"]
  obtain d' where "write_copies E V (of_nat (c div 256)) (fat_off c) v (unat (num_fats V)) 0 d = Some d'"
    "disk_is d' (put_fat V c v (unat (num_fats V)) S) C" by auto
  moreover have "bytes_per_sector V = 512" using assms(2) by (simp add: vol_ok_def)
  ultimately show ?thesis
    using that fat_index [OF vol_ok_entries [OF assms(2,3)]] by (simp add: fat_write_entry_def)
qed

text \<open>The scan of the allocator from \<open>c\<close> with \<open>n\<close> entries left.\<close>

lemma alloc_scan_ok:
  assumes "vol_ok V N C" and "c + n \<le> 256 * unat (fat_size_sectors V)" and "disk_is d S C"
  shows "\<exists>r d'. alloc_scan E V n (of_nat c) d = Some (r, d') \<and>
    (if \<forall>j \<in> {c ..< c + n}. fatv V S 0 j \<noteq> 0 then r = 0 \<and> disk_is d' S C
     else let j = (LEAST j. c \<le> j \<and> fatv V S 0 j = 0)
          in r = of_nat j \<and> disk_is d' (put_fat V j 0xFFFF (unat (num_fats V)) S) C)"
  using assms(2,3)
proof (induction n arbitrary: c d)
  case (Suc n)
  have c: "c < 256 * unat (fat_size_sectors V)" using Suc.prems(1) by simp
  obtain d1 where d1: "fat_read_entry E V (of_nat c) d = Some (fatv V S 0 c, d1)" "disk_is d1 S C"
    by (rule fat_read_ok [OF Suc.prems(2) assms(1) c])
  show ?case
  proof (cases "fatv V S 0 c = 0")
    case True
    obtain d2 where d2: "fat_write_entry E V (of_nat c) 0xFFFF d1 = Some d2"
      "disk_is d2 (put_fat V c 0xFFFF (unat (num_fats V)) S) C"
      by (rule fat_write_ok [OF d1(2) assms(1) c])
    have "(LEAST j. c \<le> j \<and> fatv V S 0 j = 0) = c" using True by (intro Least_equality) auto
    with True d1 d2 show ?thesis by (auto simp: Let_def)
  next
    case False
    then have "(\<lambda>j. c \<le> j \<and> fatv V S 0 j = 0) = (\<lambda>j. Suc c \<le> j \<and> fatv V S 0 j = 0)"
      by (auto simp: fun_eq_iff le_less Suc_le_eq)
    moreover have "{c ..< c + Suc n} = insert c {Suc c ..< Suc c + n}" by auto
    then have "(\<forall>j \<in> {c ..< c + Suc n}. fatv V S 0 j \<noteq> 0) = (\<forall>j \<in> {Suc c ..< Suc c + n}. fatv V S 0 j \<noteq> 0)"
      using False by (simp only: ball_simps simp_thms)
    moreover have "alloc_scan E V (Suc n) (of_nat c) d = alloc_scan E V n (of_nat (Suc c)) d1"
      using d1(1) False by (simp add: add.commute)
    moreover have "Suc c + n \<le> 256 * unat (fat_size_sectors V)" using Suc.prems(1) by simp
    ultimately show ?thesis using Suc.IH [OF _ d1(2), of "Suc c"] by (simp only:)
  qed
qed simp

end

text \<open>The first free cluster, when one of the \<open>N\<close> data clusters is free.\<close>

definition first_free :: "fat16_volume \<Rightarrow> disk \<Rightarrow> nat" where
  "first_free V S = (LEAST j. 2 \<le> j \<and> fatv V S 0 j = 0)"

definition free_clusters :: "fat16_volume \<Rightarrow> nat \<Rightarrow> disk \<Rightarrow> nat set" where
  "free_clusters V N S = {c \<in> {2 ..< N + 2}. fatv V S 0 c = 0}"

lemma first_free:
  assumes "free_clusters V N S \<noteq> {}"
  shows "first_free V S \<in> free_clusters V N S" and "\<And>c. c \<in> free_clusters V N S \<Longrightarrow> first_free V S \<le> c"
proof -
  obtain c where c: "2 \<le> c" "c < N + 2" "fatv V S 0 c = 0" using assms by (auto simp: free_clusters_def)
  then have "2 \<le> first_free V S \<and> fatv V S 0 (first_free V S) = 0"
    unfolding first_free_def by (intro LeastI) auto
  moreover have le: "first_free V S \<le> j" if "2 \<le> j" "fatv V S 0 j = 0" for j
    unfolding first_free_def using that by (intro Least_le) simp
  ultimately show "first_free V S \<in> free_clusters V N S"
    using le [OF c(1,3)] c(2) by (auto simp: free_clusters_def)
  show "first_free V S \<le> c" if "c \<in> free_clusters V N S" for c
    using that le by (auto simp: free_clusters_def)
qed

lemma free_clusters_put_fat:
  assumes "vol_ok V N C" and "c \<in> {2 ..< N + 2}" and "v \<noteq> 0" and "\<And>lba. length (S lba) = 512"
  shows "free_clusters V N (put_fat V c v (unat (num_fats V)) S) = free_clusters V N S - {c}"
proof -
  have "0 < unat (num_fats V)" "N + 2 \<le> 256 * unat (fat_size_sectors V)"
    using assms(1) by (simp_all add: vol_ok_def unat_gt_0 word_gt_0)
  then have "fatv V (put_fat V c v (unat (num_fats V)) S) 0 c' = (if c' = c then v else fatv V S 0 c')"
    if "c' < N + 2" for c'
    using fatv_put_fat [OF assms(1) _ _ _ assms(4)] that assms(2) by auto
  then show ?thesis using assms(2,3) by (auto simp: free_clusters_def split: if_splits)
qed

context block_device
begin

lemma fat_alloc_ok:
  assumes "disk_is d S C" and "vol_ok V N C" and "free_clusters V N S \<noteq> {}"
  obtains d' where "fat_alloc_cluster E V d = Some (of_nat (first_free V S), d')"
    and "disk_is d' (put_fat V (first_free V S) 0xFFFF (unat (num_fats V)) S) C"
proof -
  let ?n = "256 * unat (fat_size_sectors V)"
  have v: "bytes_per_sector V = 512" "N + 2 \<le> ?n" "unat (fat_size_sectors V) < 65536"
    using assms(2) by (simp_all add: vol_ok_def)
  have "unat ((fat_size_sectors V * 512) div 2) = ?n"
    using v(3) by (simp add: unat_div_distrib unat_mult_nowrap)
  moreover have "first_free V S \<in> {2 ..< 2 + (?n - 2)}" "fatv V S 0 (first_free V S) = 0"
    using first_free(1) [OF assms(3)] v(2) by (auto simp: free_clusters_def)
  moreover have "2 + (?n - 2) \<le> ?n" using v(2) by simp
  ultimately show ?thesis
    using alloc_scan_ok [OF assms(2) _ assms(1), of 2 "?n - 2"] that v(1)
    by (auto simp: fat_alloc_cluster_def first_free_def Let_def split: if_splits)
qed

lemma fat_alloc_full:
  assumes "disk_is d S C" and "vol_ok V N C"
    and "\<forall>c \<in> {2 ..< 256 * unat (fat_size_sectors V)}. fatv V S 0 c \<noteq> 0"
  obtains d' where "fat_alloc_cluster E V d = Some (0, d')" and "disk_is d' S C"
proof -
  let ?n = "256 * unat (fat_size_sectors V)"
  have v: "bytes_per_sector V = 512" "2 \<le> ?n" "unat (fat_size_sectors V) < 65536"
    using assms(2) by (simp_all add: vol_ok_def)
  have "unat ((fat_size_sectors V * 512) div 2) = ?n"
    using v(3) by (simp add: unat_div_distrib unat_mult_nowrap)
  moreover have "2 + (?n - 2) = ?n" using v(2) by simp
  ultimately show ?thesis
    using alloc_scan_ok [OF assms(2) _ assms(1), of 2 "?n - 2"] assms(3) v(1) that
    by (auto simp: fat_alloc_cluster_def)
qed

end

end
