(* ===== verification/FatFiles.thy ===== *)
theory FatFiles
  imports FatTable
begin

text \<open>
  The contents of files: buffers, clusters and their sectors, the chain of clusters of a
  file and the bytes it holds, the frame (\<open>touches\<close>), and that the writing and reading
  loops of \<^verbatim>\<open>kernel/fs/fat16.c\<close> store and deliver exactly those bytes.
\<close>

section \<open>Buffers\<close>

lemma store_at_Nil [simp]: "store_at k [] xs = xs"
  by (simp add: store_at_def)

lemma store_at_append:
  "k + length ys + length zs \<le> length xs \<Longrightarrow>
    store_at (k + length ys) zs (store_at k ys xs) = store_at k (ys @ zs) xs"
  by (simp add: store_at_def add.assoc add.commute [of "length zs"])

lemma list_update_store_at: "k < length xs \<Longrightarrow> xs[k := v] = store_at k [v] xs"
  by (simp add: store_at_def upd_conv_take_nth_drop)

lemma u32_index:
  assumes "unat (base :: u32) + b < 2 ^ 32"
  shows "unat (base + of_nat b) = unat base + b"
proof -
  have "unat (of_nat b :: u32) = b" by (rule unat_of_nat_small) (use assms in simp)
  with assms show ?thesis by (subst unat_add_nowrap) simp_all
qed

lemma copy_in_ok:
  assumes "unat base + b + n \<le> length data" and "length data < 2 ^ 32" and "b + n \<le> length sector"
  shows "copy_in data base n b sector = Some (store_at b (take n (drop (unat base + b) data)) sector)"
  using assms
proof (induction n arbitrary: b sector)
  case (Suc n)
  let ?v = "data ! (unat base + b)"
  have idx: "unat (base + of_nat b) = unat base + b"
    by (rule u32_index) (use Suc.prems in simp)
  have split: "take (Suc n) (drop (unat base + b) data) = [?v] @ take n (drop (unat base + Suc b) data)"
    using Suc.prems(1) by (simp add: Cons_nth_drop_Suc [symmetric])
  have "copy_in data base (Suc n) b sector = copy_in data base n (Suc b) (sector[b := ?v])"
    using Suc.prems idx by simp
  also have "\<dots> = Some (store_at (b + length [?v]) (take n (drop (unat base + Suc b) data)) (store_at b [?v] sector))"
    using Suc.IH [of "Suc b" "sector[b := ?v]"] Suc.prems list_update_store_at [of b sector ?v] by simp
  also have "\<dots> = Some (store_at b (take (Suc n) (drop (unat base + b) data)) sector)"
    unfolding split using Suc.prems by (subst store_at_append) simp_all
  finally show ?case .
qed simp

text \<open>Copying \<open>src\<close> to offset \<open>k\<close> of a buffer, cut off at \<open>m\<close>.\<close>

definition blit :: "nat \<Rightarrow> nat \<Rightarrow> u8 list \<Rightarrow> u8 list \<Rightarrow> u8 list" where
  "blit m k src buf = store_at k (take (m - k) src) buf"

lemma length_blit [simp]: "m \<le> length buf \<Longrightarrow> length (blit m k src buf) = length buf"
  unfolding blit_def by (cases "k \<le> m") (auto intro!: length_store_at)

lemma blit_append:
  assumes "m \<le> length buf"
  shows "blit m (k + length xs) ys (blit m k xs buf) = blit m k (xs @ ys) buf"
proof (cases "k + length xs \<le> m")
  case True
  then have "take (m - k) (xs @ ys) = xs @ take (m - (k + length xs)) ys" "take (m - k) xs = xs"
    by (simp_all add: diff_diff_add)
  with True assms show ?thesis unfolding blit_def by (simp add: store_at_append)
next
  case False
  then show ?thesis by (simp add: blit_def)
qed

lemma copy_out_ok:
  assumes "unat base + b + n \<le> 2 ^ 32" and "b + n \<le> length sector" and "unat m \<le> length buffer"
  shows "copy_out sector base m n b buffer =
    Some (blit (unat m) (unat base + b) (take n (drop b sector)) buffer)"
  using assms
proof (induction n arbitrary: b buffer)
  case 0
  then show ?case by (simp add: blit_def)
next
  case (Suc n)
  let ?v = "sector ! b"
  have idx: "unat (base + of_nat b) = unat base + b"
    by (rule u32_index) (use Suc.prems in simp)
  have split: "take (Suc n) (drop b sector) = [?v] @ take n (drop (Suc b) sector)"
    using Suc.prems(2) by (simp add: Cons_nth_drop_Suc [symmetric])
  have "copy_out sector base m (Suc n) b buffer =
      copy_out sector base m n (Suc b) (blit (unat m) (unat base + b) [?v] buffer)"
    using Suc.prems idx
    by (auto simp: Let_def word_less_nat_alt blit_def list_update_store_at take_Cons')
  also have "\<dots> = Some (blit (unat m) (unat base + b + length [?v]) (take n (drop (Suc b) sector))
      (blit (unat m) (unat base + b) [?v] buffer))"
    using Suc.IH [of "Suc b" "blit (unat m) (unat base + b) [?v] buffer"] Suc.prems by simp
  finally show ?case unfolding split using Suc.prems(3) by (simp only: blit_append)
qed

section \<open>Runs of sectors\<close>

primrec put_sectors :: "u32 \<Rightarrow> (nat \<Rightarrow> u8 list) \<Rightarrow> nat \<Rightarrow> disk \<Rightarrow> disk" where
  "put_sectors lba g 0 S = S"
| "put_sectors lba g (Suc n) S = (put_sectors lba g n S)(lba + of_nat n := g n)"

declare put_sectors.simps(2) [simp del]

lemma put_sectors_at:
  assumes "unat lba + n \<le> 2 ^ 32"
  shows "put_sectors lba g n S x =
    (if unat lba \<le> unat x \<and> unat x < unat lba + n then g (unat x - unat lba) else S x)"
  using assms
proof (induction n)
  case (Suc n)
  have u: "unat (lba + of_nat n) = unat lba + n" by (rule u32_index) (use Suc.prems in simp)
  then have "x = lba + of_nat n \<longleftrightarrow> unat x = unat lba + n" by (simp only: word_unat_eq_iff)
  with Suc u show ?case by (auto simp: put_sectors.simps(2))
qed auto

text \<open>The clusters of the data region.\<close>

lemma cluster_addr:
  assumes "vol_ok V N C" and "c \<in> {2 ..< N + 2}"
  shows "unat (cluster_to_lba V (of_nat c)) = unat (data_start V) + (c - 2) * unat (sectors_per_cluster V)"
    and "unat (data_start V) + (c - 2) * unat (sectors_per_cluster V) + unat (sectors_per_cluster V) \<le> unat C"
proof -
  let ?n = "unat (sectors_per_cluster V)"
  have v: "unat (data_start V) + N * ?n \<le> unat C" "N + 2 \<le> 0xFFF8" using assms(1) by (simp_all add: vol_ok_def)
  have "Suc (c - 2) * ?n \<le> N * ?n" using assms(2) by (intro mult_le_mono) auto
  with v show b: "unat (data_start V) + (c - 2) * ?n + ?n \<le> unat C" by simp
  have "0 < ?n" using assms(1) by (simp add: vol_ok_def unat_gt_0 word_gt_0)
  with b have lt: "unat (data_start V) + (c - 2) * ?n < 2 ^ 32"
    using unsigned_less [of C, where ?'a = nat] by simp
  have "(of_nat c :: u32) - 2 = of_nat (c - 2)" using assms(2) by (simp add: of_nat_diff)
  then have "cluster_to_lba V (of_nat c) = of_nat (unat (data_start V) + (c - 2) * ?n)"
    by (simp add: cluster_to_lba_def)
  then show "unat (cluster_to_lba V (of_nat c)) = unat (data_start V) + (c - 2) * ?n"
    by (simp only:) (rule unat_of_nat_small, use lt in simp)
qed

lemma cluster_disjoint:
  assumes "vol_ok V N C" and "c \<in> {2 ..< N + 2}" and "c' \<in> {2 ..< N + 2}" and "c \<noteq> c'"
    and "s < unat (sectors_per_cluster V)" and "s' < unat (sectors_per_cluster V)"
  shows "unat (cluster_to_lba V (of_nat c)) + s \<noteq> unat (cluster_to_lba V (of_nat c')) + s'"
proof
  assume "unat (cluster_to_lba V (of_nat c)) + s = unat (cluster_to_lba V (of_nat c')) + s'"
  then have "(c - 2) * unat (sectors_per_cluster V) + s = (c' - 2) * unat (sectors_per_cluster V) + s'"
    using cluster_addr(1) [OF assms(1,2)] cluster_addr(1) [OF assms(1,3)] by simp
  with mult_add_unique [OF this assms(5,6)] assms(2-4) show False by auto
qed

definition cluster_data :: "fat16_volume \<Rightarrow> disk \<Rightarrow> nat \<Rightarrow> u8 list" where
  "cluster_data V S c =
     concat (map (\<lambda>s. S (cluster_to_lba V (of_nat c) + of_nat s)) [0 ..< unat (sectors_per_cluster V)])"

text \<open>Writing the bytes \<open>P\<close> to a cluster.\<close>

definition put_cluster :: "fat16_volume \<Rightarrow> nat \<Rightarrow> u8 list \<Rightarrow> disk \<Rightarrow> disk" where
  "put_cluster V c P S = put_sectors (cluster_to_lba V (of_nat c)) (\<lambda>i. take 512 (drop (512 * i) P))
     (unat (sectors_per_cluster V)) S"

lemma concat_chunks: "length P = 512 * n \<Longrightarrow> concat (map (\<lambda>i. take 512 (drop (512 * i) P)) [0 ..< n]) = P"
proof (induction n arbitrary: P rule: nat_induct)
  case (Suc n)
  have "concat (map (\<lambda>i. take 512 (drop (512 * i) P)) [0 ..< n]) =
      concat (map (\<lambda>i. take 512 (drop (512 * i) (take (512 * n) P))) [0 ..< n])"
    by (rule arg_cong [where f = concat], rule map_cong) (auto simp: drop_take min_def)
  also have "\<dots> = take (512 * n) P" using Suc.IH [of "take (512 * n) P"] Suc.prems by simp
  finally show ?case using Suc.prems by simp
qed simp

lemma cluster_data_put:
  assumes "vol_ok V N C" and "c \<in> {2 ..< N + 2}" and "c' \<in> {2 ..< N + 2}"
    and "length P = 512 * unat (sectors_per_cluster V)"
  shows "cluster_data V (put_cluster V c P S) c' = (if c' = c then P else cluster_data V S c')"
proof -
  let ?n = "unat (sectors_per_cluster V)" and ?g = "\<lambda>i. take 512 (drop (512 * i) P)"
  have C: "unat C < 2 ^ 32" using unsigned_less [of C, where ?'a = nat] by simp
  note b = cluster_addr [OF assms(1,2)] and b' = cluster_addr [OF assms(1,3)]
  have u': "unat (cluster_to_lba V (of_nat c') + of_nat s) = unat (cluster_to_lba V (of_nat c')) + s"
    if "s < ?n" for s by (rule u32_index) (use b' C that in simp)
  have at: "put_cluster V c P S (cluster_to_lba V (of_nat c') + of_nat s) =
      (if c' = c then ?g s else S (cluster_to_lba V (of_nat c') + of_nat s))" if s: "s < ?n" for s
  proof -
    have "put_cluster V c P S x = (if unat (cluster_to_lba V (of_nat c)) \<le> unat x \<and>
        unat x < unat (cluster_to_lba V (of_nat c)) + ?n then ?g (unat x - unat (cluster_to_lba V (of_nat c))) else S x)" for x
      unfolding put_cluster_def by (rule put_sectors_at) (use b C in simp)
    moreover have "\<not> (unat (cluster_to_lba V (of_nat c)) \<le> unat (cluster_to_lba V (of_nat c')) + s \<and>
        unat (cluster_to_lba V (of_nat c')) + s < unat (cluster_to_lba V (of_nat c)) + ?n)" if "c' \<noteq> c"
      using cluster_disjoint [OF assms(1,2,3) that [symmetric] _ s,
          of "unat (cluster_to_lba V (of_nat c')) + s - unat (cluster_to_lba V (of_nat c))"] by linarith
    ultimately show ?thesis using u' [OF s] s by auto
  qed
  have "cluster_data V (put_cluster V c P S) c' =
      concat (map (\<lambda>s. if c' = c then ?g s else S (cluster_to_lba V (of_nat c') + of_nat s)) [0 ..< ?n])"
    unfolding cluster_data_def by (rule arg_cong [where f = concat], rule map_cong) (auto simp: at)
  then show ?thesis using concat_chunks [OF assms(4)] by (simp add: cluster_data_def)
qed

lemma put_cluster_outside:
  assumes "vol_ok V N C" and "c \<in> {2 ..< N + 2}" and "unat x < unat (data_start V)"
  shows "put_cluster V c P S x = S x"
proof -
  have "unat C < 2 ^ 32" using unsigned_less [of C, where ?'a = nat] by simp
  then show ?thesis
    using cluster_addr [OF assms(1,2)] assms(3) unfolding put_cluster_def by (subst put_sectors_at) auto
qed

section \<open>Writing a cluster\<close>

lemma zero_sector_512: "length buf = 512 \<Longrightarrow> zero_sector buf = replicate 512 0"
  by (simp add: zero_sector_def)

text \<open>What a cluster holds after the chunk of \<open>ch\<close> bytes from \<open>off\<close> on was written to it.\<close>

definition padded_chunk :: "u8 list \<Rightarrow> nat \<Rightarrow> nat \<Rightarrow> nat \<Rightarrow> u8 list" where
  "padded_chunk data off ch n = take ch (drop off data) @ replicate (512 * n - ch) 0"

lemma length_padded_chunk:
  "off + ch \<le> length data \<Longrightarrow> ch \<le> 512 * n \<Longrightarrow> length (padded_chunk data off ch n) = 512 * n"
  by (simp add: padded_chunk_def)

lemma padded_chunk_sector:
  assumes "off + ch \<le> length data" and "ch \<le> 512 * n" and "i < n"
  shows "512 * i < ch \<Longrightarrow> take 512 (drop (512 * i) (padded_chunk data off ch n)) =
      store_at 0 (take (min (ch - 512 * i) 512) (drop (off + 512 * i) data)) (replicate 512 0)"
    and "\<not> 512 * i < ch \<Longrightarrow> take 512 (drop (512 * i) (padded_chunk data off ch n)) = replicate 512 0"
proof -
  have le: "512 * i + 512 \<le> 512 * n" using assms(3) by simp
  show "take 512 (drop (512 * i) (padded_chunk data off ch n)) =
      store_at 0 (take (min (ch - 512 * i) 512) (drop (off + 512 * i) data)) (replicate 512 0)" if i: "512 * i < ch"
  proof (rule nth_equalityI)
    show len: "length (take 512 (drop (512 * i) (padded_chunk data off ch n))) =
        length (store_at 0 (take (min (ch - 512 * i) 512) (drop (off + 512 * i) data)) (replicate 512 0))"
      using assms le length_padded_chunk [OF assms(1,2)] by (auto simp: store_at_def min_def)
    fix j assume "j < length (take 512 (drop (512 * i) (padded_chunk data off ch n)))"
    then have j: "j < 512" by simp
    then show "take 512 (drop (512 * i) (padded_chunk data off ch n)) ! j =
        store_at 0 (take (min (ch - 512 * i) 512) (drop (off + 512 * i) data)) (replicate 512 0) ! j"
      using assms le i length_padded_chunk [OF assms(1,2)]
      by (subst nth_store_at) (auto simp: padded_chunk_def nth_append add.assoc)
  qed
  show "take 512 (drop (512 * i) (padded_chunk data off ch n)) = replicate 512 0" if "\<not> 512 * i < ch"
    using that assms le by (simp add: padded_chunk_def)
qed

context block_device
begin

lemma write_run_ok:
  assumes "disk_is d (put_sectors lba (\<lambda>_. sector) i S) C" and "unat lba + i + n \<le> unat C" and "length sector = 512"
  shows "\<exists>d'. write_run E sector n (lba + of_nat i) d = (True, d') \<and>
    disk_is d' (put_sectors lba (\<lambda>_. sector) (i + n) S) C"
  using assms(1,2)
proof (induction n arbitrary: i d)
  case (Suc n)
  have "unat lba + i < 2 ^ 32" using Suc.prems(2) unsigned_less [of C, where ?'a = nat] by simp
  from u32_index [OF this] have "lba + of_nat i < C" using Suc.prems(2) by (simp add: word_less_nat_alt)
  then obtain d1 where d1: "wr_sector E (lba + of_nat i) sector d = (True, d1)"
    "disk_is d1 ((put_sectors lba (\<lambda>_. sector) i S)(lba + of_nat i := sector)) C"
    using disk_write [OF Suc.prems(1) _ assms(3)] by blast
  have "\<exists>d'. write_run E sector n (lba + of_nat (Suc i)) d1 = (True, d') \<and>
      disk_is d' (put_sectors lba (\<lambda>_. sector) (Suc i + n) S) C"
    by (rule Suc.IH) (use d1(2) Suc.prems(2) in \<open>simp_all only: put_sectors.simps add_Suc_right add_Suc\<close>)
  with d1(1) show ?case by (simp add: ac_simps)
qed simp

lemma write_cluster_loop:
  assumes "off = unat offset" and "ch = unat chunk" and "off + ch \<le> length data" and "length data < 2 ^ 32"
    and "ch \<le> 512 * m" and "m < 256" and "unat lba + m \<le> unat C"
    and "disk_is d (put_sectors lba (\<lambda>i. take 512 (drop (512 * i) (padded_chunk data off ch m))) i S) C"
    and "i + n = m"
  shows "\<exists>d'. write_cluster E data offset chunk n (lba + of_nat i) (of_nat (512 * i)) d = Some (True, d') \<and>
    disk_is d' (put_sectors lba (\<lambda>i. take 512 (drop (512 * i) (padded_chunk data off ch m))) m S) C"
  using assms(8,9)
proof (induction n arbitrary: i d)
  case (Suc n)
  let ?g = "\<lambda>i. take 512 (drop (512 * i) (padded_chunk data off ch m))"
  define w where "w = (of_nat (512 * i) :: u32)"
  have im: "i < m" using Suc.prems(2) by simp
  have w: "unat w = 512 * i" unfolding w_def by (rule unat_of_nat_small) (use im assms(6) in simp)
  have "unat lba + i < 2 ^ 32" using assms(7) im unsigned_less [of C, where ?'a = nat] by simp
  from u32_index [OF this] have lba: "lba + of_nat i < C" using assms(7) im by (simp add: word_less_nat_alt)
  note sect = padded_chunk_sector [OF assms(3,5) im]
  have z: "zero_sector (stack_buf E d) = replicate 512 0"
    using zero_sector_512 disk_lengths(2) [OF Suc.prems(1)] .
  have g: "(if w < chunk
      then let copy_len = (if chunk - w < of_nat 512 then unat (chunk - w) else 512)
           in copy_in data (offset + w) copy_len 0 (replicate 512 0)
      else Some (replicate 512 0)) = Some (?g i)"
  proof (cases "w < chunk")
    case True
    then have lt: "512 * i < ch" using w assms(2) by (simp add: word_less_nat_alt)
    have diff: "unat (chunk - w) = ch - 512 * i" using True assms(2) w by (simp add: unat_sub order_less_imp_le)
    have off: "unat (offset + w) = off + 512 * i"
      using assms(1,3,4) lt w by (subst unat_add_nowrap) simp_all
    have len: "(if chunk - w < of_nat 512 then unat (chunk - w) else 512) = min (ch - 512 * i) 512"
      using diff by (simp add: word_less_nat_alt min_def)
    have "copy_in data (offset + w) (min (ch - 512 * i) 512) 0 (replicate 512 0) = Some (?g i)"
      using copy_in_ok [of "offset + w" 0 "min (ch - 512 * i) 512" data "replicate 512 0"] assms(3,4) lt
      by (simp add: off sect(1) [OF lt])
    with True show ?thesis by (simp only: len Let_def if_True)
  next
    case False
    then have "\<not> 512 * i < ch" using w assms(2) by (simp add: word_less_nat_alt)
    from False sect(2) [OF this] show ?thesis by simp
  qed
  have "512 * i + 512 \<le> 512 * m" using im by simp
  then have "length (?g i) = 512" using length_padded_chunk [OF assms(3,5)] by simp
  then obtain d1 where d1: "wr_sector E (lba + of_nat i) (?g i) d = (True, d1)"
    "disk_is d1 ((put_sectors lba ?g i S)(lba + of_nat i := ?g i)) C"
    using disk_write [OF Suc.prems(1) lba] by blast
  have "\<exists>d'. write_cluster E data offset chunk n (lba + of_nat (Suc i)) (of_nat (512 * Suc i)) d1 = Some (True, d') \<and>
      disk_is d' (put_sectors lba ?g m S) C"
    by (rule Suc.IH) (use d1(2) Suc.prems(2) in \<open>simp_all only: put_sectors.simps add_Suc_right add_Suc\<close>)
  moreover have step: "of_nat (512 * Suc i) = w + of_nat 512" "lba + of_nat (Suc i) = lba + of_nat i + 1"
    by (simp_all add: w_def)
  have "write_cluster E data offset chunk (Suc n) (lba + of_nat i) w d =
      write_cluster E data offset chunk n (lba + of_nat (Suc i)) (of_nat (512 * Suc i)) d1"
    unfolding write_cluster.simps z Let_def g [unfolded Let_def] step using d1(1) by simp
  ultimately show ?case by (simp only: w_def)
qed simp

lemma write_cluster_ok:
  assumes "disk_is d S C" and "vol_ok V N C" and "c \<in> {2 ..< N + 2}"
    and "unat offset + unat chunk \<le> length data" and "length data < 2 ^ 32"
    and "unat chunk \<le> 512 * unat (sectors_per_cluster V)"
  obtains d' where "write_cluster E data offset chunk (unat (sectors_per_cluster V)) (cluster_to_lba V (of_nat c)) 0 d =
      Some (True, d')"
    and "disk_is d' (put_cluster V c (padded_chunk data (unat offset) (unat chunk) (unat (sectors_per_cluster V))) S) C"
proof -
  have m: "unat (sectors_per_cluster V) < 256" using assms(2) by (simp add: vol_ok_def)
  have b: "unat (cluster_to_lba V (of_nat c)) + unat (sectors_per_cluster V) \<le> unat C"
    using cluster_addr [OF assms(2,3)] by simp
  have d0: "disk_is d (put_sectors (cluster_to_lba V (of_nat c)) g 0 S) C" for g using assms(1) by simp
  show ?thesis
    using write_cluster_loop [OF refl refl assms(4-6) m b d0] that unfolding put_cluster_def by auto
qed

end

section \<open>Files\<close>

text \<open>The clusters of a file, linked by the FAT, and the bytes they hold.\<close>

fun chain :: "fat16_volume \<Rightarrow> nat \<Rightarrow> disk \<Rightarrow> nat list \<Rightarrow> bool" where
  "chain V N S [] \<longleftrightarrow> False"
| "chain V N S [c] \<longleftrightarrow> c \<in> {2 ..< N + 2} \<and> fatv V S 0 c \<ge> 0xFFF8"
| "chain V N S (c # c' # cs) \<longleftrightarrow> c \<in> {2 ..< N + 2} \<and> fatv V S 0 c = of_nat c' \<and> chain V N S (c' # cs)"

definition file_bytes :: "fat16_volume \<Rightarrow> disk \<Rightarrow> nat list \<Rightarrow> u8 list" where
  "file_bytes V S cs = concat (map (cluster_data V S) cs)"

text \<open>
  \<open>touches V S S' X\<close>: between the disks \<open>S\<close> and \<open>S'\<close> nothing changed but FAT entries of the
  clusters \<open>X\<close>, in all copies, and their data.
\<close>

definition in_cluster :: "fat16_volume \<Rightarrow> u32 \<Rightarrow> nat \<Rightarrow> bool" where
  "in_cluster V lba c \<longleftrightarrow> unat (cluster_to_lba V (of_nat c)) \<le> unat lba \<and>
     unat lba < unat (cluster_to_lba V (of_nat c)) + unat (sectors_per_cluster V)"

definition touches :: "fat16_volume \<Rightarrow> disk \<Rightarrow> disk \<Rightarrow> nat set \<Rightarrow> bool" where
  "touches V S S' X \<longleftrightarrow>
     (\<forall>k < unat (num_fats V). \<forall>c < 256 * unat (fat_size_sectors V). c \<notin> X \<longrightarrow> fatv V S' k c = fatv V S k c) \<and>
     (\<forall>lba. \<not> (unat (fat_start V) \<le> unat lba \<and> unat lba < unat (root_start V)) \<and>
        (\<forall>c \<in> X. \<not> in_cluster V lba c) \<longrightarrow> S' lba = S lba)"

lemma touches_refl [simp]: "touches V S S X"
  by (simp add: touches_def)

lemma touches_trans: "touches V S S' X \<Longrightarrow> touches V S' S'' Y \<Longrightarrow> touches V S S'' (X \<union> Y)"
  by (simp add: touches_def)

lemma touches_mono: "touches V S S' X \<Longrightarrow> X \<subseteq> Y \<Longrightarrow> touches V S S' Y"
  unfolding touches_def by blast

lemma touches_put_fat:
  assumes "vol_ok V N C" and "c < 256 * unat (fat_size_sectors V)" and "\<And>lba. length (S lba) = 512"
  shows "touches V S (put_fat V c v (unat (num_fats V)) S) {c}"
  unfolding touches_def
proof (intro conjI allI impI)
  fix k c' assume "k < unat (num_fats V)" "c' < 256 * unat (fat_size_sectors V)" "c' \<notin> {c}"
  then show "fatv V (put_fat V c v (unat (num_fats V)) S) k c' = fatv V S k c'"
    using fatv_put_fat [OF assms(1,2) _ _ assms(3)] by simp
next
  fix lba assume "\<not> (unat (fat_start V) \<le> unat lba \<and> unat lba < unat (root_start V)) \<and>
    (\<forall>c' \<in> {c}. \<not> in_cluster V lba c')"
  then show "put_fat V c v (unat (num_fats V)) S lba = S lba"
    by (intro put_fat_outside [OF assms(1,2)]) auto
qed

lemma data_after_root: "vol_ok V N C \<Longrightarrow> unat (root_start V) \<le> unat (data_start V)"
  by (simp add: vol_ok_def)

lemma fatv_put_cluster:
  assumes "vol_ok V N C" and "c \<in> {2 ..< N + 2}" and "k < unat (num_fats V)" and "x < 256 * unat (fat_size_sectors V)"
  shows "fatv V (put_cluster V c P S) k x = fatv V S k x"
proof -
  have "unat (fat_lba V k x) < unat (data_start V)"
    using fat_lba_less(3) [OF assms(1,3,4)] data_after_root [OF assms(1)] by simp
  then show ?thesis by (simp add: fatv_def put_cluster_outside [OF assms(1,2)])
qed

lemma touches_put_cluster:
  assumes "vol_ok V N C" and "c \<in> {2 ..< N + 2}"
  shows "touches V S (put_cluster V c P S) {c}"
  unfolding touches_def
proof (intro conjI allI impI)
  fix lba assume "\<not> (unat (fat_start V) \<le> unat lba \<and> unat lba < unat (root_start V)) \<and>
    (\<forall>c' \<in> {c}. \<not> in_cluster V lba c')"
  moreover have "unat (cluster_to_lba V (of_nat c)) + unat (sectors_per_cluster V) \<le> 2 ^ 32"
    using cluster_addr [OF assms] unsigned_less [of C, where ?'a = nat] by simp
  ultimately show "put_cluster V c P S lba = S lba"
    unfolding put_cluster_def by (subst put_sectors_at) (auto simp: in_cluster_def)
qed (simp add: fatv_put_cluster [OF assms])

lemma touches_sector:
  assumes "vol_ok V N C" and "touches V S S' X" and "X \<subseteq> {2 ..< N + 2}" and "c \<in> {2 ..< N + 2} - X"
    and s: "s < unat (sectors_per_cluster V)"
  shows "S' (cluster_to_lba V (of_nat c) + of_nat s) = S (cluster_to_lba V (of_nat c) + of_nat s)"
proof -
  let ?lba = "cluster_to_lba V (of_nat c) + of_nat s"
  have c: "c \<in> {2 ..< N + 2}" using assms(4) by simp
  have C: "unat C < 2 ^ 32" using unsigned_less [of C, where ?'a = nat] by simp
  note b = cluster_addr [OF assms(1) c]
  have u: "unat ?lba = unat (cluster_to_lba V (of_nat c)) + s" by (rule u32_index) (use b C s in simp)
  have "\<not> in_cluster V ?lba x" if "x \<in> X" for x
    using cluster_disjoint [OF assms(1) c _ _ s, of x "unat ?lba - unat (cluster_to_lba V (of_nat x))"] that assms(3,4) u
    unfolding in_cluster_def by fastforce
  moreover have "unat (root_start V) \<le> unat ?lba" using u b data_after_root [OF assms(1)] by simp
  ultimately show ?thesis using assms(2) unfolding touches_def by (meson leD)
qed

lemma touches_cluster_data:
  assumes "vol_ok V N C" and "touches V S S' X" and "X \<subseteq> {2 ..< N + 2}" and "c \<in> {2 ..< N + 2} - X"
  shows "cluster_data V S' c = cluster_data V S c"
  using touches_sector [OF assms] unfolding cluster_data_def
  by (intro arg_cong [where f = concat] map_cong) auto

lemma touches_chain:
  assumes "vol_ok V N C" and "touches V S S' X" and "X \<subseteq> {2 ..< N + 2}" and "chain V N S cs" and "set cs \<inter> X = {}"
  shows "chain V N S' cs \<and> file_bytes V S' cs = file_bytes V S cs"
  using assms(4,5)
proof (induction cs rule: induct_list012)
  case (2 c)
  have "c < 256 * unat (fat_size_sectors V)" "0 < unat (num_fats V)"
    using 2 assms(1) by (auto simp: vol_ok_def unat_gt_0 word_gt_0)
  then have "fatv V S' 0 c = fatv V S 0 c" using 2 assms(2) by (simp add: touches_def)
  moreover have "cluster_data V S' c = cluster_data V S c"
    by (rule touches_cluster_data [OF assms(1-3)]) (use 2 in auto)
  ultimately show ?case using 2 by (simp add: file_bytes_def)
next
  case (3 c c' cs)
  have "c < 256 * unat (fat_size_sectors V)" "0 < unat (num_fats V)"
    using 3 assms(1) by (auto simp: vol_ok_def unat_gt_0 word_gt_0)
  then have "fatv V S' 0 c = fatv V S 0 c" using 3 assms(2) by (simp add: touches_def)
  moreover have "cluster_data V S' c = cluster_data V S c"
    by (rule touches_cluster_data [OF assms(1-3)]) (use 3 in auto)
  ultimately show ?case using 3 by (simp add: file_bytes_def)
qed simp

section \<open>Writing files\<close>

text \<open>All copies of the table agree.\<close>

definition synced :: "fat16_volume \<Rightarrow> disk \<Rightarrow> bool" where
  "synced V S \<longleftrightarrow> (\<forall>k < unat (num_fats V). \<forall>c < 256 * unat (fat_size_sectors V). fatv V S k c = fatv V S 0 c)"

text \<open>Setting an entry in all copies.\<close>

abbreviation set_fat :: "fat16_volume \<Rightarrow> nat \<Rightarrow> u16 \<Rightarrow> disk \<Rightarrow> disk" where
  "set_fat V c v S \<equiv> put_fat V c v (unat (num_fats V)) S"

lemma vol_ok_facts:
  assumes "vol_ok V N C"
  shows "0 < unat (num_fats V)" and "c < N + 2 \<Longrightarrow> c < 256 * unat (fat_size_sectors V)"
    and "0 < unat (sectors_per_cluster V)" and "N + 2 \<le> 0xFFF8"
    and "unat (sectors_per_cluster V * bytes_per_sector V) = 512 * unat (sectors_per_cluster V)"
proof -
  show "unat (sectors_per_cluster V * bytes_per_sector V) = 512 * unat (sectors_per_cluster V)"
    using assms by (subst unat_mult_nowrap) (simp_all add: vol_ok_def)
qed (use assms in \<open>auto simp: vol_ok_def unat_gt_0 word_gt_0\<close>)

lemma synced_set_fat:
  assumes "vol_ok V N C" and "c < 256 * unat (fat_size_sectors V)" and "\<And>lba. length (S lba) = 512" and "synced V S"
  shows "synced V (set_fat V c v S)"
  unfolding synced_def
proof (intro allI impI)
  fix k x assume k: "k < unat (num_fats V)" and x: "x < 256 * unat (fat_size_sectors V)"
  have "fatv V S k x = fatv V S 0 x" using assms(4) k x unfolding synced_def by blast
  then show "fatv V (set_fat V c v S) k x = fatv V (set_fat V c v S) 0 x"
    unfolding fatv_put_fat [OF assms(1,2) x k assms(3)]
      fatv_put_fat [OF assms(1,2) x vol_ok_facts(1) [OF assms(1)] assms(3)] by simp
qed

lemma synced_put_cluster:
  assumes "vol_ok V N C" and "c \<in> {2 ..< N + 2}" and "synced V S"
  shows "synced V (put_cluster V c P S)"
  unfolding synced_def
proof (intro allI impI)
  fix k x assume k: "k < unat (num_fats V)" and x: "x < 256 * unat (fat_size_sectors V)"
  have "fatv V S k x = fatv V S 0 x" using assms(3) k x unfolding synced_def by blast
  then show "fatv V (put_cluster V c P S) k x = fatv V (put_cluster V c P S) 0 x"
    unfolding fatv_put_cluster [OF assms(1,2) k x]
      fatv_put_cluster [OF assms(1,2) vol_ok_facts(1) [OF assms(1)] x] by simp
qed

lemma cluster_data_set_fat:
  assumes "vol_ok V N C" and "x \<in> {2 ..< N + 2}" and "c < 256 * unat (fat_size_sectors V)"
  shows "cluster_data V (set_fat V c v S) x = cluster_data V S x"
proof -
  have C: "unat C < 2 ^ 32" using unsigned_less [of C, where ?'a = nat] by simp
  note b = cluster_addr [OF assms(1,2)]
  have "set_fat V c v S (cluster_to_lba V (of_nat x) + of_nat s) = S (cluster_to_lba V (of_nat x) + of_nat s)"
    if "s < unat (sectors_per_cluster V)" for s
  proof (rule put_fat_outside [OF assms(1,3)])
    have "unat (cluster_to_lba V (of_nat x) + of_nat s) = unat (cluster_to_lba V (of_nat x)) + s"
      by (rule u32_index) (use b C that in simp)
    then show "unat (cluster_to_lba V (of_nat x) + of_nat s) < unat (fat_start V) \<or>
        unat (root_start V) \<le> unat (cluster_to_lba V (of_nat x) + of_nat s)"
      using b data_after_root [OF assms(1)] by simp
  qed
  then show ?thesis unfolding cluster_data_def by (intro arg_cong [where f = concat] map_cong) auto
qed

lemma free_clusters_put_cluster:
  assumes "vol_ok V N C" and "c \<in> {2 ..< N + 2}"
  shows "free_clusters V N (put_cluster V c P S) = free_clusters V N S"
  using fatv_put_cluster [OF assms] vol_ok_facts(1,2) [OF assms(1)] by (auto simp: free_clusters_def)

lemma chain_heads: "chain V N S cs \<Longrightarrow> set cs \<subseteq> {2 ..< N + 2}"
  by (induction V N S cs rule: chain.induct) auto

lemma ucast_of_nat_16: "j < 2 ^ 32 \<Longrightarrow> (ucast (of_nat j :: u32) :: u16) = of_nat j"
  by (simp add: word_unat_eq_iff unsigned_ucast_eq unat_of_nat take_bit_eq_mod)

text \<open>
  The outcome of writing \<open>n\<close> bytes \<open>bs\<close> to a chain starting with the allocated cluster \<open>c\<close>.
\<close>

definition file_written :: "fat16_volume \<Rightarrow> nat \<Rightarrow> disk \<Rightarrow> nat \<Rightarrow> u8 list \<Rightarrow> nat list \<Rightarrow> disk \<Rightarrow> bool" where
  "file_written V N S c bs cs S' \<longleftrightarrow>
     chain V N S' (c # cs) \<and> take (length bs) (file_bytes V S' (c # cs)) = bs \<and>
     distinct (c # cs) \<and> set cs \<subseteq> free_clusters V N S \<and>
     length cs = (length bs - 1) div (512 * unat (sectors_per_cluster V)) \<and>
     touches V S S' (set (c # cs)) \<and> free_clusters V N S' = free_clusters V N S - set cs \<and>
     (synced V S \<longrightarrow> synced V S')"

lemma file_written_last:
  assumes "vol_ok V N C" and c: "c \<in> {2 ..< N + 2}" and "fatv V S 0 c \<noteq> 0" and len: "\<And>lba. length (S lba) = 512"
    and P: "length P = 512 * unat (sectors_per_cluster V)" "take (length bs) P = bs"
    and bs: "0 < length bs" "length bs \<le> 512 * unat (sectors_per_cluster V)"
    and len1: "\<And>lba. length (put_cluster V c P S lba) = 512"
  shows "file_written V N S c bs [] (set_fat V c 0xFFFF (put_cluster V c P S))"
proof -
  note v = vol_ok_facts [OF assms(1)]
  have ce: "c < 256 * unat (fat_size_sectors V)" using c v(2) by simp
  let ?S1 = "put_cluster V c P S"
  have "fatv V (set_fat V c 0xFFFF ?S1) 0 c = 0xFFFF"
    using fatv_put_fat [OF assms(1) ce ce v(1) len1] by simp
  moreover have "cluster_data V (set_fat V c 0xFFFF ?S1) c = P"
    using cluster_data_set_fat [OF assms(1) c ce] cluster_data_put [OF assms(1) c c P(1)] by simp
  moreover have "touches V S (set_fat V c 0xFFFF ?S1) {c}"
    using touches_trans [OF touches_put_cluster [OF assms(1) c, of S P] touches_put_fat [OF assms(1) ce len1, where v = "0xFFFF"]]
    by simp
  moreover have "c \<notin> free_clusters V N S" using assms(3) by (simp add: free_clusters_def)
  then have "free_clusters V N (set_fat V c 0xFFFF ?S1) = free_clusters V N S"
    using free_clusters_put_fat [OF assms(1) c _ len1, where v = "0xFFFF"] free_clusters_put_cluster [OF assms(1) c] by simp
  moreover have "synced V S \<longrightarrow> synced V (set_fat V c 0xFFFF ?S1)"
    by (intro impI synced_set_fat [OF assms(1) ce len1] synced_put_cluster [OF assms(1) c])
  moreover have "(length bs - 1) div (512 * unat (sectors_per_cluster V)) = 0"
    by (rule div_less) (use bs in linarith)
  ultimately show ?thesis using c P(2) by (simp add: file_written_def file_bytes_def)
qed

lemma file_written_step:
  assumes "vol_ok V N C" and c: "c \<in> {2 ..< N + 2}" and nz: "fatv V S 0 c \<noteq> 0"
    and P: "length P = 512 * unat (sectors_per_cluster V)" and rest: "0 < length bs"
    and len: "\<And>lba. length (S1 lba) = 512" "\<And>lba. length (S2 lba) = 512" "\<And>lba. length (S lba) = 512"
    and S1: "S1 = put_cluster V c P S" and j: "j \<in> free_clusters V N S1" and S2: "S2 = set_fat V j 0xFFFF S1"
    and S3: "S3 = set_fat V c (of_nat j) S2" and IH: "file_written V N S3 j bs cs S'"
  shows "file_written V N S c (P @ bs) (j # cs) S'"
proof -
  note v = vol_ok_facts [OF assms(1)]
  let ?n = "512 * unat (sectors_per_cluster V)"
  have F1: "free_clusters V N S1 = free_clusters V N S"
    unfolding S1 by (rule free_clusters_put_cluster [OF assms(1) c])
  have j2: "j \<in> {2 ..< N + 2}" and cn: "c \<notin> free_clusters V N S" "c \<noteq> j"
    using j F1 nz by (auto simp: free_clusters_def)
  have e: "c < 256 * unat (fat_size_sectors V)" "j < 256 * unat (fat_size_sectors V)" using c j2 v(2) by simp_all
  have "unat (of_nat j :: u16) = j" by (rule unat_of_nat_small) (use j2 v(4) in simp)
  then have "of_nat j \<noteq> (0 :: u16)" using j2 by auto
  then have F3: "free_clusters V N S3 = free_clusters V N S - {j}"
    using free_clusters_put_fat [OF assms(1) j2 _ len(1), where v = "0xFFFF"]
      free_clusters_put_fat [OF assms(1) c _ len(2), where v = "of_nat j"] F1 cn(1) unfolding S2 S3 by auto
  have t: "touches V S S3 {c, j}"
    using touches_trans [OF touches_trans [OF touches_put_cluster [OF assms(1) c, of S P]
        touches_put_fat [OF assms(1) e(2) len(1) [unfolded S1], where v = "0xFFFF"]]
        touches_put_fat [OF assms(1) e(1) len(2) [unfolded S2 S1], where v = "of_nat j"]]
    unfolding S3 S2 S1 by (simp add: insert_commute)
  have IH': "chain V N S' (j # cs)" "take (length bs) (file_bytes V S' (j # cs)) = bs" "distinct (j # cs)"
    "set cs \<subseteq> free_clusters V N S - {j}" "length cs = (length bs - 1) div ?n"
    "touches V S3 S' (set (j # cs))" "free_clusters V N S' = free_clusters V N S - {j} - set cs"
    "synced V S3 \<longrightarrow> synced V S'"
    using IH unfolding file_written_def F3 by simp_all
  have cs: "c \<notin> set (j # cs)" using IH'(4) cn by auto
  have X: "set (j # cs) \<subseteq> {2 ..< N + 2}" by (rule chain_heads [OF IH'(1)])
  have "fatv V S' 0 c = of_nat j"
    using IH'(6) cs e(1) v(1) fatv_put_fat [OF assms(1) e(1) e(1) v(1) len(2)] unfolding touches_def S3 by simp
  then have ch: "chain V N S' (c # j # cs)" using IH'(1) c by simp
  have "cluster_data V S' c = cluster_data V S3 c"
    by (rule touches_cluster_data [OF assms(1) IH'(6) X]) (use c cs in auto)
  also have "\<dots> = P"
    unfolding S3 S2 S1 using cluster_data_set_fat [OF assms(1) c] e cluster_data_put [OF assms(1) c c P] by simp
  finally have "take (length (P @ bs)) (file_bytes V S' (c # j # cs)) = P @ bs"
    using IH'(2) by (simp add: file_bytes_def)
  moreover have "(length (P @ bs) - 1) div ?n = Suc ((length bs - 1) div ?n)"
  proof -
    have "length (P @ bs) - 1 = ?n + (length bs - 1)" using P rest unfolding length_append by linarith
    then show ?thesis using v(3) by (simp add: div_add_self1)
  qed
  moreover have "synced V S \<longrightarrow> synced V S'"
    using IH'(8) synced_put_cluster [OF assms(1) c, of S P]
      synced_set_fat [where S = S1 and v = "0xFFFF", OF assms(1) e(2) len(1)]
      synced_set_fat [where S = S2 and v = "of_nat j", OF assms(1) e(1) len(2)] unfolding S3 S2 S1 by blast
  moreover have "touches V S S' (set (c # j # cs))"
    by (rule touches_mono [OF touches_trans [OF t IH'(6)]]) auto
  moreover have "j \<in> free_clusters V N S" using j F1 by simp
  ultimately show ?thesis
    using ch cs IH'(3,4,5,7) unfolding file_written_def by auto
qed

lemma padded_chunk_full:
  "off + 512 * n \<le> length data \<Longrightarrow> padded_chunk data off (512 * n) n = take (512 * n) (drop off data)"
  by (simp add: padded_chunk_def)

text \<open>The number of further clusters after a full one.\<close>

lemma clusters_left:
  assumes "0 < b" and "b < (n :: nat)"
  shows "(n - 1) div b = Suc ((n - b - 1) div b)"
proof -
  have "n - 1 = b + (n - b - 1)" using assms by linarith
  then show ?thesis using assms(1) by (simp only: div_add_self1)
qed

lemma set_fat_link:
  assumes vol: "vol_ok V N C" and c: "c \<in> {2 ..< N + 2}" and nz: "fatv V S 0 c \<noteq> 0"
    and j: "j \<in> free_clusters V N S"
    and len: "\<And>lba. length (S lba) = 512" "\<And>lba. length (set_fat V j 0xFFFF S lba) = 512"
  shows "fatv V (set_fat V c (of_nat j) (set_fat V j 0xFFFF S)) 0 j \<noteq> 0"
    and "free_clusters V N (set_fat V c (of_nat j) (set_fat V j 0xFFFF S)) = free_clusters V N S - {j}"
proof -
  note v = vol_ok_facts [OF vol]
  have jr: "j \<in> {2 ..< N + 2}" and cj: "c \<notin> free_clusters V N S" "j \<noteq> c"
    using j nz by (auto simp: free_clusters_def)
  have e: "c < 256 * unat (fat_size_sectors V)" "j < 256 * unat (fat_size_sectors V)" using c jr v(2) by simp_all
  show "fatv V (set_fat V c (of_nat j) (set_fat V j 0xFFFF S)) 0 j \<noteq> 0"
    using fatv_put_fat [OF vol e v(1) len(2)] fatv_put_fat [OF vol e(2,2) v(1) len(1)] cj(2) by simp
  have "unat (of_nat j :: u16) = j" by (rule unat_of_nat_small) (use jr v(4) in simp)
  then have "of_nat j \<noteq> (0 :: u16)" using jr by auto
  then show "free_clusters V N (set_fat V c (of_nat j) (set_fat V j 0xFFFF S)) = free_clusters V N S - {j}"
    using free_clusters_put_fat [OF vol c _ len(2)] free_clusters_put_fat [OF vol jr _ len(1)] cj(1) by auto
qed

context block_device
begin

text \<open>Appending a fresh cluster behind cluster \<open>c\<close>.\<close>

lemma extend_chain:
  assumes vol: "vol_ok V N C" and d: "disk_is d S C" and c: "c \<in> {2 ..< N + 2}" and nz: "fatv V S 0 c \<noteq> 0"
    and ne: "free_clusters V N S \<noteq> {}"
  obtains j d2 d3 where "fat_alloc_cluster E V d = Some (of_nat j, d2)" and "of_nat j \<noteq> (0 :: u32)"
    and "fat_write_entry E V (of_nat c) (ucast (of_nat j :: u32)) d2 = Some d3"
    and "j \<in> free_clusters V N S" and "disk_is d2 (set_fat V j 0xFFFF S) C"
    and "disk_is d3 (set_fat V c (of_nat j) (set_fat V j 0xFFFF S)) C"
proof -
  note v = vol_ok_facts [OF vol]
  let ?j = "first_free V S"
  have j: "?j \<in> free_clusters V N S" by (rule first_free(1) [OF ne])
  then have jr: "?j \<in> {2 ..< N + 2}" by (simp add: free_clusters_def)
  obtain d2 where d2: "fat_alloc_cluster E V d = Some (of_nat ?j, d2)" "disk_is d2 (set_fat V ?j 0xFFFF S) C"
    by (rule fat_alloc_ok [OF d vol ne])
  have ce: "c < 256 * unat (fat_size_sectors V)" using c v(2) by simp
  obtain d3 where d3: "fat_write_entry E V (of_nat c) (of_nat ?j) d2 = Some d3"
    "disk_is d3 (set_fat V c (of_nat ?j) (set_fat V ?j 0xFFFF S)) C"
    by (rule fat_write_ok [OF d2(2) vol ce])
  have "unat (of_nat ?j :: u32) = ?j" by (rule unat_of_nat_small) (use jr v(4) in simp)
  then have nzj: "of_nat ?j \<noteq> (0 :: u32)" using jr by auto
  have "ucast (of_nat ?j :: u32) = (of_nat ?j :: u16)" by (rule ucast_of_nat_16) (use jr v(4) in simp)
  then show ?thesis by (intro that [OF d2(1) nzj _ j d2(2) d3(2)]) (simp only: d3(1))
qed

lemma write_clusters_unfold:
  assumes "chunk = (if remaining < sectors_per_cluster V * bytes_per_sector V then remaining
      else sectors_per_cluster V * bytes_per_sector V)"
    and "write_cluster E data offset chunk (unat (sectors_per_cluster V)) (cluster_to_lba V c) 0 d = Some (True, d1)"
  shows "write_clusters E V data c offset remaining d =
      (if remaining - chunk = 0
       then do { d \<leftarrow> fat_write_entry E V c 0xFFFF d1; Some (True, d) }
       else do {
         (next, d) \<leftarrow> fat_alloc_cluster E V d1;
         if next = 0 then Some (False, d)
         else do {
           d \<leftarrow> fat_write_entry E V c (ucast next) d;
           write_clusters E V data next (offset + chunk) (remaining - chunk) d
         }
       })"
  by (subst write_clusters.simps) (simp only: Let_def assms(1) [symmetric] assms(2) bind.bind_lunit prod.case simp_thms if_False)

lemma write_clusters_ok:
  assumes vol: "vol_ok V N C" and "disk_is d S C" and "c \<in> {2 ..< N + 2}" and "fatv V S 0 c \<noteq> 0"
    and "unat offset + unat remaining = length data" and dl: "length data < 2 ^ 32" and "0 < unat remaining"
    and "(unat remaining - 1) div (512 * unat (sectors_per_cluster V)) \<le> card (free_clusters V N S)"
  shows "\<exists>d' S' cs. write_clusters E V data (of_nat c) offset remaining d = Some (True, d') \<and> disk_is d' S' C \<and>
    file_written V N S c (drop (unat offset) data) cs S'"
  using assms(2-5,7,8)
proof (induction "unat remaining" arbitrary: remaining offset c d S rule: less_induct)
  case less
  note v = vol_ok_facts [OF vol]
  define chunk where "chunk = (if remaining < sectors_per_cluster V * bytes_per_sector V then remaining
      else sectors_per_cluster V * bytes_per_sector V)"
  let ?n = "unat (sectors_per_cluster V)"
  have ch: "unat chunk = min (unat remaining) (512 * ?n)"
    using v(5) by (auto simp: chunk_def word_less_nat_alt min_def)
  have ce: "c < 256 * unat (fat_size_sectors V)" using less.prems(2) v(2) by simp
  let ?P = "padded_chunk data (unat offset) (unat chunk) ?n" and ?rest = "drop (unat (offset + chunk)) data"
  have fit: "unat offset + unat chunk \<le> length data" "unat chunk \<le> 512 * ?n" using less.prems(4) ch by simp_all
  have lP: "length ?P = 512 * ?n" using length_padded_chunk [OF fit] .
  obtain d1 where d1: "write_cluster E data offset chunk ?n (cluster_to_lba V (of_nat c)) 0 d = Some (True, d1)"
    "disk_is d1 (put_cluster V c ?P S) C"
    by (rule write_cluster_ok [OF less.prems(1) vol less.prems(2) fit(1) dl fit(2)])
  note lenS = disk_lengths(1) [OF less.prems(1)] and len1 = disk_lengths(1) [OF d1(2)]
  note unf = write_clusters_unfold [OF chunk_def d1(1)]
  show ?case
  proof (cases "unat remaining \<le> 512 * ?n")
    case True
    then have rem: "remaining = chunk" using ch by (simp add: word_unat_eq_iff)
    obtain d2 where d2: "fat_write_entry E V (of_nat c) 0xFFFF d1 = Some d2"
      "disk_is d2 (set_fat V c 0xFFFF (put_cluster V c ?P S)) C"
      by (rule fat_write_ok [OF d1(2) vol ce])
    have "take (length (drop (unat offset) data)) ?P = drop (unat offset) data"
      using less.prems(4) ch True by (simp add: padded_chunk_def)
    moreover have "length (drop (unat offset) data) = unat remaining" using less.prems(4) by simp
    ultimately have "file_written V N S c (drop (unat offset) data) [] (set_fat V c 0xFFFF (put_cluster V c ?P S))"
      using less.prems(5) True
      by (intro file_written_last [OF vol less.prems(2,3) lenS lP _ _ _ len1]) simp_all
    with d2 show ?thesis unfolding unf using rem by auto
  next
    case False
    then have ch': "unat chunk = 512 * ?n" using ch by simp
    have rest: "unat (remaining - chunk) = unat remaining - 512 * ?n"
      using ch' False by (simp add: unat_sub word_le_nat_alt)
    have off: "unat (offset + chunk) = unat offset + 512 * ?n"
      using fit(1) dl ch' by (subst unat_add_nowrap) simp_all
    define S1 where "S1 = put_cluster V c ?P S"
    note d1' = d1(2) [folded S1_def] and len1' = len1 [folded S1_def]
    have F1: "free_clusters V N S1 = free_clusters V N S"
      unfolding S1_def by (rule free_clusters_put_cluster [OF vol less.prems(2)])
    have nz1: "fatv V S1 0 c \<noteq> 0"
      unfolding S1_def using fatv_put_cluster [OF vol less.prems(2) v(1) ce] less.prems(3) by simp
    have cnt: "(unat remaining - 1) div (512 * ?n) = Suc ((unat remaining - 512 * ?n - 1) div (512 * ?n))"
      by (rule clusters_left) (use v(3) False in simp_all)
    then have "free_clusters V N S1 \<noteq> {}" using less.prems(6) F1 by auto
    then obtain j d2 d3 where j: "fat_alloc_cluster E V d1 = Some (of_nat j, d2)" "of_nat j \<noteq> (0 :: u32)"
      "fat_write_entry E V (of_nat c) (ucast (of_nat j :: u32)) d2 = Some d3"
      "j \<in> free_clusters V N S1" "disk_is d2 (set_fat V j 0xFFFF S1) C"
      "disk_is d3 (set_fat V c (of_nat j) (set_fat V j 0xFFFF S1)) C"
      by (rule extend_chain [OF vol d1' less.prems(2) nz1])
    note link = set_fat_link [OF vol less.prems(2) nz1 j(4) len1' disk_lengths(1) [OF j(5)]]
    have jr: "j \<in> {2 ..< N + 2}" using j(4) by (simp add: free_clusters_def)
    have IH: "\<exists>d' S' cs. write_clusters E V data (of_nat j) (offset + chunk) (remaining - chunk) d3 = Some (True, d') \<and>
      disk_is d' S' C \<and> file_written V N (set_fat V c (of_nat j) (set_fat V j 0xFFFF S1)) j ?rest cs S'"
    proof (rule less.hyps [OF _ j(6) jr link(1)])
      show "(unat (remaining - chunk) - 1) div (512 * ?n) \<le>
          card (free_clusters V N (set_fat V c (of_nat j) (set_fat V j 0xFFFF S1)))"
        using less.prems(6) cnt rest j(4) unfolding link(2) F1 by simp
    qed (use rest off less.prems(4) False v(3) in simp_all)
    have "?P @ ?rest = drop (unat offset) data"
      using ch' padded_chunk_full [of "unat offset" ?n data] fit(1)
        append_take_drop_id [of "512 * ?n" "drop (unat offset) data"] by (simp add: off add.commute [of "512 * ?n"])
    moreover have "0 < length ?rest" using off less.prems(4) False by simp
    ultimately have "file_written V N S c (drop (unat offset) data) (j # cs) S'"
      if "file_written V N (set_fat V c (of_nat j) (set_fat V j 0xFFFF S1)) j ?rest cs S'" for cs S'
      using file_written_step [OF vol less.prems(2,3) lP _ len1' disk_lengths(1) [OF j(5)] lenS S1_def j(4) refl refl that]
      by simp
    moreover have "remaining - chunk \<noteq> 0" using rest False by auto
    moreover obtain d' S' cs where "write_clusters E V data (of_nat j) (offset + chunk) (remaining - chunk) d3 = Some (True, d')"
      "disk_is d' S' C" "file_written V N (set_fat V c (of_nat j) (set_fat V j 0xFFFF S1)) j ?rest cs S'"
      using IH by blast
    ultimately show ?thesis unfolding unf using j(1-3)
      by (intro exI [of _ d'] exI [of _ S'] exI [of _ "j # cs"]) simp
  qed
qed

end

section \<open>Reading files\<close>

lemma length_concat_512: "(\<And>s. length (f s) = 512) \<Longrightarrow> length (concat (map f [0 ..< n])) = 512 * n"
  by (induction n) simp_all

lemma concat_slice:
  assumes "\<And>s. length (f s) = 512" and "i < n"
  shows "take 512 (drop (512 * i) (concat (map f [0 ..< n]))) = f i"
  using assms(2)
proof (induction n)
  case (Suc n)
  have len: "length (concat (map f [0 ..< n])) = 512 * n" by (rule length_concat_512 [OF assms(1)])
  show ?case
  proof (cases "i = n")
    case True
    then show ?thesis using len assms(1) by simp
  next
    case False
    then have "i < n" "512 * i + 512 \<le> 512 * n" using Suc.prems by simp_all
    then show ?thesis using Suc.IH len by simp
  qed
qed simp

lemma take_next_sector:
  assumes "\<And>s. length (f s) = 512" and "i < n" and "k \<le> 512"
  shows "take (512 * i + k) (concat (map f [0 ..< n])) = take (512 * i) (concat (map f [0 ..< n])) @ take k (f i)"
proof -
  let ?D = "concat (map f [0 ..< n])"
  have "take k (take 512 (drop (512 * i) ?D)) = take k (drop (512 * i) ?D)" using assms(3) by simp
  then have "take k (f i) = take k (drop (512 * i) ?D)" unfolding concat_slice [OF assms(1,2)] .
  then show ?thesis by (simp add: take_add)
qed

context block_device
begin

lemma read_cluster_loop:
  assumes C: "unat lba + m \<le> unat C" and m: "m < 256" and bs: "unat bufsz \<le> length buf"
    and ch: "unat chunk \<le> 512 * m" "unat offset + unat chunk \<le> 2 ^ 32"
    and D: "D = concat (map (\<lambda>s. S (lba + of_nat s)) [0 ..< m])"
    and "disk_is d S C" and "i + n = m" and "length sector = 512"
  shows "\<exists>s' d'. read_cluster E bufsz offset chunk n (lba + of_nat i) (of_nat (512 * i)) sector
      (blit (unat bufsz) (unat offset) (take (min (unat chunk) (512 * i)) D) buf) d =
      Some (True, s', blit (unat bufsz) (unat offset) (take (unat chunk) D) buf, d') \<and>
    disk_is d' S C \<and> length s' = 512"
  using assms(7-9)
proof (induction n arbitrary: i d sector)
  case 0
  then show ?case using ch(1) by (auto simp: min_def)
next
  case (Suc n)
  let ?b = "\<lambda>i. blit (unat bufsz) (unat offset) (take (min (unat chunk) (512 * i)) D) buf"
  define w where "w = (of_nat (512 * i) :: u32)"
  have im: "i < m" using Suc.prems(2) by simp
  have w: "unat w = 512 * i" unfolding w_def by (rule unat_of_nat_small) (use im m in simp)
  show ?case
  proof (cases "w < chunk")
    case False
    then have "unat chunk \<le> 512 * i" using w by (simp add: word_less_nat_alt)
    then have "?b i = blit (unat bufsz) (unat offset) (take (unat chunk) D) buf" by (simp add: min_def)
    moreover have "read_cluster E bufsz offset chunk (Suc n) (lba + of_nat i) w sector (?b i) d =
        Some (True, sector, ?b i, d)"
      using False by simp
    ultimately show ?thesis using Suc.prems(1,3) unfolding w_def by simp
  next
    case True
    then have lt: "512 * i < unat chunk" using w by (simp add: word_less_nat_alt)
    have "unat lba + i < 2 ^ 32" using C im unsigned_less [of C, where ?'a = nat] by simp
    from u32_index [OF this] have lba: "lba + of_nat i < C" using C im by (simp add: word_less_nat_alt)
    obtain d1 where d1: "rd_sector E (lba + of_nat i) sector d = (True, S (lba + of_nat i), d1)" "disk_is d1 S C"
      by (rule disk_read [OF Suc.prems(1) lba Suc.prems(3)])
    note len = disk_lengths(1) [OF Suc.prems(1)]
    let ?k = "min (unat chunk - 512 * i) 512"
    have diff: "unat (chunk - w) = unat chunk - 512 * i" using True w by (simp add: unat_sub order_less_imp_le)
    have copy: "(if chunk - w < of_nat 512 then unat (chunk - w) else 512) = ?k"
      using diff by (simp add: word_less_nat_alt min_def)
    have off: "unat (offset + w) = unat offset + 512 * i"
      using ch(2) lt w by (subst unat_add_nowrap) simp_all
    have "take (512 * i + ?k) D = take (512 * i) D @ take ?k (S (lba + of_nat i))"
      unfolding D by (rule take_next_sector [OF len im]) simp
    moreover have "min (unat chunk) (512 * Suc i) = 512 * i + ?k" "min (unat chunk) (512 * i) = 512 * i"
      using lt by (auto simp: min_def)
    moreover have "length (take (512 * i) D) = 512 * i"
      using im length_concat_512 [of "\<lambda>s. S (lba + of_nat s)" m, OF len] by (simp add: D)
    moreover have "copy_out (S (lba + of_nat i)) (offset + w) bufsz ?k 0 (?b i) =
        Some (blit (unat bufsz) (unat (offset + w) + 0) (take ?k (drop 0 (S (lba + of_nat i)))) (?b i))"
      by (rule copy_out_ok) (use off ch(2) lt bs len in auto)
    ultimately have out: "copy_out (S (lba + of_nat i)) (offset + w) bufsz ?k 0 (?b i) = Some (?b (Suc i))"
      using blit_append [OF bs, of "unat offset" "take (512 * i) D"] by (simp add: off)
    have step: "of_nat (512 * Suc i) = w + of_nat 512" "lba + of_nat (Suc i) = lba + of_nat i + 1"
      by (simp_all add: w_def)
    have "read_cluster E bufsz offset chunk (Suc n) (lba + of_nat i) w sector (?b i) d =
        read_cluster E bufsz offset chunk n (lba + of_nat (Suc i)) (of_nat (512 * Suc i)) (S (lba + of_nat i)) (?b (Suc i)) d1"
      unfolding read_cluster.simps Let_def copy step using True d1(1) out by simp
    moreover have "Suc i + n = m" using Suc.prems(2) by simp
    note Suc.IH [OF d1(2) this len]
    ultimately show ?thesis unfolding w_def by (simp only:)
  qed
qed

lemma read_cluster_ok:
  assumes "disk_is d S C" and "vol_ok V N C" and "c \<in> {2 ..< N + 2}" and "length sector = 512"
    and "unat bufsz \<le> length buf" and "unat chunk \<le> 512 * unat (sectors_per_cluster V)"
    and "unat offset + unat chunk \<le> 2 ^ 32"
  obtains s' d' where "read_cluster E bufsz offset chunk (unat (sectors_per_cluster V)) (cluster_to_lba V (of_nat c)) 0
      sector buf d = Some (True, s', blit (unat bufsz) (unat offset) (take (unat chunk) (cluster_data V S c)) buf, d')"
    and "disk_is d' S C" and "length s' = 512"
proof -
  have m: "unat (sectors_per_cluster V) < 256" using assms(2) by (simp add: vol_ok_def)
  have b: "unat (cluster_to_lba V (of_nat c)) + unat (sectors_per_cluster V) \<le> unat C"
    using cluster_addr [OF assms(2,3)] by simp
  have "blit (unat bufsz) (unat offset) [] buf = buf" by (simp add: blit_def)
  then show ?thesis
    using read_cluster_loop [OF b m assms(5,6,7) cluster_data_def assms(1) _ assms(4), of 0] that by auto
qed

lemma read_clusters_unfold:
  assumes "chunk = (if remaining < sectors_per_cluster V * bytes_per_sector V then remaining
      else sectors_per_cluster V * bytes_per_sector V)"
    and "read_cluster E bufsz offset chunk (unat (sectors_per_cluster V)) (cluster_to_lba V c) 0 sector buf d =
      Some (True, s1, buf1, d1)"
    and "remaining \<noteq> 0"
  shows "read_clusters E V bufsz c offset remaining sector buf d =
      (if remaining - chunk = 0 then Some (True, buf1, d1)
       else do {
         (next, d) \<leftarrow> fat_read_entry E V c d1;
         if next \<ge> 0xFFF8 then Some (True, buf1, d)
         else read_clusters E V bufsz (ucast next) (offset + chunk) (remaining - chunk) s1 buf1 d
       })"
  by (subst read_clusters.simps)
    (simp only: Let_def assms(1) [symmetric] assms(2,3) bind.bind_lunit prod.case simp_thms if_False)

lemma read_clusters_ok:
  assumes vol: "vol_ok V N C" and bs: "unat bufsz \<le> length buf"
    and "disk_is d S C" and "chain V N S cs" and "length sector = 512"
    and "0 < unat remaining" and "unat remaining \<le> 512 * unat (sectors_per_cluster V) * length cs"
    and "unat offset + unat remaining < 2 ^ 32"
  shows "\<exists>d'. read_clusters E V bufsz (of_nat (hd cs)) offset remaining sector buf d =
      Some (True, blit (unat bufsz) (unat offset) (take (unat remaining) (file_bytes V S cs)) buf, d') \<and> disk_is d' S C"
  using assms(2-8)
proof (induction cs arbitrary: d sector remaining offset buf)
  case Nil
  then show ?case by simp
next
  case (Cons c cs)
  note v = vol_ok_facts [OF vol]
  let ?n = "512 * unat (sectors_per_cluster V)"
  define chunk where "chunk = (if remaining < sectors_per_cluster V * bytes_per_sector V then remaining
      else sectors_per_cluster V * bytes_per_sector V)"
  have ch: "unat chunk = min (unat remaining) ?n"
    using v(5) by (auto simp: chunk_def word_less_nat_alt min_def)
  have c: "c \<in> {2 ..< N + 2}" using chain_heads [OF Cons.prems(3)] by simp
  have fit: "unat chunk \<le> ?n" "unat offset + unat chunk \<le> 2 ^ 32" using ch Cons.prems(7) by simp_all
  let ?b1 = "blit (unat bufsz) (unat offset) (take (unat chunk) (cluster_data V S c)) buf"
  obtain s1 d1 where d1: "read_cluster E bufsz offset chunk (unat (sectors_per_cluster V)) (cluster_to_lba V (of_nat c)) 0
      sector buf d = Some (True, s1, ?b1, d1)" "disk_is d1 S C" "length s1 = 512"
    by (rule read_cluster_ok [OF Cons.prems(2) vol c Cons.prems(4,1) fit])
  have "remaining \<noteq> 0" using Cons.prems(5) by auto
  note unf = read_clusters_unfold [OF chunk_def d1(1) this]
  have len: "length (cluster_data V S c) = ?n"
    unfolding cluster_data_def by (rule length_concat_512) (rule disk_lengths(1) [OF Cons.prems(2)])
  show ?case
  proof (cases "unat remaining \<le> ?n")
    case True
    then have "remaining = chunk" using ch by (simp add: word_unat_eq_iff)
    then show ?thesis using unf d1(2) True len by (simp add: file_bytes_def)
  next
    case False
    then have ch': "unat chunk = ?n" using ch by simp
    have rest: "unat (remaining - chunk) = unat remaining - ?n"
      using ch' False by (simp add: unat_sub word_le_nat_alt)
    then have nz: "remaining - chunk \<noteq> 0" using False by auto
    have off: "unat (offset + chunk) = unat offset + ?n"
      using Cons.prems(7) ch' False by (subst unat_add_nowrap) simp_all
    from False Cons.prems(6) obtain c' cs' where cs: "cs = c' # cs'" by (cases cs) auto
    then have fat: "fatv V S 0 c = of_nat c'" and chain: "chain V N S cs" using Cons.prems(3) by simp_all
    have c': "c' < 0xFFF8" using chain_heads [OF chain] cs v(4) by simp
    then have u: "unat (of_nat c' :: u16) = c'" by (intro unat_of_nat_small) simp
    then have "\<not> 0xFFF8 \<le> (of_nat c' :: u16)" "ucast (of_nat c' :: u16) = (of_nat c' :: u32)"
      using c' by (simp_all add: word_le_nat_alt word_unat_eq_iff unat_ucast_widen unat_of_nat_small)
    moreover have ce: "c < 256 * unat (fat_size_sectors V)" using c v(2) by simp
    obtain d2 where d2: "fat_read_entry E V (of_nat c) d1 = Some (of_nat c', d2)" "disk_is d2 S C"
      using fat_read_ok [OF d1(2) vol ce] fat by metis
    moreover have "\<exists>d'. read_clusters E V bufsz (of_nat (hd cs)) (offset + chunk) (remaining - chunk) s1 ?b1 d2 =
        Some (True, blit (unat bufsz) (unat (offset + chunk)) (take (unat (remaining - chunk)) (file_bytes V S cs)) ?b1, d') \<and>
        disk_is d' S C"
      by (rule Cons.IH [OF _ d2(2) chain d1(3)])
        (use Cons.prems(1,6,7) rest off False in \<open>simp_all add: algebra_simps\<close>)
    moreover have "take (unat remaining) (file_bytes V S (c # cs)) =
        cluster_data V S c @ take (unat (remaining - chunk)) (file_bytes V S cs)"
      using len False rest by (simp add: file_bytes_def)
    ultimately show ?thesis
      unfolding list.sel unf using nz ch' len off cs blit_append [OF Cons.prems(1), of "unat offset" "cluster_data V S c"]
      by simp
  qed
qed

end

end
