(* ===== verification/FatDir.thy ===== *)
theory FatDir
  imports FatFiles
begin

text \<open>
  Directories: the fields of an entry, the entries of a run of sectors as a list
  (\<open>slots\<close>), and the three directory loops of \<^verbatim>\<open>kernel/fs/fat16.c\<close> as operations on that list:
  placing an entry, searching a name, listing.
\<close>

section \<open>Directory entries\<close>

definition field :: "u8 list \<Rightarrow> nat \<Rightarrow> u8 list" where
  "field src len = (let cs = take len (takeWhile (\<lambda>c. c \<noteq> 0) src) in cs @ replicate (len - length cs) 0x20)"

lemma length_field [simp]: "length (field src len) = len"
  by (simp add: field_def Let_def)

lemma copy_chars_store:
  "len \<le> length dest \<Longrightarrow> i \<le> len \<Longrightarrow>
    copy_chars dest src len i =
      (let cs = take (len - i) (takeWhile (\<lambda>c. c \<noteq> 0) (drop i src)) in (store_at i cs dest, i + length cs))"
proof (induction dest src len i rule: copy_chars.induct)
  case (1 dest src len i)
  show ?case
  proof (cases "i < len \<and> cstr src i \<noteq> 0")
    case True
    then have i: "i < len" "i < length src" "src ! i \<noteq> 0" "cstr src i = src ! i"
      by (auto simp: cstr_def split: if_splits)
    let ?rest = "take (len - Suc i) (takeWhile (\<lambda>c. c \<noteq> 0) (drop (Suc i) src))"
    have split: "take (len - i) (takeWhile (\<lambda>c. c \<noteq> 0) (drop i src)) = [src ! i] @ ?rest"
      using i by (simp add: Cons_nth_drop_Suc [symmetric] take_Cons' Suc_diff_Suc)
    have "copy_chars dest src len i = copy_chars (dest[i := src ! i]) src len (i + 1)"
      using True i(4) by (subst copy_chars.simps) simp
    also have "\<dots> = (store_at (Suc i) ?rest (dest[i := src ! i]), Suc i + length ?rest)"
      using 1 True i by (simp add: Let_def)
    also have "store_at (Suc i) ?rest (dest[i := src ! i]) = store_at (i + length [src ! i]) ?rest (store_at i [src ! i] dest)"
      using 1(2) i(1) by (simp add: list_update_store_at)
    also have "\<dots> = store_at i ([src ! i] @ ?rest) dest"
      using 1(2,3) i(1) by (intro store_at_append) auto
    finally show ?thesis by (simp add: split Let_def)
  next
    case False
    then have nil: "take (len - i) (takeWhile (\<lambda>c. c \<noteq> 0) (drop i src)) = []"
      by (auto simp: cstr_def takeWhile_eq_Nil_iff hd_drop_conv_nth split: if_splits)
    have "copy_chars dest src len i = (dest, i)" using False by (subst copy_chars.simps) auto
    then show ?thesis unfolding nil Let_def by simp
  qed
qed

lemma pad_spaces_store:
  "len \<le> length dest \<Longrightarrow> pad_spaces dest len i = store_at i (replicate (len - i) 0x20) dest"
proof (induction dest len i rule: pad_spaces.induct)
  case (1 dest len i)
  show ?case
  proof (cases "i < len")
    case True
    then have "len - i = Suc (len - Suc i)" by simp
    then have split: "replicate (len - i) 0x20 = [0x20] @ replicate (len - Suc i) (0x20 :: u8)" by simp
    have "pad_spaces dest len i = pad_spaces (dest[i := 0x20]) len (i + 1)"
      using True by (subst pad_spaces.simps) simp
    also have "\<dots> = store_at (i + length [0x20 :: u8]) (replicate (len - Suc i) 0x20) (store_at i [0x20] dest)"
      using 1 True by (simp add: list_update_store_at)
    also have "\<dots> = store_at i ([0x20] @ replicate (len - Suc i) 0x20) dest"
      using 1(2) True by (intro store_at_append) simp
    finally show ?thesis by (simp add: split)
  next
    case False
    then show ?thesis by (subst pad_spaces.simps) simp
  qed
qed

lemma copy_padded_field:
  assumes "len \<le> length dest"
  shows "copy_padded dest src len = field src len @ drop len dest"
proof -
  let ?cs = "take len (takeWhile (\<lambda>c. c \<noteq> 0) src)"
  have "copy_padded dest src len = store_at (0 + length ?cs) (replicate (len - length ?cs) 0x20) (store_at 0 ?cs dest)"
    using copy_chars_store [OF assms, of 0 src] pad_spaces_store [of len "store_at 0 ?cs dest"] assms
    by (simp add: copy_padded_def Let_def)
  also have "\<dots> = store_at 0 (?cs @ replicate (len - length ?cs) 0x20) dest"
    using assms by (intro store_at_append) simp
  also have "\<dots> = field src len @ drop len dest"
    by (simp add: store_at_def field_def Let_def)
  finally show ?thesis .
qed

text \<open>The 32 bytes of an entry; nothing is left of what was in the buffer before.\<close>

definition dir_entry :: "u8 list \<Rightarrow> u8 list \<Rightarrow> u8 \<Rightarrow> u32 \<Rightarrow> u32 \<Rightarrow> u8 list" where
  "dir_entry name ext attr cluster sz = field name 8 @ field ext 3 @ [attr] @ replicate 14 0 @
     [byte_of 0 cluster, byte_of 1 cluster, byte_of 0 sz, byte_of 1 sz, byte_of 2 sz, byte_of 3 sz]"

lemma length_dir_entry [simp]: "length (dir_entry name ext attr cluster sz) = 32"
  by (simp add: dir_entry_def)

lemma store_at_snoc:
  "n = k + length ys \<Longrightarrow> n < length xs \<Longrightarrow> (store_at k ys xs)[n := v] = store_at k (ys @ [v]) xs"
  using store_at_append [of k ys "[v]" xs] by (simp add: list_update_store_at)

lemma set_dir_entry_eq:
  assumes "length e = 32"
  shows "set_dir_entry e name ext attr cluster sz = dir_entry name ext attr cluster sz"
proof -
  have e2: "copy_padded e name 8 = field name 8 @ drop 8 e"
    using assms by (simp add: copy_padded_field)
  have e3: "take 8 (copy_padded e name 8) @ copy_padded (drop 8 (copy_padded e name 8)) ext 3 =
      field name 8 @ field ext 3 @ drop 11 e"
    using assms by (simp add: e2 copy_padded_field)
  let ?X = "field name 8 @ field ext 3 @ drop 11 e"
  have "store_at 12 (replicate 14 0) (?X[11 := attr]) = store_at (11 + length [attr]) (replicate 14 0) (store_at 11 [attr] ?X)"
    using assms by (simp add: list_update_store_at)
  also have "\<dots> = store_at 11 ([attr] @ replicate 14 0) ?X"
    by (rule store_at_append) (use assms in simp)
  finally have "set_dir_entry e name ext attr cluster sz = store_at 11 (([attr] @ replicate 14 0) @
      [byte_of 0 cluster, byte_of 1 cluster, byte_of 0 sz, byte_of 1 sz, byte_of 2 sz, byte_of 3 sz]) ?X"
    unfolding set_dir_entry_def Let_def e3 using assms by (simp add: store_at_snoc)
  then show ?thesis using assms by (simp add: store_at_def dir_entry_def)
qed

section \<open>Names and entries\<close>

lemma dir_entry_nth:
  "i < 8 \<Longrightarrow> dir_entry name ext attr cluster sz ! i = field name 8 ! i"
  "i < 3 \<Longrightarrow> dir_entry name ext attr cluster sz ! (8 + i) = field ext 3 ! i"
  "dir_entry name ext attr cluster sz ! 11 = attr"
  by (simp_all add: dir_entry_def nth_append)

lemma upper_zero [simp]: "upper c = 0 \<longleftrightarrow> c = 0"
proof -
  have "c - 32 \<noteq> 0" if "0x61 \<le> c" using that by (auto simp: word_le_nat_alt)
  then show ?thesis by (auto simp: upper_def)
qed

lemma field_upper: "field (map upper name) len = map upper (field name len)"
  by (simp add: field_def Let_def takeWhile_map comp_def take_map upper_def [of "0x20"] map_replicate)

text \<open>A search matches exactly the entries whose stored name is the query in upper case.\<close>

lemma names_equal_dir_entry:
  "names_equal (dir_entry name ext attr cluster sz) name' ext' \<longleftrightarrow>
     field name 8 = map upper (field name' 8) \<and> field ext 3 = map upper (field ext' 3)"
proof -
  have eq: "(\<forall>i \<in> set [0 ..< n]. xs ! i = upper (ys ! i)) \<longleftrightarrow> xs = map upper ys"
    if "length xs = n" "length ys = n" for xs ys n
  proof
    assume "\<forall>i \<in> set [0 ..< n]. xs ! i = upper (ys ! i)"
    then show "xs = map upper ys" using that by (intro nth_equalityI) simp_all
  qed (use that in simp)
  have "copy_padded (replicate 8 0) name' 8 = field name' 8" "copy_padded (replicate 3 0) ext' 3 = field ext' 3"
    by (simp_all add: copy_padded_field)
  moreover have "(\<forall>i \<in> set [0 ..< 8]. dir_entry name ext attr cluster sz ! i = upper (field name' 8 ! i)) \<longleftrightarrow>
      (\<forall>i \<in> set [0 ..< 8]. field name 8 ! i = upper (field name' 8 ! i))"
    by (rule ball_cong) (auto simp: dir_entry_nth(1))
  moreover have "(\<forall>i \<in> set [0 ..< 3]. dir_entry name ext attr cluster sz ! (8 + i) = upper (field ext' 3 ! i)) \<longleftrightarrow>
      (\<forall>i \<in> set [0 ..< 3]. field ext 3 ! i = upper (field ext' 3 ! i))"
    by (rule ball_cong) (auto simp: dir_entry_nth(2))
  ultimately show ?thesis
    unfolding names_equal_def Let_def
    using eq [of "field name 8" 8 "field name' 8"] eq [of "field ext 3" 3 "field ext' 3"] by (simp only: length_field)
qed

text \<open>A plain name: no NUL, no trailing blank, not too long.\<close>

definition plain :: "nat \<Rightarrow> u8 list \<Rightarrow> bool" where
  "plain n s \<longleftrightarrow> length s \<le> n \<and> 0 \<notin> set s \<and> (s \<noteq> [] \<longrightarrow> last s \<noteq> 0x20)"

lemma field_plain: "plain n s \<Longrightarrow> field s n = s @ replicate (n - length s) 0x20"
proof -
  assume "plain n s"
  then have "takeWhile (\<lambda>c. c \<noteq> 0) s = s" "take n s = s" by (auto simp: plain_def takeWhile_eq_all_conv)
  then show ?thesis unfolding field_def Let_def by (simp only:)
qed

lemma trim_end_spaces:
  assumes "s \<noteq> [] \<longrightarrow> last s \<noteq> 0x20"
  shows "trim_end (s @ replicate k 0x20 @ r) (length s + k) = length s"
proof (induction k arbitrary: r)
  case 0
  show ?case using assms by (cases s rule: rev_cases) (auto simp: nth_append)
next
  case (Suc k)
  have "s @ replicate (Suc k) 0x20 @ r = s @ replicate k 0x20 @ (0x20 # r)"
    by (simp add: replicate_app_Cons_same)
  moreover have "(s @ replicate k 0x20 @ (0x20 # r)) ! (length s + k) = 0x20" by (simp add: nth_append)
  ultimately show ?case using Suc [of "0x20 # r"] by simp
qed

lemma trim_copy_field:
  assumes "plain n s" and "n < length dest"
  shows "c_string (trim_copy dest (field s n @ r) n) = s"
proof -
  have p: "length s \<le> n" "0 \<notin> set s" "s \<noteq> [] \<longrightarrow> last s \<noteq> 0x20" using assms(1) by (auto simp: plain_def)
  have "trim_end (field s n @ r) n = length s"
    using trim_end_spaces [OF p(3), of "n - length s" r] p(1) by (simp add: field_plain [OF assms(1)])
  then have "trim_copy dest (field s n @ r) n = (s @ drop (length s) dest)[length s := 0]"
    using p(1) by (simp add: trim_copy_def Let_def field_plain [OF assms(1)] store_at_def)
  moreover have "(s @ drop (length s) dest)[length s := 0] = s @ 0 # drop (Suc (length s)) dest"
    using p(1) assms(2) by (simp add: list_update_append Cons_nth_drop_Suc [symmetric])
  moreover have "\<And>x. x \<in> set s \<Longrightarrow> x \<noteq> 0" using p(2) by auto
  ultimately show ?thesis by (simp add: c_string_def takeWhile_append2)
qed

text \<open>What \<open>fill_dirent\<close> delivers of an entry that \<open>set_dir_entry\<close> made.\<close>

lemma fill_dirent_entry:
  assumes "plain 8 name" and "plain 3 ext" and "8 < length (de_name dd)" and "3 < length (de_ext dd)"
  shows "c_string (de_name (fill_dirent dd (dir_entry name ext attr cluster sz))) = name"
    and "c_string (de_ext (fill_dirent dd (dir_entry name ext attr cluster sz))) = ext"
    and "de_attr (fill_dirent dd (dir_entry name ext attr cluster sz)) = attr"
    and "de_cluster (fill_dirent dd (dir_entry name ext attr cluster sz)) = take_bit 16 cluster"
    and "de_size (fill_dirent dd (dir_entry name ext attr cluster sz)) = sz"
proof -
  have d: "drop 8 (dir_entry name ext attr cluster sz) = field ext 3 @ [attr] @ replicate 14 0 @
     [byte_of 0 cluster, byte_of 1 cluster, byte_of 0 sz, byte_of 1 sz, byte_of 2 sz, byte_of 3 sz]"
    by (simp add: dir_entry_def)
  show "c_string (de_name (fill_dirent dd (dir_entry name ext attr cluster sz))) = name"
    using trim_copy_field [OF assms(1,3)] by (simp add: fill_dirent_def dir_entry_def)
  show "c_string (de_ext (fill_dirent dd (dir_entry name ext attr cluster sz))) = ext"
    using trim_copy_field [OF assms(2,4)] by (simp add: fill_dirent_def d)
  show "de_attr (fill_dirent dd (dir_entry name ext attr cluster sz)) = attr"
    by (simp add: fill_dirent_def dir_entry_nth)
  show "de_cluster (fill_dirent dd (dir_entry name ext attr cluster sz)) = take_bit 16 cluster"
    by (simp add: fill_dirent_def dir_entry_def nth_append le16_byte_of)
  show "de_size (fill_dirent dd (dir_entry name ext attr cluster sz)) = sz"
    by (simp add: fill_dirent_def dir_entry_def nth_append le32_byte_of)
qed

section \<open>The entries of a directory\<close>

definition sector_slots :: "u8 list \<Rightarrow> u8 list list" where
  "sector_slots s = map (slot s) [0 ..< 16]"

definition slots :: "disk \<Rightarrow> u32 \<Rightarrow> nat \<Rightarrow> u8 list list" where
  "slots S lba n = concat (map (\<lambda>i. sector_slots (S (lba + of_nat i))) [0 ..< n])"

definition is_free :: "u8 list \<Rightarrow> bool" where
  "is_free e \<longleftrightarrow> e ! 0 = 0x00 \<or> e ! 0 = 0xE5"

lemma slots_Suc: "slots S lba (Suc n) = sector_slots (S lba) @ slots S (lba + 1) n"
proof -
  have "[0 ..< Suc n] = 0 # map Suc [0 ..< n]" by (simp add: upt_conv_Cons map_Suc_upt del: upt_Suc)
  then show ?thesis by (simp add: slots_def comp_def add.assoc del: upt_Suc)
qed

lemma slots_0 [simp]: "slots S lba 0 = []"
  by (simp add: slots_def)

lemma slot_hd: "length s = 512 \<Longrightarrow> i < 16 \<Longrightarrow> slot s i ! 0 = s ! (i * 32)"
  by (simp add: slot_def)

abbreviation slot_free :: "u8 list \<Rightarrow> nat \<Rightarrow> bool" where
  "slot_free s j \<equiv> s ! (j * 32) = 0x00 \<or> s ! (j * 32) = 0xE5"

lemma free_slot_None: "free_slot s n i = None \<Longrightarrow> i \<le> j \<Longrightarrow> j < i + n \<Longrightarrow> \<not> slot_free s j"
proof (induction n arbitrary: i)
  case (Suc n)
  have "\<not> slot_free s i" "free_slot s n (Suc i) = None" using Suc.prems(1) by (auto split: if_splits)
  with Suc.IH [of "Suc i"] Suc.prems(2,3) show ?case by (cases "j = i") simp_all
qed simp

lemma free_slot_Some:
  "free_slot s n i = Some k \<Longrightarrow>
     i \<le> k \<and> k < i + n \<and> slot_free s k \<and> (\<forall>j. i \<le> j \<and> j < k \<longrightarrow> \<not> slot_free s j)"
proof (induction n arbitrary: i)
  case (Suc n)
  show ?case
  proof (cases "slot_free s i")
    case True
    with Suc.prems have "k = i" by (simp split: if_splits)
    with True show ?thesis by auto
  next
    case False
    with Suc.prems have "free_slot s n (Suc i) = Some k" by (simp split: if_splits)
    note IH = Suc.IH [OF this]
    have "\<not> slot_free s j" if "i \<le> j \<and> j < k" for j
      using IH False that by (cases "j = i") (simp_all add: Suc_le_eq)
    with IH show ?thesis by simp
  qed
qed simp

lemma slot_store_at:
  assumes "length s = 512" and "length e = 32" and "k < 16" and "j < 16"
  shows "slot (store_at (k * 32) e s) j = (if j = k then e else slot s j)"
proof (rule nth_equalityI)
  have le: "k * 32 + 32 \<le> 512" "j * 32 + 32 \<le> 512" using assms(3,4) by simp_all
  show "length (slot (store_at (k * 32) e s) j) = length (if j = k then e else slot s j)"
    using assms le by (simp add: slot_def)
  fix i assume "i < length (slot (store_at (k * 32) e s) j)"
  then have i: "i < 32" by (simp add: slot_def)
  have "j * 32 + i < 512" using i le(2) by simp
  then have "store_at (k * 32) e s ! (j * 32 + i) =
      (if k * 32 \<le> j * 32 + i \<and> j * 32 + i < k * 32 + 32 then e ! (j * 32 + i - k * 32) else s ! (j * 32 + i))"
    using assms(1,2) le by (subst nth_store_at) simp_all
  moreover have "k * 32 \<le> j * 32 + i \<and> j * 32 + i < k * 32 + 32 \<longleftrightarrow> j = k" using i by auto
  ultimately show "slot (store_at (k * 32) e s) j ! i = (if j = k then e else slot s j) ! i"
    using assms le i by (auto simp: slot_def)
qed

lemma sector_slots_split:
  assumes "length s = 512" and "length e = 32" and "free_slot s 16 0 = Some k"
  obtains pre x post where "sector_slots s = pre @ x # post" and "is_free x" and "\<forall>y \<in> set pre. \<not> is_free y"
    and "sector_slots (store_at (k * 32) e s) = pre @ e # post"
proof -
  have k: "k < 16" "is_free (slot s k)" "\<forall>j < k. \<not> is_free (slot s j)"
    using free_slot_Some [OF assms(3)] slot_hd [OF assms(1)] by (auto simp: is_free_def)
  have u: "[0 ..< 16] = [0 ..< k] @ k # [Suc k ..< 16]"
    using upt_add_eq_append [of 0 k "16 - k"] upt_conv_Cons [OF k(1)] k(1) by simp
  show ?thesis
  proof
    show "sector_slots s = map (slot s) [0 ..< k] @ slot s k # map (slot s) [Suc k ..< 16]"
      unfolding sector_slots_def u by simp
    show "sector_slots (store_at (k * 32) e s) = map (slot s) [0 ..< k] @ e # map (slot s) [Suc k ..< 16]"
      unfolding sector_slots_def u using k(1) slot_store_at [OF assms(1,2) k(1)] by simp
  qed (use k in auto)
qed

lemma sector_slots_full:
  "length s = 512 \<Longrightarrow> free_slot s 16 0 = None \<Longrightarrow> \<forall>y \<in> set (sector_slots s). \<not> is_free y"
  using free_slot_None [of s 16 0] by (auto simp: sector_slots_def is_free_def slot_hd)

text \<open>A search through entries: \<open>Some None\<close> at the end marker, \<open>Some (Some e)\<close> at a match.\<close>

fun dir_scan :: "u8 list \<Rightarrow> u8 list \<Rightarrow> u8 list list \<Rightarrow> u8 list option option" where
  "dir_scan name ext [] = None"
| "dir_scan name ext (e # es) =
     (if e ! 0 = 0x00 then Some None
      else if e ! 0 = 0xE5 \<or> e ! 11 = 0x0F then dir_scan name ext es
      else if names_equal e name ext then Some (Some e)
      else dir_scan name ext es)"

lemma dir_scan_append:
  "dir_scan name ext (xs @ ys) = (case dir_scan name ext xs of None \<Rightarrow> dir_scan name ext ys | Some r \<Rightarrow> Some r)"
  by (induction xs) auto

lemma find_slot_scan:
  "i + n = 16 \<Longrightarrow> find_slot s name ext n i = dir_scan name ext (map (slot s) [i ..< 16])"
proof (induction n arbitrary: i)
  case (Suc n)
  then have "[i ..< 16] = i # [Suc i ..< 16]" by (intro upt_conv_Cons) simp
  with Suc show ?case by (simp add: Let_def)
qed simp

text \<open>The entries a listing shows.\<close>

definition dir_live :: "u8 list list \<Rightarrow> u8 list list" where
  "dir_live es = filter (\<lambda>e. e ! 0 \<noteq> 0xE5 \<and> e ! 11 \<noteq> 0x0F) (takeWhile (\<lambda>e. e ! 0 \<noteq> 0x00) es)"

definition ended :: "u8 list list \<Rightarrow> bool" where
  "ended es \<longleftrightarrow> (\<exists>e \<in> set es. e ! 0 = 0x00)"

lemma dir_live_append:
  "dir_live (xs @ ys) = (if ended xs then dir_live xs else dir_live xs @ dir_live ys)"
proof (cases "ended xs")
  case True
  then show ?thesis by (auto simp: dir_live_def ended_def takeWhile_append)
next
  case False
  then have "\<forall>e \<in> set xs. e ! 0 \<noteq> 0" by (simp add: ended_def)
  then have "takeWhile (\<lambda>e. e ! 0 \<noteq> 0) xs = xs" by (simp add: takeWhile_eq_all_conv)
  moreover from this have "takeWhile (\<lambda>e. e ! 0 \<noteq> 0) (xs @ ys) = xs @ takeWhile (\<lambda>e. e ! 0 \<noteq> 0) ys"
    using False by (simp add: ended_def takeWhile_append)
  ultimately show ?thesis using False unfolding dir_live_def by (simp only: filter_append if_False)
qed

text \<open>Filling the output array from entry \<open>k\<close> on, up to \<open>m\<close> entries.\<close>

fun fill_list :: "int \<Rightarrow> nat \<Rightarrow> u8 list list \<Rightarrow> fat16_dirent list \<Rightarrow> fat16_dirent list" where
  "fill_list m k [] out = out"
| "fill_list m k (e # es) out =
     fill_list m (Suc k) es (if int k < m then out[k := fill_dirent (out ! k) e] else out)"

lemma length_fill_list [simp]: "length (fill_list m k es out) = length out"
  by (induction m k es out rule: fill_list.induct) auto

lemma fill_list_append: "fill_list m k (xs @ ys) out = fill_list m (k + length xs) ys (fill_list m k xs out)"
  by (induction m k xs out rule: fill_list.induct) auto

lemma fill_list_nth:
  "i < length out \<Longrightarrow> fill_list m k es out ! i =
     (if k \<le> i \<and> i < k + length es \<and> int i < m then fill_dirent (out ! i) (es ! (i - k)) else out ! i)"
proof (induction m k es out rule: fill_list.induct)
  case (2 m k e es out)
  then show ?case by (cases "i = k") (auto simp: nth_list_update nth_Cons' Suc_le_eq)
qed auto

lemma list_slots_live:
  assumes "i + n = 16" and "max_entries \<le> int (length out)"
  shows "list_slots s max_entries n i cnt out =
    Some (ended (map (slot s) [i ..< 16]), cnt + length (dir_live (map (slot s) [i ..< 16])),
      fill_list max_entries cnt (dir_live (map (slot s) [i ..< 16])) out)"
  using assms
proof (induction n arbitrary: i cnt out)
  case 0
  then show ?case by (simp add: ended_def dir_live_def)
next
  case (Suc n)
  then have u: "[i ..< 16] = i # [Suc i ..< 16]" by (intro upt_conv_Cons) simp
  have "cnt < length out" if "int cnt < max_entries" using that Suc.prems(2) by simp
  then show ?case using Suc by (auto simp: u Let_def dir_live_def ended_def get_at_def)
qed

text \<open>
  What storing an entry in the \<open>n\<close> directory sectors from \<open>lba\<close> on does: the first free or
  deleted slot is replaced, or there is none and nothing happens.
\<close>

definition placed :: "disk \<Rightarrow> disk \<Rightarrow> u32 \<Rightarrow> nat \<Rightarrow> u8 list \<Rightarrow> bool \<Rightarrow> bool" where
  "placed S S' lba n entry okr \<longleftrightarrow>
    (if \<forall>e \<in> set (slots S lba n). \<not> is_free e then \<not> okr \<and> S' = S
     else okr \<and> (\<exists>pre x post. slots S lba n = pre @ x # post \<and> is_free x \<and> (\<forall>y \<in> set pre. \<not> is_free y) \<and>
       slots S' lba n = pre @ entry # post) \<and>
       (\<forall>z. \<not> (unat lba \<le> unat z \<and> unat z < unat lba + n) \<longrightarrow> S' z = S z))"

lemma slots_upd_before:
  assumes "unat lba + Suc n < 2 ^ 32"
  shows "slots (S(lba := v)) (lba + 1) n = slots S (lba + 1) n"
  unfolding slots_def
proof (intro arg_cong [where f = concat] map_cong refl)
  fix i assume "i \<in> set [0 ..< n]"
  then have "unat (lba + of_nat (Suc i)) = unat lba + Suc i"
    using assms by (intro u32_index) simp
  then have "unat (lba + 1 + of_nat i) = unat lba + Suc i" by (simp add: add.assoc)
  then have "lba + 1 + of_nat i \<noteq> lba" by (simp add: word_unat_eq_iff)
  then show "sector_slots ((S(lba := v)) (lba + 1 + of_nat i)) = sector_slots (S (lba + 1 + of_nat i))" by simp
qed

lemma placed_here:
  assumes "length (S lba) = 512" and "length entry = 32" and "free_slot (S lba) 16 0 = Some k"
    and "unat lba + Suc n < 2 ^ 32"
  shows "placed S (S(lba := store_at (k * 32) entry (S lba))) lba (Suc n) entry True"
proof -
  let ?S = "S(lba := store_at (k * 32) entry (S lba))"
  obtain pre x post where p: "sector_slots (S lba) = pre @ x # post" "is_free x" "\<forall>y \<in> set pre. \<not> is_free y"
    "sector_slots (store_at (k * 32) entry (S lba)) = pre @ entry # post"
    by (rule sector_slots_split [OF assms(1-3)])
  have s: "slots S lba (Suc n) = pre @ x # (post @ slots S (lba + 1) n)"
    "slots ?S lba (Suc n) = pre @ entry # (post @ slots S (lba + 1) n)"
    using p(1,4) slots_upd_before [OF assms(4)] by (simp_all add: slots_Suc)
  then have "\<not> (\<forall>e \<in> set (slots S lba (Suc n)). \<not> is_free e)" using p(2) by auto
  moreover have "\<forall>z. \<not> (unat lba \<le> unat z \<and> unat z < unat lba + Suc n) \<longrightarrow> ?S z = S z" by auto
  ultimately show ?thesis unfolding placed_def using s p(2,3) by (simp only: if_False simp_thms) blast
qed

lemma placed_later:
  assumes "placed S S' (lba + 1) n entry okr" and full: "\<forall>y \<in> set (sector_slots (S lba)). \<not> is_free y"
    and "unat lba + Suc n < 2 ^ 32"
  shows "placed S S' lba (Suc n) entry okr"
proof (cases "\<forall>e \<in> set (slots S (lba + 1) n). \<not> is_free e")
  case True
  then have "\<forall>e \<in> set (slots S lba (Suc n)). \<not> is_free e" using full by (auto simp: slots_Suc)
  moreover have "\<not> okr" "S' = S" using assms(1) True unfolding placed_def by simp_all
  ultimately show ?thesis unfolding placed_def by simp
next
  case False
  have lba1: "unat (lba + 1) = unat lba + 1" using assms(3) by (subst unat_add_nowrap) simp_all
  obtain pre x post where p: "okr" "slots S (lba + 1) n = pre @ x # post" "is_free x"
    "\<forall>y \<in> set pre. \<not> is_free y" "slots S' (lba + 1) n = pre @ entry # post"
    "\<forall>z. \<not> (unat (lba + 1) \<le> unat z \<and> unat z < unat (lba + 1) + n) \<longrightarrow> S' z = S z"
    using assms(1) False unfolding placed_def by (simp only: if_False) blast
  have "S' lba = S lba" using p(6) lba1 by simp
  then have s: "slots S lba (Suc n) = (sector_slots (S lba) @ pre) @ x # post"
    "slots S' lba (Suc n) = (sector_slots (S lba) @ pre) @ entry # post"
    using p(2,5) by (simp_all add: slots_Suc)
  have "\<not> (\<forall>e \<in> set (slots S lba (Suc n)). \<not> is_free e)" using s(1) p(3) by auto
  moreover have "\<forall>z. \<not> (unat lba \<le> unat z \<and> unat z < unat lba + Suc n) \<longrightarrow> S' z = S z"
    using p(6) lba1 by simp
  moreover have "\<forall>y \<in> set (sector_slots (S lba) @ pre). \<not> is_free y" using full p(4) by auto
  ultimately show ?thesis unfolding placed_def using s p(1,3) by (simp only: if_False simp_thms) blast
qed

context block_device
begin

lemma place_entry_ok:
  assumes "disk_is d S C" and "unat lba + n \<le> unat C" and "length entry = 32" and "length sector = 512"
  shows "\<exists>okr d' S'. place_entry E entry n lba sector d = (okr, d') \<and> disk_is d' S' C \<and> placed S S' lba n entry okr"
  using assms(1,2,4)
proof (induction n arbitrary: lba d sector)
  case 0
  then show ?case by (auto simp: placed_def)
next
  case (Suc n)
  have lba: "lba < C" using Suc.prems(2) by (simp add: word_less_nat_alt)
  have lba1: "unat (lba + 1) + n \<le> unat C" using unat_Suc_below [OF lba] Suc.prems(2) by simp
  have fit: "unat lba + Suc n < 2 ^ 32"
    using cap_bound [of d] Suc.prems(1,2) by (simp add: disk_is_def)
  note len = disk_lengths(1) [OF Suc.prems(1)]
  obtain d1 where d1: "rd_sector E lba sector d = (True, S lba, d1)" "disk_is d1 S C"
    by (rule disk_read [OF Suc.prems(1) lba Suc.prems(3)])
  show ?case
  proof (cases "free_slot (S lba) 16 0")
    case None
    obtain okr d' S' where r: "place_entry E entry n (lba + 1) (S lba) d1 = (okr, d')" "disk_is d' S' C"
      "placed S S' (lba + 1) n entry okr"
      using Suc.IH [OF d1(2) lba1 len [of lba]] by blast
    have "placed S S' lba (Suc n) entry okr"
      by (rule placed_later [OF r(3) sector_slots_full [OF len None] fit])
    with r d1(1) None show ?thesis by auto
  next
    case (Some k)
    have "length (store_at (k * 32) entry (S lba)) = 512"
      using len free_slot_Some [OF Some] assms(3) by simp
    then obtain d2 where d2: "wr_sector E lba (store_at (k * 32) entry (S lba)) d1 = (True, d2)"
      "disk_is d2 (S(lba := store_at (k * 32) entry (S lba))) C"
      using disk_write [OF d1(2) lba] by blast
    moreover have "placed S (S(lba := store_at (k * 32) entry (S lba))) lba (Suc n) entry True"
      by (rule placed_here [where S = S and lba = lba, OF len assms(3) Some fit])
    moreover have "place_entry E entry (Suc n) lba sector d = (True, d2)" using d1(1) Some d2(1) assms(3) by simp
    ultimately show ?thesis by blast
  qed
qed

lemma find_sectors_ok:
  assumes "disk_is d S C" and "unat lba + n \<le> unat C" and "length sector = 512"
  shows "\<exists>d'. disk_is d' S C \<and> find_sectors E name ext n lba sector out d =
    (case dir_scan name ext (slots S lba n) of Some (Some e) \<Rightarrow> (True, fill_dirent out e, d') | _ \<Rightarrow> (False, out, d'))"
  using assms
proof (induction n arbitrary: lba d sector)
  case (Suc n)
  have lba: "lba < C" using Suc.prems(2) by (simp add: word_less_nat_alt)
  then have lba1: "unat (lba + 1) + n \<le> unat C" using unat_Suc_below [OF lba] Suc.prems(2) by simp
  obtain d1 where d1: "rd_sector E lba sector d = (True, S lba, d1)" "disk_is d1 S C"
    by (rule disk_read [OF Suc.prems(1) lba Suc.prems(3)])
  note IH = Suc.IH [OF d1(2) lba1 disk_lengths(1) [OF Suc.prems(1)], of lba]
  have "find_slot (S lba) name ext 16 0 = dir_scan name ext (sector_slots (S lba))"
    using find_slot_scan [of 0 16 "S lba" name ext] by (simp add: sector_slots_def)
  with d1 IH show ?case
    by (cases "dir_scan name ext (sector_slots (S lba))") (auto simp: slots_Suc dir_scan_append split: option.splits)
qed auto

lemma list_sectors_ok:
  assumes "disk_is d S C" and "unat lba + n \<le> unat C" and "length sector = 512" and "m \<le> int (length out)"
  shows "\<exists>d'. disk_is d' S C \<and> list_sectors E m n lba cnt sector out d =
    Some (int (cnt + length (dir_live (slots S lba n))), fill_list m cnt (dir_live (slots S lba n)) out, d')"
  using assms
proof (induction n arbitrary: lba d sector cnt out)
  case 0
  then show ?case by (auto simp: dir_live_def)
next
  case (Suc n)
  have lba: "lba < C" using Suc.prems(2) by (simp add: word_less_nat_alt)
  then have lba1: "unat (lba + 1) + n \<le> unat C" using unat_Suc_below [OF lba] Suc.prems(2) by simp
  obtain d1 where d1: "rd_sector E lba sector d = (True, S lba, d1)" "disk_is d1 S C"
    by (rule disk_read [OF Suc.prems(1) lba Suc.prems(3)])
  let ?ss = "sector_slots (S lba)"
  have l: "list_slots (S lba) m 16 0 cnt out = Some (ended ?ss, cnt + length (dir_live ?ss), fill_list m cnt (dir_live ?ss) out)"
    using list_slots_live [of 0 16 m out "S lba" cnt] Suc.prems(4) by (simp add: sector_slots_def)
  have "m \<le> int (length (fill_list m cnt (dir_live ?ss) out))" using Suc.prems(4) by simp
  note IH = Suc.IH [where sector = "S lba", OF d1(2) lba1 disk_lengths(1) [OF Suc.prems(1)] this, of "cnt + length (dir_live ?ss)"]
  show ?case
  proof (cases "ended ?ss")
    case True
    then show ?thesis using d1 l by (simp add: slots_Suc dir_live_append)
  next
    case False
    then show ?thesis using d1 l IH by (simp add: slots_Suc dir_live_append fill_list_append add.assoc)
  qed
qed

end

end
