(* ===== verification/FatVolume.thy ===== *)
theory FatVolume
  imports FatDir
begin

text \<open>
  Whole operations of \<^verbatim>\<open>kernel/fs/fat16.c\<close> on a block device: what formatting leaves on the
  disk and that mounting recognises it, storing the contents of a file, creating, finding
  and reading files in the root directory, and what none of them touches.
\<close>

section \<open>Formatting and mounting\<close>

text \<open>The first sector of an empty FAT.\<close>

definition fat_head :: "u8 list" where
  "fat_head = (replicate 512 0)[0 := 0xF8, 1 := 0xFF, 2 := 0xFF, 3 := 0xFF]"

text \<open>What \<open>fat16_format\<close> leaves on the sectors of the partition before its data region.\<close>

definition formatted :: "u32 \<Rightarrow> u8 list \<Rightarrow> disk \<Rightarrow> bool" where
  "formatted p boot S \<longleftrightarrow> S p = boot \<and>
     (\<forall>i < 512. S (p + of_nat (1 + i)) = (if i mod 256 = 0 then fat_head else replicate 512 0)) \<and>
     (\<forall>i < 32. S (p + of_nat (513 + i)) = replicate 512 0)"

context block_device
begin

lemma format_fat_ok:
  assumes "disk_is d S C" and "unat base + 256 \<le> unat C" and "length sector = 512"
  obtains d' S' where "format_fat E base sector d = (True, d')" and "disk_is d' S' C"
    and "\<And>z. S' z = (if unat z = unat base then fat_head
      else if unat base < unat z \<and> unat z < unat base + 256 then replicate 512 0 else S z)"
proof -
  have C: "unat C < 2 ^ 32" using unsigned_less [of C, where ?'a = nat] by simp
  have h: "(zero_sector sector)[0 := 0xF8, 1 := 0xFF, 2 := 0xFF, 3 := 0xFF] = fat_head"
    using assms(3) by (simp add: zero_sector_512 fat_head_def)
  have len: "length fat_head = 512" by (simp add: fat_head_def)
  have b: "base < C" using assms(2) by (simp add: word_less_nat_alt)
  obtain d1 where d1: "wr_sector E base fat_head d = (True, d1)" "disk_is d1 (S(base := fat_head)) C"
    by (rule disk_write [OF assms(1) b len])
  have b1: "unat (base + 1) = unat base + 1" using unat_Suc_below [OF b] by simp
  let ?S' = "put_sectors (base + 1) (\<lambda>_. replicate 512 0) 255 (S(base := fat_head))"
  have "\<exists>d'. write_run E (replicate 512 0) 255 (base + 1 + of_nat 0) d1 = (True, d') \<and>
      disk_is d' (put_sectors (base + 1) (\<lambda>_. replicate 512 0) (0 + 255) (S(base := fat_head))) C"
    by (rule write_run_ok) (use d1(2) b1 assms(2) in simp_all)
  then obtain d2 where d2: "write_run E (replicate 512 0) 255 (base + 1) d1 = (True, d2)" "disk_is d2 ?S' C" by auto
  have z: "zero_sector fat_head = replicate 512 0" by (rule zero_sector_512 [OF len])
  have "format_fat E base sector d = (True, d2)"
    unfolding format_fat_def Let_def h z using d1(1) d2(1) by simp
  moreover have "?S' x = (if unat x = unat base then fat_head
      else if unat base < unat x \<and> unat x < unat base + 256 then replicate 512 0 else S x)" for x
    using assms(2) C b1 by (subst put_sectors_at) (auto simp: word_unat_eq_iff)
  ultimately show ?thesis using that d2(2) by blast
qed

end

lemma length_boot_sector: "length s = 512 \<Longrightarrow> length (boot_sector p n s) = 512"
  by (simp add: boot_sector_def zero_sector_512 Let_def oem_def label_def fstype_def)

text \<open>The fields of the boot sector that \<open>fat16_mount\<close> reads.\<close>

lemma boot_sector_fields:
  assumes "length s = 512"
  shows "boot_sector p n s ! 510 = 0x55" "boot_sector p n s ! 511 = 0xAA"
    "le16 (boot_sector p n s ! 11) (boot_sector p n s ! 12) = 512" "boot_sector p n s ! 13 = 64"
    "le16 (boot_sector p n s ! 14) (boot_sector p n s ! 15) = 1" "boot_sector p n s ! 16 = 2"
    "le16 (boot_sector p n s ! 17) (boot_sector p n s ! 18) = 512"
    "le16 (boot_sector p n s ! 22) (boot_sector p n s ! 23) = 256"
  using assms
  by (simp_all add: boot_sector_def zero_sector_512 Let_def oem_def label_def fstype_def nth_store_at
      le16_def byte_of_def)

text \<open>The volume on a freshly formatted partition.\<close>

definition fresh_volume :: "u32 \<Rightarrow> fat16_volume" where
  "fresh_volume p = \<lparr>partition_lba = p, bytes_per_sector = 512, sectors_per_cluster = 64, reserved_sectors = 1,
     num_fats = 2, root_entries = 512, fat_size_sectors = 256, root_dir_sectors = 32,
     fat_start = p + 1, root_start = p + 513, data_start = p + 545\<rparr>"

definition formatted_clusters :: "u32 \<Rightarrow> nat" where
  "formatted_clusters n = (unat n - 545) div 64"

definition format_fits :: "u32 \<Rightarrow> bool" where
  "format_fits n \<longleftrightarrow> 4085 \<le> formatted_clusters n \<and> formatted_clusters n \<le> 65524"

lemma format_fits_code:
  "format_fits n \<longleftrightarrow> \<not> n \<le> RESERVED_SECTORS + NUM_FATS * FAT_SIZE_SECTORS + ROOT_DIR_SECTORS \<and>
     \<not> ((n - (RESERVED_SECTORS + NUM_FATS * FAT_SIZE_SECTORS + ROOT_DIR_SECTORS)) div SECTORS_PER_CLUSTER < 4085 \<or>
        (n - (RESERVED_SECTORS + NUM_FATS * FAT_SIZE_SECTORS + ROOT_DIR_SECTORS)) div SECTORS_PER_CLUSTER > 65524)"
proof (cases "unat n \<le> 545")
  case True
  then have "n \<le> 545" by (simp add: word_le_nat_alt)
  with True show ?thesis by (simp add: format_fits_def formatted_clusters_def)
next
  case False
  then have "unat (n - 545) = unat n - 545" by (subst unat_sub) (simp_all add: word_le_nat_alt)
  then have "unat ((n - 545) div 64) = formatted_clusters n" by (simp add: unat_div_distrib formatted_clusters_def)
  with False show ?thesis by (auto simp: format_fits_def word_le_nat_alt word_less_nat_alt)
qed

lemma fresh_vol_ok:
  assumes "format_fits n" and "unat p + unat n \<le> unat C"
  shows "vol_ok (fresh_volume p) (formatted_clusters n) C"
proof -
  let ?N = "formatted_clusters n"
  have N: "?N \<le> 65524" "0 < ?N" using assms(1) by (simp_all add: format_fits_def)
  have "545 < unat n" using N(2) by (simp add: formatted_clusters_def div_greater_zero_iff)
  moreover have "?N * 64 \<le> unat n - 545" by (simp add: formatted_clusters_def)
  ultimately have fit: "unat p + 545 + ?N * 64 \<le> unat C" using assms(2) by simp
  then have "unat p + 545 < 2 ^ 32" using unsigned_less [of C, where ?'a = nat] by simp
  then have "unat (p + 1) = unat p + 1" "unat (p + 513) = unat p + 513" "unat (p + 545) = unat p + 545"
    by (subst unat_add_nowrap; simp)+
  then show ?thesis using N fit by (simp add: vol_ok_def fresh_volume_def)
qed

lemma fat_head_nth: "k < 512 \<Longrightarrow> fat_head ! k = (if k = 0 then 0xF8 else if k < 4 then 0xFF else 0)"
  by (auto simp: fat_head_def nth_list_update)

lemma formatted_fatv:
  assumes "formatted p boot S" and "k < 2" and "c < 65536"
  shows "fatv (fresh_volume p) S k c = (if c = 0 then 0xFFF8 else if c = 1 then 0xFFFF else 0)"
proof -
  have i: "k * 256 + c div 256 < 512" "(k * 256 + c div 256) mod 256 = c div 256"
    using assms(2,3) by auto
  have "fat_lba (fresh_volume p) k c = p + of_nat (1 + (k * 256 + c div 256))"
    by (simp add: fat_lba_def fresh_volume_def ac_simps)
  moreover have "S (p + of_nat (1 + (k * 256 + c div 256))) =
      (if (k * 256 + c div 256) mod 256 = 0 then fat_head else replicate 512 0)"
    using assms(1) i(1) unfolding formatted_def by blast
  ultimately have s: "S (fat_lba (fresh_volume p) k c) = (if c div 256 = 0 then fat_head else replicate 512 0)"
    by (simp only: i(2))
  show ?thesis
  proof (cases "c < 256")
    case True
    then have "fat_off c = 2 * c" by (simp add: fat_off_def)
    with True s show ?thesis by (auto simp: fatv_def fat_head_nth le16_def)
  next
    case False
    then have "c div 256 \<noteq> 0" by (simp add: div_eq_0_iff)
    with False s fat_off_bounds [of c] show ?thesis by (simp add: fatv_def le16_def)
  qed
qed

lemma formatted_slots:
  assumes "formatted p boot S"
  shows "slots S (p + 513) 32 = replicate 512 (replicate 32 0)"
proof -
  have z: "sector_slots (replicate 512 0) = replicate 16 (replicate 32 0)"
    by (rule nth_equalityI) (auto simp: sector_slots_def slot_def)
  have "slots S (p + 513) 32 = concat (map (\<lambda>i. replicate 16 (replicate 32 0)) [0 ..< 32])"
    unfolding slots_def
  proof (intro arg_cong [where f = concat] map_cong refl)
    fix i assume "i \<in> set [0 ..< 32]"
    then have "S (p + of_nat (513 + i)) = replicate 512 0" using assms by (simp add: formatted_def)
    then show "sector_slots (S (p + 513 + of_nat i)) = replicate 16 (replicate 32 0)"
      by (simp add: z add.assoc)
  qed
  also have "\<dots> = replicate 512 (replicate 32 0)"
  proof -
    have "concat (map (\<lambda>i. replicate 16 x) [0 ..< n]) = replicate (16 * n) x" for n and x :: "u8 list"
      by (induction n) (simp_all add: replicate_add [symmetric] add.commute)
    from this [of "replicate 32 0" 32] show ?thesis by simp
  qed
  finally show ?thesis .
qed

context block_device
begin

lemma fat16_format_ok:
  assumes "disk_is d S C" and "format_fits n" and "unat p + unat n \<le> unat C"
  obtains d' S' where "fat16_format E p n d = (True, d')" and "disk_is d' S' C"
    and "formatted p (boot_sector p n (stack_buf E d)) S'"
    and "\<And>z. unat z < unat p \<or> unat p + 545 \<le> unat z \<Longrightarrow> S' z = S z"
proof -
  let ?b = "boot_sector p n (stack_buf E d)"
  have C: "unat C < 2 ^ 32" using unsigned_less [of C, where ?'a = nat] by simp
  have n: "545 < unat n" using assms(2) by (auto simp: format_fits_def formatted_clusters_def div_greater_zero_iff intro: ccontr)
  have lb: "length ?b = 512" by (rule length_boot_sector [OF disk_lengths(2) [OF assms(1)]])
  have u: "unat (p + of_nat i) = unat p + i" if "i \<le> 545" for i by (rule u32_index) (use that n assms(3) C in simp)
  have u': "unat (p + 1) = unat p + 1" "unat (p + 1 + 256) = unat p + 257" "unat (p + 513) = unat p + 513"
    using u [of 1] u [of 257] u [of 513] by (simp_all add: add.assoc)
  have "p < C" using n assms(3) by (simp add: word_less_nat_alt)
  then obtain d1 where d1: "wr_sector E p ?b d = (True, d1)" "disk_is d1 (S(p := ?b)) C"
    using disk_write [OF assms(1) _ lb] by blast
  obtain d2 S2 where d2: "format_fat E (p + 1) ?b d1 = (True, d2)" "disk_is d2 S2 C"
    "\<And>z. S2 z = (if unat z = unat (p + 1) then fat_head
      else if unat (p + 1) < unat z \<and> unat z < unat (p + 1) + 256 then replicate 512 0 else (S(p := ?b)) z)"
    by (rule format_fat_ok [OF d1(2) _ lb, of "p + 1"]) (use u' n assms(3) in auto)
  obtain d3 S3 where d3: "format_fat E (p + 1 + 256) ?b d2 = (True, d3)" "disk_is d3 S3 C"
    "\<And>z. S3 z = (if unat z = unat (p + 1 + 256) then fat_head
      else if unat (p + 1 + 256) < unat z \<and> unat z < unat (p + 1 + 256) + 256 then replicate 512 0 else S2 z)"
    by (rule format_fat_ok [OF d2(2) _ lb, of "p + 1 + 256"]) (use u' n assms(3) in auto)
  let ?S4 = "put_sectors (p + 513) (\<lambda>_. replicate 512 0) 32 S3"
  have "\<exists>d'. write_run E (replicate 512 0) 32 (p + 513 + of_nat 0) d3 = (True, d') \<and>
      disk_is d' (put_sectors (p + 513) (\<lambda>_. replicate 512 0) (0 + 32) S3) C"
    by (rule write_run_ok) (use d3(2) u' n assms(3) in simp_all)
  then obtain d4 where d4: "write_run E (replicate 512 0) 32 (p + 513) d3 = (True, d4)" "disk_is d4 ?S4 C" by auto
  have S4: "?S4 z = (if unat z = unat p then ?b
     else if unat z = unat p + 1 \<or> unat z = unat p + 257 then fat_head
     else if unat p < unat z \<and> unat z < unat p + 545 then replicate 512 0 else S z)" for z
  proof -
    have "?S4 z = (if unat (p + 513) \<le> unat z \<and> unat z < unat (p + 513) + 32 then replicate 512 0 else S3 z)"
      using u'(3) n assms(3) C by (subst put_sectors_at) auto
    then show ?thesis unfolding d3(3) d2(3) u' by (auto simp: word_unat_eq_iff)
  qed
  have "format_fats E (p + 1) ?b 2 0 d1 = (True, d3)"
    using d2(1) d3(1) by (simp add: numeral_2_eq_2)
  moreover have "zero_sector ?b = replicate 512 0" by (rule zero_sector_512 [OF lb])
  ultimately have fmt: "fat16_format E p n d = (True, d4)"
    using assms(2) [unfolded format_fits_code] d1(1) d4(1) unfolding fat16_format_def Let_def by (simp add: add.assoc)
  have "?S4 (p + of_nat (1 + i)) = (if i mod 256 = 0 then fat_head else replicate 512 0)" if "i < 512" for i
  proof -
    have "i mod 256 = 0 \<longleftrightarrow> i = 0 \<or> i = 256" using that by auto
    then show ?thesis using that u [of "1 + i"] unfolding S4 by auto
  qed
  moreover have "?S4 (p + of_nat (513 + i)) = replicate 512 0" if "i < 32" for i
    using that u [of "513 + i"] unfolding S4 by auto
  moreover have "?S4 p = ?b" unfolding S4 by simp
  ultimately have "formatted p ?b ?S4" unfolding formatted_def by blast
  moreover have "?S4 z = S z" if "unat z < unat p \<or> unat p + 545 \<le> unat z" for z
    using that unfolding S4 by auto
  ultimately show ?thesis by (rule that [OF fmt d4(2)])
qed

lemma fat16_mount_ok:
  assumes "disk_is d S C" and "p < C" and "S p = boot_sector p n s" and "length s = 512"
  obtains d' where "fat16_mount E p F d = (True, \<lparr>vol = fresh_volume p, mounted = True\<rparr>, d')" and "disk_is d' S C"
proof -
  note b = boot_sector_fields [OF assms(4), of p n]
  obtain d' where d': "rd_sector E p (stack_buf E d) d = (True, S p, d')" "disk_is d' S C"
    by (rule disk_read [OF assms(1,2) disk_lengths(2) [OF assms(1)]])
  have "fat16_mount E p F d = (True, \<lparr>vol = fresh_volume p, mounted = True\<rparr>, d')"
    using d'(1) unfolding assms(3) by (simp add: fat16_mount_def Let_def b fresh_volume_def add.assoc)
  then show ?thesis using that d'(2) by blast
qed

end

section \<open>Creating, finding and reading files\<close>

text \<open>The number of clusters a file of \<open>n\<close> bytes needs.\<close>

definition clusters_for :: "fat16_volume \<Rightarrow> nat \<Rightarrow> nat" where
  "clusters_for V n = (if n = 0 then 0 else Suc ((n - 1) div (512 * unat (sectors_per_cluster V))))"

text \<open>
  The contents \<open>bs\<close> are stored on a chain \<open>cs\<close> of clusters that were free, and nothing else
  was touched; an empty file has no clusters.
\<close>

definition stored :: "fat16_volume \<Rightarrow> nat \<Rightarrow> disk \<Rightarrow> u8 list \<Rightarrow> nat list \<Rightarrow> disk \<Rightarrow> bool" where
  "stored V N S bs cs S' \<longleftrightarrow>
     (if bs = [] then cs = [] else chain V N S' cs \<and> take (length bs) (file_bytes V S' cs) = bs) \<and>
     distinct cs \<and> set cs \<subseteq> free_clusters V N S \<and> length cs = clusters_for V (length bs) \<and>
     touches V S S' (set cs) \<and> free_clusters V N S' = free_clusters V N S - set cs \<and> (synced V S \<longrightarrow> synced V S')"

lemma stored_written:
  assumes vol: "vol_ok V N C" and c: "c \<in> free_clusters V N S" and len: "\<And>lba. length (S lba) = 512"
    and w: "file_written V N (set_fat V c 0xFFFF S) c bs cs S'" and bs: "bs \<noteq> []"
  shows "stored V N S bs (c # cs) S'"
proof -
  have cr: "c \<in> {2 ..< N + 2}" using c by (simp add: free_clusters_def)
  have ce: "c < 256 * unat (fat_size_sectors V)" using cr vol_ok_facts(2) [OF vol] by simp
  have F: "free_clusters V N (set_fat V c 0xFFFF S) = free_clusters V N S - {c}"
    by (rule free_clusters_put_fat [OF vol cr _ len]) simp
  have "touches V S S' ({c} \<union> set (c # cs))"
    using touches_trans [OF touches_put_fat [where S = S, OF vol ce len]] w unfolding file_written_def by blast
  moreover have "synced V S \<longrightarrow> synced V S'"
    using synced_set_fat [where S = S, OF vol ce len] w unfolding file_written_def by blast
  moreover have "length bs \<noteq> 0" using bs by simp
  then have "clusters_for V (length bs) = Suc (length cs)"
    using w unfolding file_written_def clusters_for_def by simp
  ultimately show ?thesis
    using w bs c unfolding stored_def file_written_def F by auto
qed

text \<open>The first cluster as the directory records it.\<close>

definition first_of :: "nat list \<Rightarrow> u32" where
  "first_of cs = (case cs of [] \<Rightarrow> 0 | c # _ \<Rightarrow> of_nat c)"

lemma chain_in_use:
  assumes "vol_ok V N C" and "chain V N S cs"
  shows "set cs \<inter> free_clusters V N S = {}"
  using assms(2)
proof (induction cs rule: induct_list012)
  case (2 c)
  then have "fatv V S 0 c \<noteq> 0" by auto
  then show ?case by (simp add: free_clusters_def)
next
  case (3 c c' cs)
  then have c': "c' \<in> {2 ..< N + 2}" using chain_heads [of V N S "c' # cs"] by simp
  have "unat (of_nat c' :: u16) = c'"
    by (rule unat_of_nat_small) (use c' vol_ok_facts(4) [OF assms(1)] in simp)
  then have "of_nat c' \<noteq> (0 :: u16)" using c' by auto
  then have "fatv V S 0 c \<noteq> 0" using 3 by simp
  with 3 show ?case by (simp add: free_clusters_def)
qed simp

text \<open>Files that existed before keep their clusters and contents.\<close>

lemma stored_keeps:
  assumes "vol_ok V N C" and "stored V N S bs cs S'" and "chain V N S fs"
  shows "chain V N S' fs \<and> file_bytes V S' fs = file_bytes V S fs"
proof (rule touches_chain [OF assms(1) _ _ assms(3)])
  show "touches V S S' (set cs)" "set cs \<subseteq> {2 ..< N + 2}" "set fs \<inter> set cs = {}"
    using assms(2) chain_in_use [OF assms(1,3)] by (auto simp: stored_def free_clusters_def)
qed

text \<open>Changing the root directory changes neither the table nor the data.\<close>

lemma root_change_sector:
  assumes vol: "vol_ok V N C" and "\<And>z. \<not> (unat (root_start V) \<le> unat z \<and> unat z < unat (data_start V)) \<Longrightarrow> S' z = S z"
    and c: "c \<in> {2 ..< N + 2}" and s: "s < unat (sectors_per_cluster V)"
  shows "S' (cluster_to_lba V (of_nat c) + of_nat s) = S (cluster_to_lba V (of_nat c) + of_nat s)"
proof -
  note b = cluster_addr [OF vol c]
  have "unat (cluster_to_lba V (of_nat c) + of_nat s) = unat (cluster_to_lba V (of_nat c)) + s"
    using b s unsigned_less [of C, where ?'a = nat] by (intro u32_index) simp
  then show ?thesis using b assms(2) by simp
qed

lemma root_change:
  assumes vol: "vol_ok V N C" and "\<And>z. \<not> (unat (root_start V) \<le> unat z \<and> unat z < unat (data_start V)) \<Longrightarrow> S' z = S z"
  shows "k < unat (num_fats V) \<Longrightarrow> c < 256 * unat (fat_size_sectors V) \<Longrightarrow> fatv V S' k c = fatv V S k c"
    and "c \<in> {2 ..< N + 2} \<Longrightarrow> cluster_data V S' c = cluster_data V S c"
proof -
  show "fatv V S' k c = fatv V S k c" if "k < unat (num_fats V)" "c < 256 * unat (fat_size_sectors V)"
    using fat_lba_less(3) [OF vol that] assms(2) by (simp add: fatv_def)
  show "cluster_data V S' c = cluster_data V S c" if "c \<in> {2 ..< N + 2}"
    unfolding cluster_data_def
    by (intro arg_cong [where f = concat] map_cong refl root_change_sector [OF assms that]) simp_all
qed

lemma root_change_chain:
  assumes vol: "vol_ok V N C" and "\<And>z. \<not> (unat (root_start V) \<le> unat z \<and> unat z < unat (data_start V)) \<Longrightarrow> S' z = S z"
    and "chain V N S cs"
  shows "chain V N S' cs \<and> file_bytes V S' cs = file_bytes V S cs"
  using assms(3)
proof (induction cs rule: induct_list012)
  note rc = root_change [where S = S and S' = S', OF vol assms(2)]
  case (2 c)
  then have "c \<in> {2 ..< N + 2}" by simp
  with 2 rc(1) [of 0 c] rc(2) [of c] vol_ok_facts(1,2) [OF vol] show ?case by (simp add: file_bytes_def)
next
  note rc = root_change [where S = S and S' = S', OF vol assms(2)]
  case (3 c c' cs)
  then have "c \<in> {2 ..< N + 2}" by simp
  with 3 rc(1) [of 0 c] rc(2) [of c] vol_ok_facts(1,2) [OF vol] show ?case by (simp add: file_bytes_def)
qed simp

lemma touches_root:
  assumes vol: "vol_ok V N C" and "touches V S S' X" and "X \<subseteq> {2 ..< N + 2}"
    and "unat (root_start V) \<le> unat z" and "unat z < unat (data_start V)"
  shows "S' z = S z"
proof -
  have "\<not> in_cluster V z c" if "c \<in> X" for c
    using cluster_addr(1) [OF vol, of c] that assms(3,5) by (auto simp: in_cluster_def)
  then show ?thesis using assms(2,4) unfolding touches_def by (meson leD)
qed

lemma touches_root_slots:
  assumes vol: "vol_ok V N C" and "touches V S S' X" and "X \<subseteq> {2 ..< N + 2}"
  shows "slots S' (root_start V) (unat (root_dir_sectors V)) = slots S (root_start V) (unat (root_dir_sectors V))"
  unfolding slots_def
proof (intro arg_cong [where f = concat] map_cong refl)
  fix i assume i: "i \<in> set [0 ..< unat (root_dir_sectors V)]"
  have d: "unat (data_start V) = unat (root_start V) + unat (root_dir_sectors V)" using vol by (simp add: vol_ok_def)
  then have "unat (root_start V + of_nat i) = unat (root_start V) + i"
    using i unsigned_less [of "data_start V", where ?'a = nat] by (intro u32_index) simp
  then show "sector_slots (S' (root_start V + of_nat i)) = sector_slots (S (root_start V + of_nat i))"
    using touches_root [OF assms] d i by simp
qed

context block_device
begin

lemma store_contents_ok:
  assumes vol: "vol_ok V N C" and d: "disk_is d S C" and sz: "unat sz = length data"
    and fits: "clusters_for V (length data) \<le> card (free_clusters V N S)"
  obtains d' S' cs where "store_contents E V data sz d = Some (True, first_of cs, d')"
    and "disk_is d' S' C" and "stored V N S data cs S'"
proof (cases "data = []")
  case True
  then have "store_contents E V data sz d = Some (True, first_of [], d)"
    using sz by (simp add: store_contents_def first_of_def word_gt_0 unat_eq_0)
  moreover have "stored V N S data [] S" using True by (simp add: stored_def clusters_for_def)
  ultimately show ?thesis using that d by blast
next
  case False
  then have pos: "0 < length data" "0 < unat sz" "0 < sz" "length data < 2 ^ 32"
    using sz unsigned_less [of sz, where ?'a = nat] by (auto simp: word_gt_0 simp del: unat_0)
  have need: "Suc ((length data - 1) div (512 * unat (sectors_per_cluster V))) \<le> card (free_clusters V N S)"
    using fits False by (simp add: clusters_for_def)
  then have ne: "free_clusters V N S \<noteq> {}" by auto
  define c where "c = first_free V S"
  have c: "c \<in> free_clusters V N S" unfolding c_def by (rule first_free(1) [OF ne])
  have cr: "c \<in> {2 ..< N + 2}" using c by (simp add: free_clusters_def)
  have ce: "c < 256 * unat (fat_size_sectors V)" using cr vol_ok_facts(2) [OF vol] by simp
  note len = disk_lengths(1) [OF d]
  obtain d1 where d1: "fat_alloc_cluster E V d = Some (of_nat c, d1)" "disk_is d1 (set_fat V c 0xFFFF S) C"
    unfolding c_def by (rule fat_alloc_ok [OF d vol ne])
  have "unat (of_nat c :: u32) = c" by (rule unat_of_nat_small) (use cr vol_ok_facts(4) [OF vol] in simp)
  then have cnz: "of_nat c \<noteq> (0 :: u32)" using cr by auto
  have fv: "fatv V (set_fat V c 0xFFFF S) 0 c \<noteq> 0"
    using fatv_put_fat [OF vol ce ce vol_ok_facts(1) [OF vol] len] by simp
  have F: "free_clusters V N (set_fat V c 0xFFFF S) = free_clusters V N S - {c}"
    by (rule free_clusters_put_fat [OF vol cr _ len]) simp
  have "\<exists>d' S' cs. write_clusters E V data (of_nat c) 0 sz d1 = Some (True, d') \<and> disk_is d' S' C \<and>
      file_written V N (set_fat V c 0xFFFF S) c (drop (unat (0 :: u32)) data) cs S'"
    by (rule write_clusters_ok [OF vol d1(2) cr fv]) (use sz pos need c F in simp_all)
  then obtain d' S' cs where w: "write_clusters E V data (of_nat c) 0 sz d1 = Some (True, d')" "disk_is d' S' C"
    "file_written V N (set_fat V c 0xFFFF S) c data cs S'" by auto
  have "store_contents E V data sz d = Some (True, first_of (c # cs), d')"
    using d1(1) w(1) cnz pos(3) by (simp add: store_contents_def write_file_data_def first_of_def)
  moreover have "stored V N S data (c # cs) S'" by (rule stored_written [OF vol c len w(3) False])
  ultimately show ?thesis using that w(2) by blast
qed

lemma read_file_ok:
  assumes vol: "vol_ok V N C" and d: "disk_is d S C" and F: "mounted F" "vol F = V"
    and st: "if bs = [] then cs = [] else chain V N S cs \<and> take (length bs) (file_bytes V S cs) = bs"
    and sz: "unat sz = length bs" and buf: "unat bufsz \<le> length buf"
  shows "\<exists>d'. fat16_read_file E F (first_of cs) sz buf bufsz d = Some (True, blit (unat bufsz) 0 bs buf, d') \<and>
    disk_is d' S C"
proof (cases "bs = []")
  case True
  then have "sz = 0" using sz by (simp add: unat_eq_0)
  then show ?thesis using True d F by (auto simp: fat16_read_file_def blit_def)
next
  case False
  then have ch: "chain V N S cs" "take (length bs) (file_bytes V S cs) = bs" using st by simp_all
  then obtain c cs' where cs: "cs = c # cs'" by (cases cs) auto
  have cr: "c \<in> {2 ..< N + 2}" using chain_heads [OF ch(1)] cs by simp
  have "unat (of_nat c :: u32) = c" by (rule unat_of_nat_small) (use cr vol_ok_facts(4) [OF vol] in simp)
  then have cnz: "of_nat c \<noteq> (0 :: u32)" using cr by auto
  have pos: "0 < unat sz" "sz \<noteq> 0" using False sz by auto
  have "length (cluster_data V S x) = 512 * unat (sectors_per_cluster V)" for x
    unfolding cluster_data_def by (rule length_concat_512) (rule disk_lengths(1) [OF d])
  then have "length (file_bytes V S cs) = 512 * unat (sectors_per_cluster V) * length cs"
    by (induction cs) (simp_all add: file_bytes_def)
  moreover have "length bs \<le> length (file_bytes V S cs)" using ch(2) by (metis nat_le_linear take_all)
  ultimately have "unat sz \<le> 512 * unat (sectors_per_cluster V) * length cs" using sz by simp
  moreover have "unat (0 :: u32) + unat sz < 2 ^ 32" using unsigned_less [of sz, where ?'a = nat] by simp
  ultimately obtain d' where "read_clusters E V bufsz (of_nat (hd cs)) 0 sz (stack_buf E d) buf d =
      Some (True, blit (unat bufsz) (unat (0 :: u32)) (take (unat sz) (file_bytes V S cs)) buf, d')" "disk_is d' S C"
    using read_clusters_ok [OF vol buf d ch(1) disk_lengths(2) [OF d] pos(1)] by blast
  then show ?thesis using F cs cnz pos(2) sz ch(2) by (simp add: fat16_read_file_def first_of_def)
qed

end

abbreviation root_slots :: "fat16_volume \<Rightarrow> disk \<Rightarrow> u8 list list" where
  "root_slots V S \<equiv> slots S (root_start V) (unat (root_dir_sectors V))"

text \<open>The entries before the first free slot, which a search always sees.\<close>

abbreviation used_slots :: "u8 list list \<Rightarrow> u8 list list" where
  "used_slots es \<equiv> takeWhile (\<lambda>e. \<not> is_free e) es"

lemma placed_True:
  assumes "placed S S' lba n entry True"
  obtains post where "slots S' lba n = used_slots (slots S lba n) @ entry # post"
    and "\<forall>z. \<not> (unat lba \<le> unat z \<and> unat z < unat lba + n) \<longrightarrow> S' z = S z"
proof -
  have ne: "\<not> (\<forall>e \<in> set (slots S lba n). \<not> is_free e)" using assms unfolding placed_def by (metis (full_types))
  then obtain pre x post where p: "slots S lba n = pre @ x # post" "is_free x" "\<forall>y \<in> set pre. \<not> is_free y"
    "slots S' lba n = pre @ entry # post"
    "\<forall>z. \<not> (unat lba \<le> unat z \<and> unat z < unat lba + n) \<longrightarrow> S' z = S z"
    using assms unfolding placed_def by (simp only: if_False) blast
  have "used_slots (slots S lba n) = pre" using p(1-3) by (simp add: takeWhile_append2)
  with p that show ?thesis by simp
qed

lemma stored_root_slots:
  assumes "vol_ok V N C" and "stored V N S bs cs S'"
  shows "root_slots V S' = root_slots V S"
proof (rule touches_root_slots [OF assms(1)])
  show "touches V S S' (set cs)" using assms(2) by (simp add: stored_def)
  have "set cs \<subseteq> free_clusters V N S" using assms(2) by (simp add: stored_def)
  then show "set cs \<subseteq> {2 ..< N + 2}" by (auto simp: free_clusters_def)
qed

text \<open>The entry is found by its name in any spelling, unless an earlier entry matches.\<close>

lemma find_new_entry:
  assumes "dir_scan name ext pre = None" and "attr \<noteq> 0x0F" and "name \<noteq> [] \<longrightarrow> hd name \<noteq> 0xE5"
    and "plain 8 (map upper name)"
  shows "dir_scan name ext (pre @ dir_entry (map upper name) (map upper ext) attr c sz # post) =
    Some (Some (dir_entry (map upper name) (map upper ext) attr c sz))"
proof -
  let ?e = "dir_entry (map upper name) (map upper ext) attr c sz"
  have "?e ! 0 = field (map upper name) 8 ! 0" by (rule dir_entry_nth(1)) simp
  also have "\<dots> = (if name = [] then 0x20 else upper (hd name))"
    using assms(4) by (cases name) (simp_all add: field_plain)
  finally have h: "?e ! 0 = (if name = [] then 0x20 else upper (hd name))" .
  have "c = 0xE5" if "upper c = 0xE5" for c
  proof (rule ccontr)
    assume "c \<noteq> 0xE5"
    then have "0x61 \<le> c \<and> c \<le> 0x7A" "c - 32 = 0xE5" using that by (auto simp: upper_def split: if_splits)
    then have "c = 0xE5 + 32" by (simp add: algebra_simps)
    with \<open>0x61 \<le> c \<and> c \<le> 0x7A\<close> show False by simp
  qed
  then have "?e ! 0 \<noteq> 0xE5" using h assms(3) by auto
  moreover have "?e ! 0 \<noteq> 0" using h assms(4) by (cases name) (auto simp: plain_def)
  moreover have "?e ! 11 \<noteq> 0x0F" using assms(2) by (simp add: dir_entry_nth)
  moreover have "names_equal ?e name ext" by (simp add: names_equal_dir_entry field_upper)
  ultimately show ?thesis using assms(1) by (simp add: dir_scan_append)
qed

lemma first_of_16: "vol_ok V N C \<Longrightarrow> set cs \<subseteq> {2 ..< N + 2} \<Longrightarrow> take_bit 16 (first_of cs) = first_of cs"
proof (cases cs)
  case (Cons c cs')
  assume "vol_ok V N C" "set cs \<subseteq> {2 ..< N + 2}"
  then have "c < 2 ^ 16" using Cons vol_ok_facts(4) [of V N C] by simp
  then have "unat (take_bit 16 (of_nat c :: u32)) = c" "unat (of_nat c :: u32) = c"
    by (simp_all add: unsigned_take_bit_eq unat_of_nat_small take_bit_nat_eq_self)
  then show ?thesis using Cons by (simp add: first_of_def word_unat_eq_iff)
qed (simp add: first_of_def)

context block_device
begin

lemma root_fits:
  assumes "vol_ok V N C"
  shows "unat (root_start V) + unat (root_dir_sectors V) \<le> unat C"
    "unat (data_start V) = unat (root_start V) + unat (root_dir_sectors V)"
  using assms by (simp_all add: vol_ok_def)

lemma entry_buf_length: "disk_is d S C \<Longrightarrow> length (entry_buf E d) = 32"
  using disk_lengths(2) [of d S C] by (simp add: entry_buf_def)

lemma create_file_root_ok:
  assumes vol: "vol_ok V N C" and d: "disk_is d S C" and F: "mounted F" "vol F = V"
    and sz: "unat sz = length data" and fits: "clusters_for V (length data) \<le> card (free_clusters V N S)"
    and free: "\<exists>e \<in> set (root_slots V S). is_free e"
  obtains d' S1 S' cs where "fat16_create_file_root E F name ext data sz d = Some (True, d')" and "disk_is d' S' C"
    and "stored V N S data cs S1"
    and "placed S1 S' (root_start V) (unat (root_dir_sectors V)) (dir_entry name ext 0x20 (first_of cs) sz) True"
proof -
  obtain d1 S1 cs where d1: "store_contents E V data sz d = Some (True, first_of cs, d1)" "disk_is d1 S1 C"
    "stored V N S data cs S1"
    by (rule store_contents_ok [OF vol d sz fits])
  let ?e = "dir_entry name ext 0x20 (first_of cs) sz"
  have e: "set_dir_entry (entry_buf E d1) name ext 0x20 (first_of cs) sz = ?e"
    by (rule set_dir_entry_eq [OF entry_buf_length [OF d1(2)]])
  have "length ?e = 32" by simp
  from place_entry_ok [OF d1(2) root_fits(1) [OF vol] this disk_lengths(2) [OF d1(2)]]
  obtain okr d2 S2 where p: "write_entry_in_root E V ?e d1 = (okr, d2)" "disk_is d2 S2 C"
    "placed S1 S2 (root_start V) (unat (root_dir_sectors V)) ?e okr"
    unfolding write_entry_in_root_def by blast
  have "\<exists>e \<in> set (root_slots V S1). is_free e" using free stored_root_slots [OF vol d1(3)] by simp
  then have okr: "okr" using p(3) unfolding placed_def by (metis (full_types))
  have "fat16_create_file_root E F name ext data sz d = Some (True, d2)"
    using F d1(1) p(1) okr e by (simp add: fat16_create_file_root_def)
  then show ?thesis using that [OF _ p(2) d1(3)] p(3) okr by simp
qed

lemma file_roundtrip:
  assumes vol: "vol_ok V N C" and d: "disk_is d S C" and F: "mounted F" "vol F = V"
    and sz: "unat sz = length data" and fits: "clusters_for V (length data) \<le> card (free_clusters V N S)"
    and free: "\<exists>e \<in> set (root_slots V S). is_free e"
    and new: "dir_scan name ext (used_slots (root_slots V S)) = None" "name \<noteq> [] \<longrightarrow> hd name \<noteq> 0xE5"
    and plain: "plain 8 (map upper name)" "plain 3 (map upper ext)"
    and out: "8 < length (de_name out)" "3 < length (de_ext out)" and buf: "unat bufsz \<le> length buf"
  shows "\<exists>d1 ent d2 d3. fat16_create_file_root E F (map upper name) (map upper ext) data sz d = Some (True, d1) \<and>
    fat16_find_in_root E F name ext out d1 = (True, ent, d2) \<and>
    c_string (de_name ent) = map upper name \<and> c_string (de_ext ent) = map upper ext \<and>
    de_attr ent = 0x20 \<and> de_size ent = sz \<and>
    fat16_read_file E F (de_cluster ent) (de_size ent) buf bufsz d2 = Some (True, blit (unat bufsz) 0 data buf, d3)"
proof -
  obtain d1 S1 S' cs where c: "fat16_create_file_root E F (map upper name) (map upper ext) data sz d = Some (True, d1)"
    "disk_is d1 S' C" "stored V N S data cs S1"
    "placed S1 S' (root_start V) (unat (root_dir_sectors V))
       (dir_entry (map upper name) (map upper ext) 0x20 (first_of cs) sz) True"
    by (rule create_file_root_ok [OF vol d F sz fits free])
  let ?e = "dir_entry (map upper name) (map upper ext) 0x20 (first_of cs) sz"
  obtain post where p: "root_slots V S' = used_slots (root_slots V S1) @ ?e # post"
    "\<forall>z. \<not> (unat (root_start V) \<le> unat z \<and> unat z < unat (root_start V) + unat (root_dir_sectors V)) \<longrightarrow> S' z = S1 z"
    by (rule placed_True [OF c(4)])
  have "dir_scan name ext (root_slots V S') = Some (Some ?e)"
    unfolding p(1) stored_root_slots [OF vol c(3)] by (rule find_new_entry [OF new(1) _ new(2) plain(1)]) simp
  then obtain d2 where d2: "fat16_find_in_root E F name ext out d1 = (True, fill_dirent out ?e, d2)" "disk_is d2 S' C"
    using find_sectors_ok [OF c(2) root_fits(1) [OF vol] disk_lengths(2) [OF c(2)], of name ext out] F
    by (auto simp: fat16_find_in_root_def find_in_sectors_def)
  note f = fill_dirent_entry [OF plain out, of "0x20" "first_of cs" sz]
  have "set cs \<subseteq> free_clusters V N S" using c(3) by (simp add: stored_def)
  then have "set cs \<subseteq> {2 ..< N + 2}" by (auto simp: free_clusters_def)
  then have cl: "de_cluster (fill_dirent out ?e) = first_of cs" using f(4) first_of_16 [OF vol] by simp
  have "if data = [] then cs = [] else chain V N S1 cs \<and> take (length data) (file_bytes V S1 cs) = data"
    using c(3) by (simp add: stored_def)
  then have "if data = [] then cs = [] else chain V N S' cs \<and> take (length data) (file_bytes V S' cs) = data"
    using root_change_chain [OF vol p(2) [folded root_fits(2) [OF vol], rule_format]] by auto
  then obtain d3 where "fat16_read_file E F (first_of cs) sz buf bufsz d2 = Some (True, blit (unat bufsz) 0 data buf, d3)"
    using read_file_ok [OF vol d2(2) F _ sz buf] by blast
  then show ?thesis using c(1) d2(1) f(1,2,3,5) cl
    by (intro exI [of _ d1] exI [of _ "fill_dirent out ?e"] exI [of _ d2] exI [of _ d3]) simp
qed

text \<open>Files that were there before are still read as before.\<close>

lemma create_keeps_file:
  assumes vol: "vol_ok V N C" and d: "disk_is d S C" and F: "mounted F" "vol F = V"
    and sz: "unat sz = length data" and fits: "clusters_for V (length data) \<le> card (free_clusters V N S)"
    and free: "\<exists>e \<in> set (root_slots V S). is_free e"
    and old: "chain V N S fs" "unat osz = length obs" "obs \<noteq> []" "take (length obs) (file_bytes V S fs) = obs"
    and buf: "unat bufsz \<le> length buf"
  shows "\<exists>d1 d2. fat16_create_file_root E F name ext data sz d = Some (True, d1) \<and>
    fat16_read_file E F (of_nat (hd fs)) osz buf bufsz d1 = Some (True, blit (unat bufsz) 0 obs buf, d2)"
proof -
  obtain d1 S1 S' cs where c: "fat16_create_file_root E F name ext data sz d = Some (True, d1)"
    "disk_is d1 S' C" "stored V N S data cs S1"
    "placed S1 S' (root_start V) (unat (root_dir_sectors V)) (dir_entry name ext 0x20 (first_of cs) sz) True"
    by (rule create_file_root_ok [OF vol d F sz fits free])
  obtain post where p:
    "\<forall>z. \<not> (unat (root_start V) \<le> unat z \<and> unat z < unat (root_start V) + unat (root_dir_sectors V)) \<longrightarrow> S' z = S1 z"
    by (rule placed_True [OF c(4)])
  have "chain V N S1 fs \<and> file_bytes V S1 fs = file_bytes V S fs" by (rule stored_keeps [OF vol c(3) old(1)])
  then have "chain V N S' fs" "take (length obs) (file_bytes V S' fs) = obs"
    using root_change_chain [OF vol p [folded root_fits(2) [OF vol], rule_format]] old(4) by auto
  then obtain d2 where "fat16_read_file E F (first_of fs) osz buf bufsz d1 = Some (True, blit (unat bufsz) 0 obs buf, d2)"
    using read_file_ok [OF vol c(2) F _ old(2) buf] old(3) by auto
  moreover have "first_of fs = of_nat (hd fs)" using old(1) by (cases fs) (simp_all add: first_of_def)
  ultimately show ?thesis using c(1) by auto
qed

end

lemma ata_disk_is:
  "ata_ready io view stk d \<Longrightarrow> ata.disk_is io view stk d (ata_sectors view d) (capacity (view d))"
  by (simp add: ata.disk_is_def)

lemma fresh_free_clusters:
  assumes "formatted p boot S" and "format_fits n"
  shows "free_clusters (fresh_volume p) (formatted_clusters n) S = {2 ..< formatted_clusters n + 2}"
  using assms formatted_fatv [OF assms(1), of 0] by (auto simp: free_clusters_def format_fits_def)

lemma fresh_synced:
  assumes "formatted p boot S"
  shows "synced (fresh_volume p) S"
proof -
  have "unat (num_fats (fresh_volume p)) = 2" "256 * unat (fat_size_sectors (fresh_volume p)) = 65536"
    by (simp_all add: fresh_volume_def)
  then show ?thesis
    unfolding synced_def using formatted_fatv [OF assms] by (simp del: not_less)
qed

lemma fresh_root_slots: "formatted p boot S \<Longrightarrow> root_slots (fresh_volume p) S = replicate 512 (replicate 32 0)"
  using formatted_slots by (simp add: fresh_volume_def)

context block_device
begin

lemma format_mount_ok:
  assumes "disk_is d S C" and "format_fits n" and "unat p + unat n \<le> unat C"
  obtains d1 d2 S' boot where "fat16_format E p n d = (True, d1)"
    and "fat16_mount E p F d1 = (True, \<lparr>vol = fresh_volume p, mounted = True\<rparr>, d2)" and "disk_is d2 S' C"
    and "formatted p boot S'" and "\<forall>z. unat z < unat p \<or> unat p + 545 \<le> unat z \<longrightarrow> S' z = S z"
proof -
  obtain d1 S' where f: "fat16_format E p n d = (True, d1)" "disk_is d1 S' C"
    "formatted p (boot_sector p n (stack_buf E d)) S'"
    "\<And>z. unat z < unat p \<or> unat p + 545 \<le> unat z \<Longrightarrow> S' z = S z"
    using fat16_format_ok [OF assms] by blast
  have "545 < unat n" using assms(2) by (auto simp: format_fits_def formatted_clusters_def div_greater_zero_iff intro: ccontr)
  then have "p < C" using assms(3) by (simp add: word_less_nat_alt)
  moreover have "S' p = boot_sector p n (stack_buf E d)" using f(3) by (simp add: formatted_def)
  ultimately obtain d2 where "fat16_mount E p F d1 = (True, \<lparr>vol = fresh_volume p, mounted = True\<rparr>, d2)" "disk_is d2 S' C"
    using fat16_mount_ok [OF f(2) _ _ disk_lengths(2) [OF assms(1)]] by blast
  then show ?thesis using that f(1,3,4) by blast
qed

lemma end_to_end:
  assumes "disk_is d S C" and fit: "format_fits n" "unat p + unat n \<le> unat C"
    and sz: "unat sz = length data" "length data \<le> formatted_clusters n * 32768"
    and name: "plain 8 (map upper name)" "plain 3 (map upper ext)" "name \<noteq> [] \<longrightarrow> hd name \<noteq> 0xE5"
    and out: "8 < length (de_name out)" "3 < length (de_ext out)" and buf: "unat bufsz \<le> length buf"
  shows "\<exists>d1 F1 d2 d3 ent d4 d5. fat16_format E p n d = (True, d1) \<and> fat16_mount E p F d1 = (True, F1, d2) \<and>
    fat16_create_file_root E F1 (map upper name) (map upper ext) data sz d2 = Some (True, d3) \<and>
    fat16_find_in_root E F1 name ext out d3 = (True, ent, d4) \<and> de_size ent = sz \<and>
    fat16_read_file E F1 (de_cluster ent) (de_size ent) buf bufsz d4 = Some (True, blit (unat bufsz) 0 data buf, d5)"
proof -
  obtain d1 d2 S' boot where m: "fat16_format E p n d = (True, d1)"
    "fat16_mount E p F d1 = (True, \<lparr>vol = fresh_volume p, mounted = True\<rparr>, d2)" "disk_is d2 S' C" "formatted p boot S'"
    "\<forall>z. unat z < unat p \<or> unat p + 545 \<le> unat z \<longrightarrow> S' z = S z"
    by (rule format_mount_ok [where F = F, OF assms(1) fit])
  let ?F = "\<lparr>vol = fresh_volume p, mounted = True\<rparr>"
  have vol: "vol_ok (fresh_volume p) (formatted_clusters n) C" by (rule fresh_vol_ok [OF fit])
  have "sectors_per_cluster (fresh_volume p) = 64" by (simp add: fresh_volume_def)
  then have "clusters_for (fresh_volume p) (length data) \<le> formatted_clusters n"
  proof (cases "data = []")
    case False
    then have "length data - 1 < formatted_clusters n * 32768" using sz(2) by (cases data) auto
    then have "(length data - 1) div 32768 < formatted_clusters n" by (rule less_mult_imp_div_less)
    with False \<open>sectors_per_cluster (fresh_volume p) = 64\<close> show ?thesis by (simp add: clusters_for_def)
  qed (simp add: clusters_for_def)
  then have fits: "clusters_for (fresh_volume p) (length data) \<le>
      card (free_clusters (fresh_volume p) (formatted_clusters n) S')"
    using fresh_free_clusters [OF m(4) fit(1)] by simp
  note root = fresh_root_slots [OF m(4)]
  have free: "\<exists>e \<in> set (root_slots (fresh_volume p) S'). is_free e"
    unfolding root by (simp add: is_free_def)
  have "used_slots (root_slots (fresh_volume p) S') = []"
    unfolding root by (simp add: takeWhile_replicate is_free_def)
  then have new: "dir_scan name ext (used_slots (root_slots (fresh_volume p) S')) = None" by simp
  from file_roundtrip [OF vol m(3) _ _ sz(1) fits free new name(3,1,2) out buf, of ?F] m(1,2)
  show ?thesis by fastforce
qed

end

end
