(* ===== verification/FatSpec.thy ===== *)
theory FatSpec
  imports FatVolume
begin

text \<open>
  The properties of the file system on a conforming ATA drive, from the facts of the
  interpretation \<open>ata\<close> of the locale \<open>block_device\<close>, and their witnesses on a drive of 512 MB.
\<close>

context block_device
begin

lemma alloc_correct:
  assumes "vol_ok V N C" and "disk_is d S C"
  shows "\<exists>c d' S'. fat_alloc_cluster E V d = Some (c, d') \<and> disk_is d' S' C \<and>
    (if \<forall>j \<in> {2 ..< 256 * unat (fat_size_sectors V)}. fatv V S 0 j \<noteq> 0 then c = 0 \<and> S' = S
     else fatv V S 0 (unat c) = 0 \<and> 2 \<le> unat c \<and> unat c < 256 * unat (fat_size_sectors V) \<and>
       (\<forall>j \<in> {2 ..< unat c}. fatv V S 0 j \<noteq> 0) \<and>
       (\<forall>k < unat (num_fats V). \<forall>j < 256 * unat (fat_size_sectors V).
          fatv V S' k j = (if j = unat c then 0xFFFF else fatv V S k j)))"
proof (cases "\<forall>j \<in> {2 ..< 256 * unat (fat_size_sectors V)}. fatv V S 0 j \<noteq> 0")
  case True
  obtain d' where "fat_alloc_cluster E V d = Some (0, d')" "disk_is d' S C"
    by (rule fat_alloc_full [OF assms(2,1) True])
  with True show ?thesis by auto
next
  case False
  let ?n = "256 * unat (fat_size_sectors V)"
  have v: "bytes_per_sector V = 512" "unat (fat_size_sectors V) < 65536" "N + 2 \<le> ?n" using assms(1) by (simp_all add: vol_ok_def)
  have mx: "unat ((fat_size_sectors V * 512) div 2) = ?n" using v(2) by (simp add: unat_div_distrib unat_mult_nowrap)
  have r: "2 + (?n - 2) = ?n" using v(3) by simp
  define c where "c = (LEAST j. 2 \<le> j \<and> fatv V S 0 j = 0)"
  from False obtain j where j: "2 \<le> j" "j < ?n" "fatv V S 0 j = 0" by auto
  then have c: "2 \<le> c \<and> fatv V S 0 c = 0" unfolding c_def by (intro LeastI) auto
  have cj: "c \<le> j" unfolding c_def using j by (intro Least_le) auto
  have low: "fatv V S 0 i \<noteq> 0" if "i \<in> {2 ..< c}" for i
    using not_less_Least [of i "\<lambda>j. 2 \<le> j \<and> fatv V S 0 j = 0"] that unfolding c_def by auto
  have cn: "c < ?n" using cj j(2) by simp
  obtain d' where a: "fat_alloc_cluster E V d = Some (of_nat c, d')"
    "disk_is d' (set_fat V c 0xFFFF S) C"
    using alloc_scan_ok [OF assms(1) _ assms(2), of 2 "?n - 2"] False v(1)
    unfolding fat_alloc_cluster_def Let_def r c_def by (auto simp: mx)
  have u: "unat (of_nat c :: u32) = c" by (rule unat_of_nat_small) (use cn v(2) in simp)
  have "fatv V (set_fat V c 0xFFFF S) k i = (if i = c then 0xFFFF else fatv V S k i)"
    if "k < unat (num_fats V)" "i < ?n" for k i
    by (rule fatv_put_fat [OF assms(1) cn that(2,1) disk_lengths(1) [OF assms(2)]])
  with a c cn low u show ?thesis unfolding if_not_P [OF False]
    by (intro exI [of _ "of_nat c"] exI [of _ d'] exI [of _ "set_fat V c 0xFFFF S"]) simp
qed

end

section \<open>Properties\<close>

text \<open>
  C1. End to end: on a conforming drive, formatting a partition of admissible size,
  mounting it, creating a file in its root directory, finding it under its name in any
  mixture of cases and reading it back all succeed, and what is read is what was written
  (as much of it as the buffer holds), for contents of every length up to the capacity.
\<close>

theorem fat16_end_to_end:
  assumes "ata_ready io view stk d" and "format_fits n" and "unat p + unat n \<le> unat (capacity (view d))"
    and "unat sz = length data" and "length data \<le> formatted_clusters n * 32768"
    and "plain 8 (map upper name)" and "plain 3 (map upper ext)" and "name \<noteq> [] \<longrightarrow> hd name \<noteq> 0xE5"
    and "8 < length (de_name out)" and "3 < length (de_ext out)" and "unat bufsz \<le> length buf"
  shows "\<exists>d1 F1 d2 d3 ent d4 d5. fat16_format (ata_io io stk) p n d = (True, d1) \<and>
    fat16_mount (ata_io io stk) p F d1 = (True, F1, d2) \<and>
    fat16_create_file_root (ata_io io stk) F1 (map upper name) (map upper ext) data sz d2 = Some (True, d3) \<and>
    fat16_find_in_root (ata_io io stk) F1 name ext out d3 = (True, ent, d4) \<and> de_size ent = sz \<and>
    fat16_read_file (ata_io io stk) F1 (de_cluster ent) (de_size ent) buf bufsz d4 =
      Some (True, take (unat bufsz) data @ drop (min (unat bufsz) (length data)) buf, d5)"
  using ata.end_to_end [OF ata_disk_is [OF assms(1)] assms(2-11)]
  by (simp add: blit_def store_at_def min.commute)

text \<open>
  C2. On any mounted volume with enough free clusters and a free root entry, a new file
  whose name no earlier entry has is created, then found with its name, extension,
  attribute and size, and read back with exactly the bytes written.
\<close>

theorem fat16_file_roundtrip:
  assumes "ata_ready io view stk d" and "mounted F" and "vol_ok (vol F) N (capacity (view d))"
    and "unat sz = length data"
    and "clusters_for (vol F) (length data) \<le> card (free_clusters (vol F) N (ata_sectors view d))"
    and "\<exists>e \<in> set (root_slots (vol F) (ata_sectors view d)). is_free e"
    and "dir_scan name ext (used_slots (root_slots (vol F) (ata_sectors view d))) = None"
    and "plain 8 (map upper name)" and "plain 3 (map upper ext)" and "name \<noteq> [] \<longrightarrow> hd name \<noteq> 0xE5"
    and "8 < length (de_name out)" and "3 < length (de_ext out)" and "unat bufsz \<le> length buf"
  shows "\<exists>d1 ent d2 d3. fat16_create_file_root (ata_io io stk) F (map upper name) (map upper ext) data sz d = Some (True, d1) \<and>
    fat16_find_in_root (ata_io io stk) F name ext out d1 = (True, ent, d2) \<and>
    c_string (de_name ent) = map upper name \<and> c_string (de_ext ent) = map upper ext \<and>
    de_attr ent = 0x20 \<and> de_size ent = sz \<and>
    fat16_read_file (ata_io io stk) F (de_cluster ent) (de_size ent) buf bufsz d2 =
      Some (True, take (unat bufsz) data @ drop (min (unat bufsz) (length data)) buf, d3)"
  using ata.file_roundtrip [OF assms(3) ata_disk_is [OF assms(1)] assms(2) refl assms(4-7,10,8,9,11-13)]
  by (simp add: blit_def store_at_def min.commute)

text \<open>
  C3. Creating a file leaves every other file alone: one that occupied a chain of
  clusters before reads the same bytes afterwards.
\<close>

theorem fat16_create_keeps_files:
  assumes "ata_ready io view stk d" and "mounted F" and "vol_ok (vol F) N (capacity (view d))"
    and "unat sz = length data"
    and "clusters_for (vol F) (length data) \<le> card (free_clusters (vol F) N (ata_sectors view d))"
    and "\<exists>e \<in> set (root_slots (vol F) (ata_sectors view d)). is_free e"
    and "chain (vol F) N (ata_sectors view d) fs" and "unat osz = length obs" and "obs \<noteq> []"
    and "take (length obs) (file_bytes (vol F) (ata_sectors view d) fs) = obs" and "unat bufsz \<le> length buf"
  shows "\<exists>d1 d2. fat16_create_file_root (ata_io io stk) F name ext data sz d = Some (True, d1) \<and>
    fat16_read_file (ata_io io stk) F (of_nat (hd fs)) osz buf bufsz d1 =
      Some (True, take (unat bufsz) obs @ drop (min (unat bufsz) (length obs)) buf, d2)"
  using ata.create_keeps_file [OF assms(3) ata_disk_is [OF assms(1)] assms(2) refl assms(4-11)]
  by (simp add: blit_def store_at_def min.commute)

text \<open>
  C13. Formatting a partition of admissible size succeeds and writes only to its first 545
  sectors; mounting it then gives the volume with two FATs of 256 sectors, 32 root
  directory sectors and clusters of 64 sectors, both copies of the FAT equal, every data
  cluster free and the root directory empty.
\<close>

theorem fat16_format_mount:
  assumes "ata_ready io view stk d" and "format_fits n" and "unat p + unat n \<le> unat (capacity (view d))"
  shows "\<exists>d1 d2 F1. fat16_format (ata_io io stk) p n d = (True, d1) \<and>
    fat16_mount (ata_io io stk) p F d1 = (True, F1, d2) \<and> mounted F1 \<and> vol F1 = fresh_volume p \<and>
    vol_ok (vol F1) (formatted_clusters n) (capacity (view d2)) \<and> synced (vol F1) (ata_sectors view d2) \<and>
    free_clusters (vol F1) (formatted_clusters n) (ata_sectors view d2) = {2 ..< formatted_clusters n + 2} \<and>
    root_slots (vol F1) (ata_sectors view d2) = replicate 512 (replicate 32 0) \<and>
    (\<forall>z. unat z < unat p \<or> unat p + 545 \<le> unat z \<longrightarrow> ata_sectors view d2 z = ata_sectors view d z)"
proof -
  obtain d1 d2 S' boot where m: "fat16_format (ata_io io stk) p n d = (True, d1)"
    "fat16_mount (ata_io io stk) p F d1 = (True, \<lparr>vol = fresh_volume p, mounted = True\<rparr>, d2)"
    "ata.disk_is io view stk d2 S' (capacity (view d))" "formatted p boot S'"
    "\<forall>z. unat z < unat p \<or> unat p + 545 \<le> unat z \<longrightarrow> S' z = ata_sectors view d z"
    by (rule ata.format_mount_ok [where F = F, OF ata_disk_is [OF assms(1)] assms(2,3)])
  then have S': "ata_sectors view d2 = S'" "capacity (view d2) = capacity (view d)" by (simp_all add: ata.disk_is_def)
  show ?thesis
    by (rule exI [of _ d1], rule exI [of _ d2], rule exI [of _ "\<lparr>vol = fresh_volume p, mounted = True\<rparr>"])
      (use m(1,2,5) fresh_vol_ok [OF assms(2,3)] fresh_synced [OF m(4)] fresh_free_clusters [OF m(4) assms(2)]
        fresh_root_slots [OF m(4)] in \<open>simp add: S'\<close>)
qed

text \<open>
  C14. Setting an entry of the FAT sets it in every copy, changes no other entry in any
  copy and no sector outside the FATs, and reading it back gives the value.
\<close>

theorem fat_write_read_entry:
  assumes "ata_ready io view stk d" and "vol_ok V N (capacity (view d))"
    and "c < 256 * unat (fat_size_sectors V)"
  shows "\<exists>d1 d2. fat_write_entry (ata_io io stk) V (of_nat c) v d = Some d1 \<and>
    fat_read_entry (ata_io io stk) V (of_nat c) d1 = Some (v, d2) \<and>
    (\<forall>k < unat (num_fats V). \<forall>x < 256 * unat (fat_size_sectors V).
       fatv V (ata_sectors view d1) k x = (if x = c then v else fatv V (ata_sectors view d) k x)) \<and>
    (\<forall>z. unat z < unat (fat_start V) \<or> unat (root_start V) \<le> unat z \<longrightarrow> ata_sectors view d1 z = ata_sectors view d z)"
proof -
  let ?S = "ata_sectors view d" and ?C = "capacity (view d)"
  note d = ata_disk_is [OF assms(1)]
  obtain d1 where d1: "fat_write_entry (ata_io io stk) V (of_nat c) v d = Some d1"
    "ata.disk_is io view stk d1 (set_fat V c v ?S) ?C"
    by (rule ata.fat_write_ok [OF d assms(2,3)])
  obtain d2 where d2: "fat_read_entry (ata_io io stk) V (of_nat c) d1 = Some (fatv V (set_fat V c v ?S) 0 c, d2)"
    by (rule ata.fat_read_ok [OF d1(2) assms(2,3)])
  have S1: "ata_sectors view d1 = set_fat V c v ?S" using d1(2) by (simp add: ata.disk_is_def)
  have f: "fatv V (set_fat V c v ?S) k x = (if x = c then v else fatv V ?S k x)"
    if "k < unat (num_fats V)" "x < 256 * unat (fat_size_sectors V)" for k x
    by (rule fatv_put_fat [OF assms(2,3) that(2,1) ata.disk_lengths(1) [OF d]])
  show ?thesis
    by (rule exI [of _ d1], rule exI [of _ d2])
      (use d1(1) d2 f f [OF vol_ok_facts(1) [OF assms(2)] assms(3)] put_fat_outside [OF assms(2,3)] in \<open>simp add: S1\<close>)
qed

text \<open>
  C15. The allocator returns 0 and changes nothing exactly when no entry from 2 on is
  free; otherwise it returns the lowest free cluster and marks it end-of-chain in every
  copy of the FAT, changing no other entry.
\<close>

theorem fat_alloc_cluster_correct:
  assumes "ata_ready io view stk d" and "vol_ok V N (capacity (view d))"
  shows "\<exists>c d'. fat_alloc_cluster (ata_io io stk) V d = Some (c, d') \<and>
    (if \<forall>j \<in> {2 ..< 256 * unat (fat_size_sectors V)}. fatv V (ata_sectors view d) 0 j \<noteq> 0
     then c = 0 \<and> ata_sectors view d' = ata_sectors view d
     else fatv V (ata_sectors view d) 0 (unat c) = 0 \<and> 2 \<le> unat c \<and> unat c < 256 * unat (fat_size_sectors V) \<and>
       (\<forall>j \<in> {2 ..< unat c}. fatv V (ata_sectors view d) 0 j \<noteq> 0) \<and>
       (\<forall>k < unat (num_fats V). \<forall>j < 256 * unat (fat_size_sectors V).
          fatv V (ata_sectors view d') k j = (if j = unat c then 0xFFFF else fatv V (ata_sectors view d) k j)))"
proof -
  obtain c d' S' where "fat_alloc_cluster (ata_io io stk) V d = Some (c, d')" and "ata_sectors view d' = S'"
    "if \<forall>j \<in> {2 ..< 256 * unat (fat_size_sectors V)}. fatv V (ata_sectors view d) 0 j \<noteq> 0
     then c = 0 \<and> S' = ata_sectors view d
     else fatv V (ata_sectors view d) 0 (unat c) = 0 \<and> 2 \<le> unat c \<and> unat c < 256 * unat (fat_size_sectors V) \<and>
       (\<forall>j \<in> {2 ..< unat c}. fatv V (ata_sectors view d) 0 j \<noteq> 0) \<and>
       (\<forall>k < unat (num_fats V). \<forall>j < 256 * unat (fat_size_sectors V).
          fatv V S' k j = (if j = unat c then 0xFFFF else fatv V (ata_sectors view d) k j))"
    using ata.alloc_correct [OF assms(2) ata_disk_is [OF assms(1)]] unfolding ata.disk_is_def
    by (elim exE conjE) (rule that)
  then show ?thesis by blast
qed

text \<open>
  C16. Listing the root directory returns the number of entries before the end marker that
  are neither deleted nor long-name entries, stores the first \<open>max_entries\<close> of them in
  order, leaves the rest of the array alone and does not change the disk.
\<close>

theorem fat16_list_root_correct:
  assumes "ata_ready io view stk d" and "mounted F" and "vol_ok (vol F) N (capacity (view d))"
    and "max_entries \<le> int (length out)"
  shows "\<exists>out' d'. fat16_list_root (ata_io io stk) F out max_entries d =
      Some (int (length (dir_live (root_slots (vol F) (ata_sectors view d)))), out', d') \<and>
    length out' = length out \<and>
    (\<forall>i < length out. out' ! i =
      (if i < length (dir_live (root_slots (vol F) (ata_sectors view d))) \<and> int i < max_entries
       then fill_dirent (out ! i) (dir_live (root_slots (vol F) (ata_sectors view d)) ! i) else out ! i)) \<and>
    ata_sectors view d' = ata_sectors view d"
proof -
  let ?S = "ata_sectors view d" and ?V = "vol F"
  note d = ata_disk_is [OF assms(1)]
  obtain d' where d': "ata.disk_is io view stk d' ?S (capacity (view d))"
    "fat16_list_root (ata_io io stk) F out max_entries d =
      Some (int (length (dir_live (root_slots ?V ?S))), fill_list max_entries 0 (dir_live (root_slots ?V ?S)) out, d')"
    using ata.list_sectors_ok [OF d ata.root_fits(1) [OF assms(3)] ata.disk_lengths(2) [OF d] assms(4), of 0] assms(2)
    by (auto simp: fat16_list_root_def list_dir_sectors_def)
  then show ?thesis
    by (intro exI conjI) (assumption, auto simp: fill_list_nth ata.disk_is_def)
qed

text \<open>
  C23. The allocator's bound is the size of the FAT, not of the partition: once all clusters
  of a freshly formatted partition are in use, it hands out the next cluster number, whose
  sectors reach past the end of the partition.
\<close>

theorem fat_alloc_leaves_partition:
  assumes "ata_ready io view stk d" and "format_fits n" and "unat p + unat n \<le> unat (capacity (view d))"
    and "\<forall>c \<in> {2 ..< formatted_clusters n + 2}. fatv (fresh_volume p) (ata_sectors view d) 0 c \<noteq> 0"
    and "fatv (fresh_volume p) (ata_sectors view d) 0 (formatted_clusters n + 2) = 0"
  shows "\<exists>c d'. fat_alloc_cluster (ata_io io stk) (fresh_volume p) d = Some (c, d') \<and> c \<noteq> 0 \<and>
    unat (cluster_to_lba (fresh_volume p) c) + 64 > unat p + unat n"
proof -
  let ?V = "fresh_volume p" and ?S = "ata_sectors view d" and ?N = "formatted_clusters n"
  have N: "?N \<le> 65524" "0 < ?N" using assms(2) by (simp_all add: format_fits_def)
  have vol: "vol_ok ?V ?N (capacity (view d))" by (rule fresh_vol_ok [OF assms(2,3)])
  have fs: "256 * unat (fat_size_sectors ?V) = 65536" by (simp add: fresh_volume_def)
  obtain c d' S' where a: "fat_alloc_cluster (ata_io io stk) ?V d = Some (c, d')"
    and c: "if \<forall>j \<in> {2 ..< 256 * unat (fat_size_sectors ?V)}. fatv ?V ?S 0 j \<noteq> 0 then c = 0 \<and> S' = ?S
     else fatv ?V ?S 0 (unat c) = 0 \<and> 2 \<le> unat c \<and> unat c < 256 * unat (fat_size_sectors ?V) \<and>
       (\<forall>j \<in> {2 ..< unat c}. fatv ?V ?S 0 j \<noteq> 0) \<and>
       (\<forall>k < unat (num_fats ?V). \<forall>j < 256 * unat (fat_size_sectors ?V).
          fatv ?V S' k j = (if j = unat c then 0xFFFF else fatv ?V ?S k j))"
    using ata.alloc_correct [OF vol ata_disk_is [OF assms(1)]] by (elim exE conjE) (rule that)
  have "\<not> (\<forall>j \<in> {2 ..< 256 * unat (fat_size_sectors ?V)}. fatv ?V ?S 0 j \<noteq> 0)"
    unfolding fs using assms(5) N by (auto intro!: bexI [of _ "?N + 2"])
  with c have c': "fatv ?V ?S 0 (unat c) = 0" "2 \<le> unat c" "\<forall>j \<in> {2 ..< unat c}. fatv ?V ?S 0 j \<noteq> 0" by simp_all
  have "unat c = ?N + 2"
  proof (rule antisym)
    show "unat c \<le> ?N + 2" using c'(3) assms(5) by (auto intro: leI)
    show "?N + 2 \<le> unat c" using c'(1,2) assms(4) by (auto intro: leI)
  qed
  then have "c - 2 = of_nat ?N" "c \<noteq> 0" by (simp_all add: word_unat_eq_iff unat_sub word_le_nat_alt unat_of_nat_small N(1) order_le_less_trans [OF N(1)])
  moreover have "data_start ?V = p + 545" "sectors_per_cluster ?V = 64" by (simp_all add: fresh_volume_def)
  ultimately have lba: "cluster_to_lba ?V c = p + of_nat (545 + ?N * 64)" by (simp add: cluster_to_lba_def)
  have le: "545 + ?N * 64 \<le> unat n" "unat n < 545 + ?N * 64 + 64"
    using N(2) by (auto simp: formatted_clusters_def div_greater_zero_iff)
  have "unat p + (545 + ?N * 64) < 2 ^ 32"
    using le(1) assms(3) ata.cap_bound [OF assms(1)] by simp
  with lba have "unat (cluster_to_lba ?V c) = unat p + (545 + ?N * 64)" by (simp only: u32_index)
  with a \<open>c \<noteq> 0\<close> le(2) show ?thesis by auto
qed

lemma upper_not_lower: "\<not> (0x61 \<le> upper c \<and> upper c \<le> 0x7A)"
proof (cases "0x61 \<le> c \<and> c \<le> 0x7A")
  case True
  then have "unat (c - 32) = unat c - 32" by (simp add: unat_sub word_le_nat_alt)
  with True show ?thesis by (auto simp: upper_def word_le_nat_alt)
next
  case False
  then show ?thesis by (auto simp: upper_def)
qed

text \<open>
  C24. The search folds only the query, not the entry: a file created under a name with a
  lower-case letter matches no query at all.
\<close>

theorem fat16_lowercase_lost:
  assumes "plain 8 name" and "c \<in> set name" and "0x61 \<le> c" and "c \<le> 0x7A" and "length e = 32"
  shows "\<not> names_equal (set_dir_entry e name ext attr cluster sz) name' ext'"
proof
  assume "names_equal (set_dir_entry e name ext attr cluster sz) name' ext'"
  then have "field name 8 = map upper (field name' 8)"
    unfolding set_dir_entry_eq [OF assms(5)] names_equal_dir_entry by simp
  moreover have "c \<in> set (field name 8)" using assms(2) by (simp add: field_plain [OF assms(1)])
  ultimately obtain x where "c = upper x" by auto
  with upper_not_lower assms(3,4) show False by blast
qed

section \<open>Witnesses\<close>

definition big_drive :: drive where
  "big_drive = (demo_drive Idle)\<lparr>capacity := 0x100000\<rparr>"

lemma big_ready: "ata_ready demo_io (\<lambda>d. d) (\<lambda>_. replicate 512 0xCC) big_drive"
  using demo_conforms by (simp add: ata_ready_def drive_ok_def demo_drive_def big_drive_def)

lemma big_capacity: "unat (2048 :: u32) + unat (300000 :: u32) \<le> unat (capacity big_drive)"
  by (simp add: big_drive_def)

lemma fits_300000: "format_fits 300000"
  by (simp add: format_fits_def formatted_clusters_def)

abbreviation blank_dirent :: fat16_dirent where
  "blank_dirent \<equiv> \<lparr>de_name = replicate 9 0, de_ext = replicate 4 0, de_attr = 0, de_cluster = 0, de_size = 0\<rparr>"

lemma plain_a: "plain 8 (map upper [0x61])" "plain 3 (map upper [])"
  by (simp_all add: plain_def upper_def)

abbreviation demo_disk :: "drive sector_io" where
  "demo_disk \<equiv> ata_io demo_io (\<lambda>_. replicate 512 0xCC)"

abbreviation no_volume :: fat16 where
  "no_volume \<equiv> \<lparr>vol = fresh_volume 0, mounted = False\<rparr>"

lemma demo_upper: "map upper [0x61] = [0x41]" "map upper [] = []"
  by (simp_all add: upper_def)

lemma demo_buffer:
  "take (unat (4 :: u32)) [1, 2, 3 :: u8] @ drop (min (unat (4 :: u32)) (length [1, 2, 3 :: u8])) (replicate 4 0) = [1, 2, 3, 0]"
proof -
  have u: "unat (4 :: u32) = 4" by simp
  show ?thesis unfolding u by (simp add: numeral_eq_Suc)
qed

theorem fat16_end_to_end_witness:
  "\<exists>d1 F1 d2 d3 ent d4 d5. fat16_format demo_disk 2048 300000 big_drive = (True, d1) \<and>
    fat16_mount demo_disk 2048 no_volume d1 = (True, F1, d2) \<and>
    fat16_create_file_root demo_disk F1 [0x41] [] [1, 2, 3] 3 d2 = Some (True, d3) \<and>
    fat16_find_in_root demo_disk F1 [0x61] [] blank_dirent d3 = (True, ent, d4) \<and> de_size ent = 3 \<and>
    fat16_read_file demo_disk F1 (de_cluster ent) (de_size ent) (replicate 4 0) 4 d4 = Some (True, [1, 2, 3, 0], d5)"
proof -
  have sz: "unat (3 :: u32) = length [1, 2, 3 :: u8]" "length [1, 2, 3 :: u8] \<le> formatted_clusters 300000 * 32768"
    "[0x61 :: u8] \<noteq> [] \<longrightarrow> hd [0x61 :: u8] \<noteq> 0xE5" "8 < length (de_name blank_dirent)" "3 < length (de_ext blank_dirent)"
    "unat (4 :: u32) \<le> length (replicate 4 (0 :: u8))"
    by (simp_all add: formatted_clusters_def)
  show ?thesis
    using fat16_end_to_end [where F = no_volume, OF big_ready fits_300000 big_capacity sz(1,2) plain_a sz(3-6)]
    unfolding demo_upper demo_buffer .
qed

text \<open>The demo disk after formatting and mounting.\<close>

lemma demo_mounted:
  obtains d and F :: fat16 where "ata_ready demo_io (\<lambda>d. d) (\<lambda>_. replicate 512 0xCC) d" and "mounted F" and "vol F = fresh_volume 2048"
    and "vol_ok (vol F) 4678 (capacity d)" and "capacity d = 0x100000"
    and "free_clusters (vol F) 4678 (ata_sectors (\<lambda>d. d) d) = {2 ..< 4680}"
    and "root_slots (vol F) (ata_sectors (\<lambda>d. d) d) = replicate 512 (replicate 32 0)"
proof -
  obtain d1 d2 S' boot where m: "fat16_format demo_disk 2048 300000 big_drive = (True, d1)"
    "fat16_mount demo_disk 2048 no_volume d1 = (True, \<lparr>vol = fresh_volume 2048, mounted = True\<rparr>, d2)"
    "ata.disk_is demo_io (\<lambda>d. d) (\<lambda>_. replicate 512 0xCC) d2 S' (capacity big_drive)" "formatted 2048 boot S'"
    "\<forall>z. unat z < unat (2048 :: u32) \<or> unat (2048 :: u32) + 545 \<le> unat z \<longrightarrow> S' z = ata_sectors (\<lambda>d. d) big_drive z"
    by (rule ata.format_mount_ok [where F = no_volume, OF ata_disk_is [OF big_ready] fits_300000 big_capacity])
  have N: "formatted_clusters 300000 = 4678" by (simp add: formatted_clusters_def)
  show ?thesis
    by (rule that [of d2 "\<lparr>vol = fresh_volume 2048, mounted = True\<rparr>"])
      (use m(3) fresh_vol_ok [OF fits_300000 big_capacity] fresh_free_clusters [OF m(4) fits_300000] fresh_root_slots [OF m(4)]
        in \<open>simp_all add: ata.disk_is_def N big_drive_def\<close>)
qed

lemma demo_fits: "clusters_for (fresh_volume p) (length [1, 2, 3 :: u8]) = 1"
  by (simp add: clusters_for_def fresh_volume_def)

theorem fat16_file_roundtrip_witness:
  "\<exists>d (F :: fat16) d1 ent d2 d3. fat16_create_file_root demo_disk F [0x41] [] [1, 2, 3] 3 d = Some (True, d1) \<and>
    fat16_find_in_root demo_disk F [0x61] [] blank_dirent d1 = (True, ent, d2) \<and>
    c_string (de_name ent) = [0x41] \<and> c_string (de_ext ent) = [] \<and> de_attr ent = 0x20 \<and> de_size ent = 3 \<and>
    fat16_read_file demo_disk F (de_cluster ent) (de_size ent) (replicate 4 0) 4 d2 = Some (True, [1, 2, 3, 0], d3)"
proof -
  obtain d and F :: fat16 where m: "ata_ready demo_io (\<lambda>d. d) (\<lambda>_. replicate 512 0xCC) d" "mounted F" "vol F = fresh_volume 2048"
    "vol_ok (vol F) 4678 (capacity d)" "capacity d = 0x100000"
    "free_clusters (vol F) 4678 (ata_sectors (\<lambda>d. d) d) = {2 ..< 4680}"
    "root_slots (vol F) (ata_sectors (\<lambda>d. d) d) = replicate 512 (replicate 32 0)"
    by (rule demo_mounted)
  have "clusters_for (vol F) (length [1, 2, 3 :: u8]) \<le> card (free_clusters (vol F) 4678 (ata_sectors (\<lambda>d. d) d))"
    unfolding m(6) unfolding m(3) demo_fits by simp
  moreover have "\<exists>e \<in> set (root_slots (vol F) (ata_sectors (\<lambda>d. d) d)). is_free e"
    unfolding m(7) by (simp add: is_free_def)
  moreover have "dir_scan [0x61] [] (used_slots (root_slots (vol F) (ata_sectors (\<lambda>d. d) d))) = None"
    unfolding m(7) by (simp add: takeWhile_replicate is_free_def)
  moreover have "unat (3 :: u32) = length [1, 2, 3 :: u8]"
    "[0x61 :: u8] \<noteq> [] \<longrightarrow> hd [0x61 :: u8] \<noteq> 0xE5" "8 < length (de_name blank_dirent)" "3 < length (de_ext blank_dirent)"
    "unat (4 :: u32) \<le> length (replicate 4 (0 :: u8))" by simp_all
  ultimately have "\<exists>d1 ent d2 d3. fat16_create_file_root demo_disk F (map upper [0x61]) (map upper []) [1, 2, 3] 3 d = Some (True, d1) \<and>
    fat16_find_in_root demo_disk F [0x61] [] blank_dirent d1 = (True, ent, d2) \<and>
    c_string (de_name ent) = map upper [0x61] \<and> c_string (de_ext ent) = map upper [] \<and> de_attr ent = 0x20 \<and> de_size ent = 3 \<and>
    fat16_read_file demo_disk F (de_cluster ent) (de_size ent) (replicate 4 0) 4 d2 =
      Some (True, take (unat (4 :: u32)) [1, 2, 3] @ drop (min (unat (4 :: u32)) (length [1, 2, 3 :: u8])) (replicate 4 0), d3)"
    by (intro fat16_file_roundtrip [OF m(1,2,4)] plain_a)
  then show ?thesis unfolding demo_upper demo_buffer by blast
qed

theorem fat16_create_keeps_files_witness:
  "\<exists>d (F :: fat16) b d1 d2. chain (vol F) 4678 (ata_sectors (\<lambda>d. d) d) [2] \<and>
    take 1 (file_bytes (vol F) (ata_sectors (\<lambda>d. d) d) [2]) = [b] \<and>
    fat16_create_file_root demo_disk F [0x41] [] [1, 2, 3] 3 d = Some (True, d1) \<and>
    fat16_read_file demo_disk F (of_nat (hd [2])) 1 [0] 1 d1 = Some (True, [b], d2)"
proof -
  obtain d and F :: fat16 where m: "ata_ready demo_io (\<lambda>d. d) (\<lambda>_. replicate 512 0xCC) d" "mounted F" "vol F = fresh_volume 2048"
    "vol_ok (vol F) 4678 (capacity d)" "capacity d = 0x100000"
    "free_clusters (vol F) 4678 (ata_sectors (\<lambda>d. d) d) = {2 ..< 4680}"
    "root_slots (vol F) (ata_sectors (\<lambda>d. d) d) = replicate 512 (replicate 32 0)"
    by (rule demo_mounted)
  let ?V = "vol F" and ?S = "ata_sectors (\<lambda>d. d) d"
  note dd = ata_disk_is [OF m(1)]
  have two: "2 < 256 * unat (fat_size_sectors ?V)" "(2 :: nat) \<in> {2 ..< 4678 + 2}" unfolding m(3) by (simp_all add: fresh_volume_def)
  obtain d1 where d1: "fat_write_entry demo_disk ?V (of_nat 2) 0xFFFF d = Some d1"
    "ata.disk_is demo_io (\<lambda>d. d) (\<lambda>_. replicate 512 0xCC) d1 (set_fat ?V 2 0xFFFF ?S) (capacity d)"
    by (rule ata.fat_write_ok [OF dd m(4) two(1)])
  let ?S1 = "ata_sectors (\<lambda>d. d) d1"
  have S1: "?S1 = set_fat ?V 2 0xFFFF ?S" "capacity d1 = capacity d"
    "ata_ready demo_io (\<lambda>d. d) (\<lambda>_. replicate 512 0xCC) d1" using d1(2) by (simp_all add: ata.disk_is_def)
  have "fatv ?V ?S1 0 2 = 0xFFFF"
    unfolding S1 using fatv_put_fat [OF m(4) two(1,1) vol_ok_facts(1) [OF m(4)] ata.disk_lengths(1) [OF dd]] by simp
  then have ch: "chain ?V 4678 ?S1 [2]" by simp
  have F1: "free_clusters ?V 4678 ?S1 = {2 ..< 4680} - {2}"
    unfolding S1 using free_clusters_put_fat [OF m(4) two(2) _ ata.disk_lengths(1) [OF dd], of "0xFFFF"] m(6) by simp
  have "root_slots ?V ?S1 = root_slots ?V ?S"
    unfolding S1 by (rule touches_root_slots [OF m(4) touches_put_fat [OF m(4) two(1) ata.disk_lengths(1) [OF dd]]]) simp
  then have free: "\<exists>e \<in> set (root_slots ?V ?S1). is_free e" unfolding m(7) by (simp add: is_free_def)
  have "length (cluster_data ?V ?S1 2) = 512 * unat (sectors_per_cluster ?V)"
    unfolding cluster_data_def by (rule length_concat_512) (rule ata.disk_lengths(1) [OF ata_disk_is [OF S1(3)]])
  then have "cluster_data ?V ?S1 2 \<noteq> []" unfolding m(3) by (auto simp: fresh_volume_def)
  then obtain b bs where b: "cluster_data ?V ?S1 2 = b # bs" by (cases "cluster_data ?V ?S1 2") auto
  then have obs: "take (length [b]) (file_bytes ?V ?S1 [2]) = [b]" by (simp add: file_bytes_def)
  have fits: "clusters_for ?V (length [1, 2, 3 :: u8]) \<le> card (free_clusters ?V 4678 ?S1)"
    unfolding F1 unfolding m(3) demo_fits by simp
  have vol: "vol_ok ?V 4678 (capacity d1)" using m(4) S1(2) by simp
  have "\<exists>d2 d3. fat16_create_file_root demo_disk F [0x41] [] [1, 2, 3] 3 d1 = Some (True, d2) \<and>
    fat16_read_file demo_disk F (of_nat (hd [2])) 1 [0] 1 d2 =
      Some (True, take (unat (1 :: u32)) [b] @ drop (min (unat (1 :: u32)) (length [b])) [0], d3)"
    by (rule fat16_create_keeps_files [OF S1(3) m(2) vol _ fits free ch _ _ obs]) simp_all
  then obtain d2 d3 where "fat16_create_file_root demo_disk F [0x41] [] [1, 2, 3] 3 d1 = Some (True, d2)"
    "fat16_read_file demo_disk F (of_nat (hd [2])) 1 [0] 1 d2 = Some (True, [b], d3)" by auto
  with ch obs show ?thesis by (intro exI conjI) (assumption, simp, assumption, assumption)
qed

theorem fat16_format_mount_witness:
  "\<exists>d1 d2 F1. fat16_format demo_disk 2048 300000 big_drive = (True, d1) \<and>
    fat16_mount demo_disk 2048 no_volume d1 = (True, F1, d2) \<and> mounted F1 \<and> data_start (vol F1) = 2593 \<and>
    free_clusters (vol F1) 4678 (ata_sectors (\<lambda>d. d) d2) = {2 ..< 4680}"
proof -
  have "formatted_clusters 300000 = 4678" "data_start (fresh_volume 2048) = 2593"
    by (simp_all add: formatted_clusters_def fresh_volume_def)
  then show ?thesis using fat16_format_mount [OF big_ready fits_300000 big_capacity, of no_volume] by auto
qed

theorem fat_write_read_entry_witness:
  "\<exists>d (F :: fat16) d1 d2. fat_write_entry demo_disk (vol F) (of_nat 7) 0x1234 d = Some d1 \<and>
    fat_read_entry demo_disk (vol F) (of_nat 7) d1 = Some (0x1234, d2) \<and>
    fatv (vol F) (ata_sectors (\<lambda>d. d) d1) 1 7 = 0x1234"
proof -
  obtain d and F :: fat16 where m: "ata_ready demo_io (\<lambda>d. d) (\<lambda>_. replicate 512 0xCC) d" "mounted F" "vol F = fresh_volume 2048"
    "vol_ok (vol F) 4678 (capacity d)" "capacity d = 0x100000"
    "free_clusters (vol F) 4678 (ata_sectors (\<lambda>d. d) d) = {2 ..< 4680}"
    "root_slots (vol F) (ata_sectors (\<lambda>d. d) d) = replicate 512 (replicate 32 0)"
    by (rule demo_mounted)
  have c: "7 < 256 * unat (fat_size_sectors (vol F))" "1 < unat (num_fats (vol F))"
    unfolding m(3) by (simp_all add: fresh_volume_def)
  obtain d1 d2 where "fat_write_entry demo_disk (vol F) (of_nat 7) 0x1234 d = Some d1"
    "fat_read_entry demo_disk (vol F) (of_nat 7) d1 = Some (0x1234, d2)"
    "\<forall>k < unat (num_fats (vol F)). \<forall>x < 256 * unat (fat_size_sectors (vol F)).
       fatv (vol F) (ata_sectors (\<lambda>d. d) d1) k x = (if x = 7 then 0x1234 else fatv (vol F) (ata_sectors (\<lambda>d. d) d) k x)"
    using fat_write_read_entry [OF m(1,4) c(1), of "0x1234"] by (elim exE conjE) (rule that)
  moreover from this(3) c have "fatv (vol F) (ata_sectors (\<lambda>d. d) d1) 1 7 = 0x1234" by simp
  ultimately show ?thesis by blast
qed

theorem fat_alloc_cluster_correct_witness:
  "\<exists>d (F :: fat16) c d'. fat_alloc_cluster demo_disk (vol F) d = Some (c, d') \<and> unat c = 2"
proof -
  obtain d and F :: fat16 where m: "ata_ready demo_io (\<lambda>d. d) (\<lambda>_. replicate 512 0xCC) d" "mounted F" "vol F = fresh_volume 2048"
    "vol_ok (vol F) 4678 (capacity d)" "capacity d = 0x100000"
    "free_clusters (vol F) 4678 (ata_sectors (\<lambda>d. d) d) = {2 ..< 4680}"
    "root_slots (vol F) (ata_sectors (\<lambda>d. d) d) = replicate 512 (replicate 32 0)"
    by (rule demo_mounted)
  let ?S = "ata_sectors (\<lambda>d. d) d" and ?n = "256 * unat (fat_size_sectors (vol F))"
  have "2 \<in> free_clusters (vol F) 4678 ?S" unfolding m(6) by simp
  then have z: "fatv (vol F) ?S 0 2 = 0" by (simp add: free_clusters_def)
  have n: "2 < ?n" unfolding m(3) by (simp add: fresh_volume_def)
  have nall: "\<not> (\<forall>j \<in> {2 ..< ?n}. fatv (vol F) ?S 0 j \<noteq> 0)" using z n by auto
  from fat_alloc_cluster_correct [OF m(1,4)] obtain c d' where
    "fat_alloc_cluster demo_disk (vol F) d = Some (c, d')" "2 \<le> unat c" "\<forall>j \<in> {2 ..< unat c}. fatv (vol F) ?S 0 j \<noteq> 0"
    unfolding if_not_P [OF nall] by blast
  moreover from this z have "unat c = 2" by (metis antisym atLeastLessThan_iff le_refl not_le)
  ultimately show ?thesis by blast
qed

theorem fat16_list_root_correct_witness:
  "\<exists>d (F :: fat16) out' d'. fat16_list_root demo_disk F [blank_dirent] 1 d = Some (0, out', d') \<and> out' ! 0 = blank_dirent"
proof -
  obtain d and F :: fat16 where m: "ata_ready demo_io (\<lambda>d. d) (\<lambda>_. replicate 512 0xCC) d" "mounted F" "vol F = fresh_volume 2048"
    "vol_ok (vol F) 4678 (capacity d)" "capacity d = 0x100000"
    "free_clusters (vol F) 4678 (ata_sectors (\<lambda>d. d) d) = {2 ..< 4680}"
    "root_slots (vol F) (ata_sectors (\<lambda>d. d) d) = replicate 512 (replicate 32 0)"
    by (rule demo_mounted)
  have "dir_live (root_slots (vol F) (ata_sectors (\<lambda>d. d) d)) = []"
    unfolding m(7) by (simp add: dir_live_def takeWhile_replicate)
  with fat16_list_root_correct [OF m(1,2,4), of 1 "[blank_dirent]"] show ?thesis by auto
qed

theorem fat16_lowercase_lost_witness:
  "\<not> names_equal (set_dir_entry (replicate 32 0) [0x61] [] 0x20 2 3) [0x61] []"
  by (rule fat16_lowercase_lost [of _ "0x61"]) (simp_all add: plain_def)

lemma fatv_media:
  assumes "length (media (view d) (fat_lba V k c)) = 256"
  shows "fatv V (ata_sectors view d) k c = media (view d) (fat_lba V k c) ! (c mod 256)"
proof -
  let ?m = "c mod 256" and ?ws = "media (view d) (fat_lba V k c)"
  have "bytes_of ?ws ! (2 * ?m) = byte_of 0 (?ws ! ?m)" "bytes_of ?ws ! (2 * ?m + 1) = byte_of (Suc 0) (?ws ! ?m)"
    using assms by (subst nth_bytes_of; simp)+
  then show ?thesis by (simp add: fatv_def ata_sectors_def fat_off_def le16_bytes)
qed

text \<open>A disk whose FAT has the single free entry 4680, just beyond the 4678 clusters of the partition.\<close>

definition full_drive :: drive where
  "full_drive = big_drive\<lparr>media := (\<lambda>_. replicate 256 0xFFFF)(2067 := (replicate 256 0xFFFF)[72 := 0])\<rparr>"

theorem fat_alloc_leaves_partition_witness:
  "\<exists>c d'. fat_alloc_cluster demo_disk (fresh_volume 2048) full_drive = Some (c, d') \<and> c \<noteq> 0 \<and>
    unat (cluster_to_lba (fresh_volume 2048) c) + 64 > unat (2048 :: u32) + unat (300000 :: u32)"
proof -
  have r: "ata_ready demo_io (\<lambda>d. d) (\<lambda>_. replicate 512 0xCC) full_drive"
    using demo_conforms by (simp add: ata_ready_def drive_ok_def demo_drive_def big_drive_def full_drive_def)
  have N: "formatted_clusters 300000 = 4678" by (simp add: formatted_clusters_def)
  have len: "length (media full_drive x) = 256" for x by (simp add: full_drive_def)
  have lba: "fat_lba (fresh_volume 2048) 0 c = of_nat (2049 + c div 256)" for c
    by (simp add: fat_lba_def fresh_volume_def)
  have "fatv (fresh_volume 2048) (ata_sectors (\<lambda>d. d) full_drive) 0 c \<noteq> 0" if "c < 4680" for c
  proof (cases "c div 256 = 18")
    case True
    then have "c mod 256 \<noteq> 72" using that div_mult_mod_eq [of c 256] by auto
    with True show ?thesis by (subst fatv_media [where view = "\<lambda>d. d" and d = full_drive, OF len]) (simp add: lba full_drive_def)
  next
    case False
    have "unat (of_nat (2049 + c div 256) :: u32) = 2049 + c div 256" by (rule unat_of_nat_small) (use that in simp)
    then have "of_nat (2049 + c div 256) \<noteq> (2067 :: u32)" using False by auto
    then show ?thesis by (subst fatv_media [where view = "\<lambda>d. d" and d = full_drive, OF len]) (simp add: lba full_drive_def)
  qed
  moreover have "fatv (fresh_volume 2048) (ata_sectors (\<lambda>d. d) full_drive) 0 4680 = 0"
    by (subst fatv_media [where view = "\<lambda>d. d" and d = full_drive, OF len]) (simp add: lba full_drive_def)
  moreover have "unat (2048 :: u32) + unat (300000 :: u32) \<le> unat (capacity full_drive)"
    by (simp add: full_drive_def big_drive_def)
  ultimately show ?thesis
    using fat_alloc_leaves_partition [OF r fits_300000, of 2048] unfolding N by simp
qed

end
