(* ===== verification/FatTree.thy ===== *)
theory FatTree
  imports FatVolume
begin

text \<open>
  Directories on a mounted volume.  The specification is a tree as a user sees it: files and
  directories with their names, and files in the directories.  \<open>ptree\<close> adds where the volume
  keeps each of them, \<open>tree_ok\<close> relates it to the disk.
\<close>

section \<open>Filling a directory from its start\<close>

definition filled :: "nat \<Rightarrow> u8 list list \<Rightarrow> u8 list list" where
  "filled m es = es @ replicate (m - length es) (replicate 32 0)"

lemma is_free_zeros: "is_free (replicate 32 0)"
  by (simp add: is_free_def)

lemma placed_filled:
  assumes p: "placed S S' lba n entry okr" and es: "slots S lba n = filled m es" "\<forall>e \<in> set es. \<not> is_free e" "length es < m"
  shows "okr \<and> slots S' lba n = filled m (es @ [entry]) \<and>
    (\<forall>z. \<not> (unat lba \<le> unat z \<and> unat z < unat lba + n) \<longrightarrow> S' z = S z)"
proof -
  let ?z = "replicate 32 0 :: u8 list"
  have z: "replicate (m - length es) ?z = ?z # replicate (m - Suc (length es)) ?z"
    using es(3) by (simp flip: replicate_Suc add: Suc_diff_Suc)
  then have "\<not> (\<forall>e \<in> set (slots S lba n). \<not> is_free e)"
    unfolding es(1) filled_def by (simp add: is_free_zeros)
  then obtain pre x post where q: "okr" "slots S lba n = pre @ x # post" "is_free x" "\<forall>y \<in> set pre. \<not> is_free y"
    "slots S' lba n = pre @ entry # post"
    "\<forall>z. \<not> (unat lba \<le> unat z \<and> unat z < unat lba + n) \<longrightarrow> S' z = S z"
    using p unfolding placed_def by (simp only: if_False) blast
  have "takeWhile (\<lambda>e. \<not> is_free e) (slots S lba n) = pre" unfolding q(2) using q(3,4) by (simp add: takeWhile_append2)
  moreover have "takeWhile (\<lambda>e. \<not> is_free e) (slots S lba n) = es"
    unfolding es(1) filled_def z using es(2) is_free_zeros by (simp add: takeWhile_append2)
  ultimately have "pre = es" by simp
  moreover from this have "x # post = ?z # replicate (m - Suc (length es)) ?z"
    using q(2) unfolding es(1) filled_def z by (simp only: same_append_eq)
  then have "post = replicate (m - Suc (length es)) ?z" by (simp only: list.inject)
  ultimately show ?thesis using q(1,5,6) by (simp add: filled_def)
qed

section \<open>The slots of a directory cluster\<close>

definition dir_slots :: "fat16_volume \<Rightarrow> disk \<Rightarrow> nat \<Rightarrow> u8 list list" where
  "dir_slots V S c = slots S (cluster_to_lba V (of_nat c)) (unat (sectors_per_cluster V))"

lemma dir_slots_cong:
  assumes "\<And>s. s < unat (sectors_per_cluster V) \<Longrightarrow>
    S' (cluster_to_lba V (of_nat c) + of_nat s) = S (cluster_to_lba V (of_nat c) + of_nat s)"
  shows "dir_slots V S' c = dir_slots V S c"
  unfolding dir_slots_def slots_def using assms by (intro arg_cong [where f = concat] map_cong) auto

lemma touches_dir_slots:
  assumes "vol_ok V N C" and "touches V S S' X" and "X \<subseteq> {2 ..< N + 2}" and "c \<in> {2 ..< N + 2} - X"
  shows "dir_slots V S' c = dir_slots V S c"
  by (rule dir_slots_cong) (rule touches_sector [OF assms])

lemma root_change_dir_slots:
  assumes "vol_ok V N C" and "\<And>z. \<not> (unat (root_start V) \<le> unat z \<and> unat z < unat (data_start V)) \<Longrightarrow> S' z = S z"
    and "c \<in> {2 ..< N + 2}"
  shows "dir_slots V S' c = dir_slots V S c"
  by (rule dir_slots_cong) (rule root_change_sector [OF assms])

text \<open>A change inside a cluster.\<close>

lemma cluster_change:
  assumes vol: "vol_ok V N C" and c: "c \<in> {2 ..< N + 2}" and S': "\<And>z. \<not> in_cluster V z c \<Longrightarrow> S' z = S z"
  shows "k < unat (num_fats V) \<Longrightarrow> x < 256 * unat (fat_size_sectors V) \<Longrightarrow> fatv V S' k x = fatv V S k x"
    and "touches V S S' {c}" and "free_clusters V N S' = free_clusters V N S"
proof -
  have below: "S' z = S z" if "unat z < unat (data_start V)" for z
    using S' cluster_addr(1) [OF vol c] that by (auto simp: in_cluster_def)
  show f: "fatv V S' k x = fatv V S k x" if "k < unat (num_fats V)" "x < 256 * unat (fat_size_sectors V)" for k x
    using fat_lba_less(3) [OF vol that] data_after_root [OF vol] below by (simp add: fatv_def)
  show "touches V S S' {c}" using f S' by (simp add: touches_def)
  show "free_clusters V N S' = free_clusters V N S"
    using f vol_ok_facts(1,2) [OF vol] by (auto simp: free_clusters_def)
qed

section \<open>Making a directory\<close>

text \<open>The bytes of a new directory's cluster.\<close>

definition dot_entries :: "nat \<Rightarrow> u8 list list" where
  "dot_entries c = [dir_entry [0x2E] [] 0x10 (of_nat c) 0, dir_entry [0x2E, 0x2E] [] 0x10 0 0]"

definition dir_image :: "fat16_volume \<Rightarrow> nat \<Rightarrow> u8 list" where
  "dir_image V c = concat (dot_entries c) @ replicate (512 * unat (sectors_per_cluster V) - 64) 0"

lemma length_dir_image: "0 < unat (sectors_per_cluster V) \<Longrightarrow> length (dir_image V c) = 512 * unat (sectors_per_cluster V)"
  by (simp add: dir_image_def dot_entries_def)

lemma dir_image_sector:
  assumes "i < unat (sectors_per_cluster V)"
  shows "take 512 (drop (512 * i) (dir_image V c)) =
    (if i = 0 then concat (dot_entries c) @ replicate 448 0 else replicate 512 0)"
proof -
  have "512 * i + 512 \<le> 512 * unat (sectors_per_cluster V)" using assms by simp
  then show ?thesis by (auto simp: dir_image_def dot_entries_def)
qed

lemma new_dir_sector:
  assumes "length e1 = 32" and "length e2 = 32"
  shows "store_at 32 e2 (store_at 0 e1 (replicate 512 0)) = e1 @ e2 @ replicate 448 0"
  using assms by (simp add: store_at_def)

lemma put_new_dir:
  assumes vol: "vol_ok V N C" and c: "c \<in> {2 ..< N + 2}"
  shows "put_sectors (cluster_to_lba V (of_nat c) + 1) (\<lambda>_. replicate 512 0) (unat (sectors_per_cluster V) - 1)
      (S(cluster_to_lba V (of_nat c) := concat (dot_entries c) @ replicate 448 0)) = put_cluster V c (dir_image V c) S"
proof (rule ext)
  fix x
  let ?lba = "cluster_to_lba V (of_nat c)" and ?n = "unat (sectors_per_cluster V)"
  have n: "0 < ?n" by (rule vol_ok_facts(3) [OF vol])
  have b: "unat ?lba + ?n \<le> unat C" using cluster_addr [OF vol c] by simp
  then have b': "unat ?lba + ?n < 2 ^ 32" using unsigned_less [of C, where ?'a = nat] by simp
  have l1: "unat (?lba + 1) = unat ?lba + 1" using b' n by (subst unat_add_nowrap) simp_all
  show "put_sectors (?lba + 1) (\<lambda>_. replicate 512 0) (?n - 1)
      (S(?lba := concat (dot_entries c) @ replicate 448 0)) x = put_cluster V c (dir_image V c) S x"
    using n b' l1 unfolding put_cluster_def
    by (subst (1 2) put_sectors_at)
      (auto simp: dir_image_sector dir_image_sector [of 0 V c, simplified] word_unat_eq_iff)
qed

lemma sector_slots_zeros: "sector_slots (replicate 512 0) = replicate 16 (replicate 32 0)"
  by (rule nth_equalityI) (auto simp: sector_slots_def slot_def)

lemma sector_slots_two:
  assumes "length e1 = 32" and "length e2 = 32"
  shows "sector_slots (e1 @ e2 @ replicate 448 0) = e1 # e2 # replicate 14 (replicate 32 0)"
proof -
  let ?s = "e1 @ e2 @ replicate 448 0"
  have u: "[0 ..< 16] = 0 # 1 # map (\<lambda>j. j + 2) [0 ..< 14]" by (simp add: upt_rec)
  have "slot ?s (j + 2) = replicate 32 0" if "j < 14" for j
    using that assms by (simp add: slot_def min_def)
  then have "map (slot ?s) (map (\<lambda>j. j + 2) [0 ..< 14]) = replicate 14 (replicate 32 0)"
    by (intro nth_equalityI) simp_all
  moreover have "slot ?s 0 = e1" "slot ?s 1 = e2" using assms by (simp_all add: slot_def)
  ultimately show ?thesis unfolding sector_slots_def u by (simp only: list.map)
qed

lemma dir_image_slots:
  assumes vol: "vol_ok V N C" and c: "c \<in> {2 ..< N + 2}"
  shows "dir_slots V (put_cluster V c (dir_image V c) S) c = filled (16 * unat (sectors_per_cluster V)) (dot_entries c)"
proof -
  let ?lba = "cluster_to_lba V (of_nat c)" and ?n = "unat (sectors_per_cluster V)"
    and ?S = "put_cluster V c (dir_image V c) S"
  have n: "0 < ?n" by (rule vol_ok_facts(3) [OF vol])
  have b: "unat ?lba + ?n \<le> unat C" using cluster_addr [OF vol c] by simp
  then have b': "unat ?lba + ?n < 2 ^ 32" using unsigned_less [of C, where ?'a = nat] by simp
  have s: "?S (?lba + of_nat i) = (if i = 0 then concat (dot_entries c) @ replicate 448 0 else replicate 512 0)"
    if "i < ?n" for i
  proof -
    have "unat (?lba + of_nat i) = unat ?lba + i" by (rule u32_index) (use that b' in simp)
    then show ?thesis using that b' unfolding put_cluster_def
      by (subst put_sectors_at) (simp_all add: dir_image_sector)
  qed
  note z = sector_slots_zeros
  have d: "sector_slots (concat (dot_entries c) @ replicate 448 0) = dot_entries c @ replicate 14 (replicate 32 0)"
    using sector_slots_two [of "dot_entries c ! 0" "dot_entries c ! 1"] by (simp add: dot_entries_def)
  obtain k where k: "?n = Suc k" using n by (cases ?n) auto
  have upt: "[0 ..< ?n] = 0 # map Suc [0 ..< k]" unfolding k by (simp add: upt_conv_Cons map_Suc_upt del: upt_Suc)
  have "dir_slots V ?S c = sector_slots (?S (?lba + of_nat 0)) @ concat (map (\<lambda>i. sector_slots (?S (?lba + of_nat (Suc i)))) [0 ..< k])"
    unfolding dir_slots_def slots_def upt by (simp add: comp_def)
  also have "map (\<lambda>i. sector_slots (?S (?lba + of_nat (Suc i)))) [0 ..< k] = map (\<lambda>i. replicate 16 (replicate 32 0)) [0 ..< k]"
    by (rule map_cong) (use s [of "Suc i" for i] k z in auto)
  also have "concat (map (\<lambda>i. replicate 16 (replicate 32 0)) [0 ..< k]) = replicate (16 * k) (replicate 32 (0 :: u8))"
    by (induction k) (simp_all add: replicate_add [symmetric] add.commute)
  finally show ?thesis using s [OF n] d k
    by (simp add: filled_def dot_entries_def replicate_add [symmetric])
qed

text \<open>What the disk is like before the new directory is entered in the root.\<close>

definition new_dir :: "fat16_volume \<Rightarrow> nat \<Rightarrow> disk \<Rightarrow> disk" where
  "new_dir V c S = put_cluster V c (dir_image V c) (set_fat V c 0xFFFF S)"

lemma new_dir_facts:
  assumes vol: "vol_ok V N C" and c: "c \<in> free_clusters V N S" and len: "\<And>lba. length (S lba) = 512"
  shows "touches V S (new_dir V c S) {c}" and "free_clusters V N (new_dir V c S) = free_clusters V N S - {c}"
    and "chain V N (new_dir V c S) [c]"
    and "dir_slots V (new_dir V c S) c = filled (16 * unat (sectors_per_cluster V)) (dot_entries c)"
proof -
  have cr: "c \<in> {2 ..< N + 2}" using c by (simp add: free_clusters_def)
  have ce: "c < 256 * unat (fat_size_sectors V)" using cr vol_ok_facts(2) [OF vol] by simp
  show "touches V S (new_dir V c S) {c}"
    using touches_trans [OF touches_put_fat [OF vol ce len] touches_put_cluster [OF vol cr]]
    unfolding new_dir_def by simp
  show "free_clusters V N (new_dir V c S) = free_clusters V N S - {c}"
    unfolding new_dir_def free_clusters_put_cluster [OF vol cr]
    by (rule free_clusters_put_fat [OF vol cr _ len]) simp
  show "chain V N (new_dir V c S) [c]"
    using cr fatv_put_cluster [OF vol cr vol_ok_facts(1) [OF vol] ce] fatv_put_fat [OF vol ce ce vol_ok_facts(1) [OF vol] len]
    by (simp add: new_dir_def)
  show "dir_slots V (new_dir V c S) c = filled (16 * unat (sectors_per_cluster V)) (dot_entries c)"
    unfolding new_dir_def by (rule dir_image_slots [OF vol cr])
qed

context block_device
begin

lemma place_root_ok:
  assumes vol: "vol_ok V N C" and d: "disk_is d S C" and "length entry = 32"
    and root: "root_slots V S = filled m es" "\<forall>e \<in> set es. \<not> is_free e" "length es < m"
  obtains d' S' where "write_entry_in_root E V entry d = (True, d')" and "disk_is d' S' C"
    and "root_slots V S' = filled m (es @ [entry])"
    and "\<forall>z. \<not> (unat (root_start V) \<le> unat z \<and> unat z < unat (data_start V)) \<longrightarrow> S' z = S z"
proof -
  obtain okr d' S' where p: "write_entry_in_root E V entry d = (okr, d')" "disk_is d' S' C"
    "placed S S' (root_start V) (unat (root_dir_sectors V)) entry okr"
    using place_entry_ok [OF d root_fits(1) [OF vol] assms(3) disk_lengths(2) [OF d]]
    unfolding write_entry_in_root_def by blast
  from placed_filled [OF p(3) root] p(1,2) that show ?thesis unfolding root_fits(2) [OF vol] by auto
qed

lemma place_dir_ok:
  assumes vol: "vol_ok V N C" and c: "c \<in> {2 ..< N + 2}" and d: "disk_is d S C" and "length entry = 32"
    and es: "dir_slots V S c = filled m es" "\<forall>e \<in> set es. \<not> is_free e" "length es < m"
  obtains d' S' where "write_entry_in_dir_cluster E V (of_nat c) entry d = (True, d')" and "disk_is d' S' C"
    and "dir_slots V S' c = filled m (es @ [entry])" and "\<forall>z. \<not> in_cluster V z c \<longrightarrow> S' z = S z"
proof -
  have fit: "unat (cluster_to_lba V (of_nat c)) + unat (sectors_per_cluster V) \<le> unat C"
    using cluster_addr [OF vol c] by simp
  obtain okr d' S' where p: "write_entry_in_dir_cluster E V (of_nat c) entry d = (okr, d')" "disk_is d' S' C"
    "placed S S' (cluster_to_lba V (of_nat c)) (unat (sectors_per_cluster V)) entry okr"
    using place_entry_ok [OF d fit assms(4) disk_lengths(2) [OF d]]
    unfolding write_entry_in_dir_cluster_def by blast
  note q = placed_filled [OF p(3) es [unfolded dir_slots_def]]
  show ?thesis
  proof (rule that [OF _ p(2)])
    show "write_entry_in_dir_cluster E V (of_nat c) entry d = (True, d')" using p(1) q by simp
    show "dir_slots V S' c = filled m (es @ [entry])" using q by (simp only: dir_slots_def)
    show "\<forall>z. \<not> in_cluster V z c \<longrightarrow> S' z = S z" using q unfolding in_cluster_def by blast
  qed
qed

lemma mkdir_ok:
  assumes vol: "vol_ok V N C" and d: "disk_is d S C" and F: "mounted F" "vol F = V"
    and ne: "free_clusters V N S \<noteq> {}"
    and root: "root_slots V S = filled m es" "\<forall>e \<in> set es. \<not> is_free e" "length es < m"
  obtains d' S' c where "fat16_mkdir_root E F name ext out d = Some (True, map_option (\<lambda>_. of_nat c) out, d')"
    and "disk_is d' S' C" and "c \<in> free_clusters V N S"
    and "root_slots V S' = filled m (es @ [dir_entry name ext 0x10 (of_nat c) 0])"
    and "\<forall>z. \<not> (unat (root_start V) \<le> unat z \<and> unat z < unat (data_start V)) \<longrightarrow> S' z = new_dir V c S z"
proof -
  define c where "c = first_free V S"
  have c: "c \<in> free_clusters V N S" unfolding c_def by (rule first_free(1) [OF ne])
  then have cr: "c \<in> {2 ..< N + 2}" by (simp add: free_clusters_def)
  have "unat (of_nat c :: u32) = c" by (rule unat_of_nat_small) (use cr vol_ok_facts(4) [OF vol] in simp)
  then have cnz: "of_nat c \<noteq> (0 :: u32)" using cr by auto
  let ?base = "cluster_to_lba V (of_nat c)" and ?n = "unat (sectors_per_cluster V)"
  have n: "0 < ?n" by (rule vol_ok_facts(3) [OF vol])
  have b: "unat ?base + ?n \<le> unat C" using cluster_addr [OF vol cr] by simp
  then have b': "unat ?base + ?n < 2 ^ 32" using unsigned_less [of C, where ?'a = nat] by simp
  have base: "?base < C" using b n by (simp add: word_less_nat_alt)
  have base1: "unat (?base + 1) = unat ?base + 1" using b' n by (subst unat_add_nowrap) simp_all
  obtain d1 where d1: "fat_alloc_cluster E V d = Some (of_nat c, d1)" "disk_is d1 (set_fat V c 0xFFFF S) C"
    unfolding c_def by (rule fat_alloc_ok [OF d vol ne])
  let ?sector = "concat (dot_entries c) @ replicate 448 0"
  note sde = set_dir_entry_eq [OF entry_buf_length]
  have z: "zero_sector (stack_buf E d1) = replicate 512 0" by (rule zero_sector_512 [OF disk_lengths(2) [OF d1(2)]])
  have sector: "store_at 32 (dir_entry [0x2E, 0x2E] [] 0x10 0 0)
      (store_at 0 (dir_entry [0x2E] [] 0x10 (of_nat c) 0) (replicate 512 0)) = ?sector"
    using new_dir_sector [of "dir_entry [0x2E] [] 0x10 (of_nat c) 0" "dir_entry [0x2E, 0x2E] [] 0x10 0 0"]
    by (simp add: dot_entries_def)
  have lsec: "length ?sector = 512" by (simp add: dot_entries_def)
  obtain d2 where d2: "wr_sector E ?base ?sector d1 = (True, d2)" "disk_is d2 ((set_fat V c 0xFFFF S)(?base := ?sector)) C"
    by (rule disk_write [OF d1(2) base lsec])
  have z2: "zero_sector ?sector = replicate 512 0" by (rule zero_sector_512 [OF lsec])
  have "\<exists>d'. write_run E (replicate 512 0) (?n - 1) (?base + 1 + of_nat 0) d2 = (True, d') \<and>
      disk_is d' (put_sectors (?base + 1) (\<lambda>_. replicate 512 0) (0 + (?n - 1)) ((set_fat V c 0xFFFF S)(?base := ?sector))) C"
    by (rule write_run_ok) (use d2(2) b n base1 in simp_all)
  then obtain d3 where d3: "write_run E (replicate 512 0) (?n - 1) (?base + 1) d2 = (True, d3)" "disk_is d3 (new_dir V c S) C"
    unfolding new_dir_def by (auto simp: put_new_dir [OF vol cr, simplified])
  note nd = new_dir_facts [OF vol c disk_lengths(1) [OF d]]
  have "root_slots V (new_dir V c S) = root_slots V S"
    by (rule touches_root_slots [OF vol nd(1)]) (use cr in simp)
  then have root1: "root_slots V (new_dir V c S) = filled m es" using root(1) by simp
  obtain d4 S4 where d4: "write_entry_in_root E V (dir_entry name ext 0x10 (of_nat c) 0) d3 = (True, d4)" "disk_is d4 S4 C"
    "root_slots V S4 = filled m (es @ [dir_entry name ext 0x10 (of_nat c) 0])"
    "\<forall>z. \<not> (unat (root_start V) \<le> unat z \<and> unat z < unat (data_start V)) \<longrightarrow> S4 z = new_dir V c S z"
    by (rule place_root_ok [OF vol d3(2) length_dir_entry [of name ext "0x10" "of_nat c" 0] root1 root(2,3)])
  have "fat16_mkdir_root E F name ext out d = Some (True, map_option (\<lambda>_. of_nat c) out, d4)"
    using F d1(1) cnz d2(1) d3(1) d4(1) sde [OF d1(2)] sde [OF d3(2)]
    by (simp add: fat16_mkdir_root_def z sector z2)
  then show ?thesis using that d4(2-4) c by blast
qed

lemma create_in_dir_ok:
  assumes vol: "vol_ok V N C" and d: "disk_is d S C" and F: "mounted F" "vol F = V"
    and sz: "unat sz = length data" and fits: "clusters_for V (length data) \<le> card (free_clusters V N S)"
    and c: "chain V N S [c]" and es: "dir_slots V S c = filled m es" "\<forall>e \<in> set es. \<not> is_free e" "length es < m"
  obtains d' S1 S' cs where "fat16_create_file_in_dir E F (of_nat c) name ext data sz d = Some (True, d')"
    and "disk_is d' S' C" and "stored V N S data cs S1"
    and "dir_slots V S' c = filled m (es @ [dir_entry name ext 0x20 (first_of cs) sz])"
    and "\<forall>z. \<not> in_cluster V z c \<longrightarrow> S' z = S1 z"
proof -
  have cr: "c \<in> {2 ..< N + 2}" using c by simp
  obtain d1 S1 cs where d1: "store_contents E V data sz d = Some (True, first_of cs, d1)" "disk_is d1 S1 C"
    "stored V N S data cs S1"
    by (rule store_contents_ok [OF vol d sz fits])
  have cs: "set cs \<subseteq> free_clusters V N S" "touches V S S1 (set cs)" using d1(3) by (simp_all add: stored_def)
  then have "set cs \<subseteq> {2 ..< N + 2}" "c \<in> {2 ..< N + 2} - set cs"
    using chain_in_use [OF vol c] cr by (auto simp: free_clusters_def)
  then have "dir_slots V S1 c = filled m es" using touches_dir_slots [OF vol cs(2)] es(1) by simp
  then obtain d2 S2 where d2:
    "write_entry_in_dir_cluster E V (of_nat c) (dir_entry name ext 0x20 (first_of cs) sz) d1 = (True, d2)"
    "disk_is d2 S2 C" "dir_slots V S2 c = filled m (es @ [dir_entry name ext 0x20 (first_of cs) sz])"
    "\<forall>z. \<not> in_cluster V z c \<longrightarrow> S2 z = S1 z"
    by (rule place_dir_ok [OF vol cr d1(2) length_dir_entry [of name ext "0x20" "first_of cs" sz] _ es(2,3)])
  have "fat16_create_file_in_dir E F (of_nat c) name ext data sz d = Some (True, d2)"
    using F d1(1) d2(1) set_dir_entry_eq [OF entry_buf_length [OF d1(2)]]
    by (simp add: fat16_create_file_in_dir_def)
  then show ?thesis using that d1(3) d2(2-4) by blast
qed

end

section \<open>Trees and where they are kept\<close>

text \<open>A name is a base name and an extension, as the volume stores them.\<close>

type_synonym fname = "u8 list \<times> u8 list"

definition name_ok :: "fname \<Rightarrow> bool" where
  "name_ok nm \<longleftrightarrow> plain 8 (fst nm) \<and> plain 3 (snd nm) \<and> map upper (fst nm) = fst nm \<and> map upper (snd nm) = snd nm \<and>
     (fst nm \<noteq> [] \<longrightarrow> hd (fst nm) \<noteq> 0xE5)"

type_synonym pfile = "fname \<times> u8 list \<times> nat list"
datatype pitem = PFile "u8 list" "nat list" | PDir nat "pfile list"
type_synonym ptree = "(fname \<times> pitem) list"

fun file_entry :: "pfile \<Rightarrow> u8 list" where
  "file_entry (nm, bs, cs) = dir_entry (fst nm) (snd nm) 0x20 (first_of cs) (of_nat (length bs))"

fun item_entry :: "fname \<times> pitem \<Rightarrow> u8 list" where
  "item_entry (nm, PFile bs cs) = file_entry (nm, bs, cs)"
| "item_entry (nm, PDir c fs) = dir_entry (fst nm) (snd nm) 0x10 (of_nat c) 0"

fun item_clusters :: "pitem \<Rightarrow> nat list" where
  "item_clusters (PFile bs cs) = cs"
| "item_clusters (PDir c fs) = c # concat (map (snd \<circ> snd) fs)"

definition clusters :: "ptree \<Rightarrow> nat list" where
  "clusters T = concat (map (item_clusters \<circ> snd) T)"

definition file_ok :: "fat16_volume \<Rightarrow> nat \<Rightarrow> disk \<Rightarrow> u8 list \<Rightarrow> nat list \<Rightarrow> bool" where
  "file_ok V N S bs cs \<longleftrightarrow> length bs < 2 ^ 32 \<and> length cs = clusters_for V (length bs) \<and>
     (if bs = [] then cs = [] else chain V N S cs \<and> take (length bs) (file_bytes V S cs) = bs)"

fun item_ok :: "fat16_volume \<Rightarrow> nat \<Rightarrow> disk \<Rightarrow> pitem \<Rightarrow> bool" where
  "item_ok V N S (PFile bs cs) \<longleftrightarrow> file_ok V N S bs cs"
| "item_ok V N S (PDir c fs) \<longleftrightarrow> chain V N S [c] \<and> length fs + 2 \<le> 16 * unat (sectors_per_cluster V) \<and>
     dir_slots V S c = filled (16 * unat (sectors_per_cluster V)) (dot_entries c @ map file_entry fs) \<and>
     (\<forall>f \<in> set fs. name_ok (fst f) \<and> file_ok V N S (fst (snd f)) (snd (snd f)))"

definition tree_ok :: "fat16_volume \<Rightarrow> nat \<Rightarrow> disk \<Rightarrow> ptree \<Rightarrow> bool" where
  "tree_ok V N S T \<longleftrightarrow>
     root_slots V S = filled (16 * unat (root_dir_sectors V)) (map item_entry T) \<and>
     length T \<le> 16 * unat (root_dir_sectors V) \<and> distinct (clusters T) \<and>
     free_clusters V N S = {2 ..< N + 2} - set (clusters T) \<and> set (clusters T) \<subseteq> {2 ..< N + 2} \<and>
     (\<forall>x \<in> set T. name_ok (fst x) \<and> item_ok V N S (snd x))"

lemma clusters_simps [simp]:
  "clusters [] = []" "clusters (x # T) = item_clusters (snd x) @ clusters T" "clusters (T @ T') = clusters T @ clusters T'"
  by (simp_all add: clusters_def)

lemma not_free_entry: "name_ok nm \<Longrightarrow> \<not> is_free (dir_entry (fst nm) (snd nm) attr c sz)"
proof -
  assume nm: "name_ok nm"
  have "dir_entry (fst nm) (snd nm) attr c sz ! 0 = field (fst nm) 8 ! 0" by (rule dir_entry_nth(1)) simp
  also have "\<dots> = (if fst nm = [] then 0x20 else hd (fst nm))"
    using nm by (cases "fst nm") (simp_all add: name_ok_def field_plain)
  finally show ?thesis using nm by (cases "fst nm") (auto simp: is_free_def name_ok_def plain_def)
qed

lemma entries_not_free:
  "name_ok (fst f) \<Longrightarrow> \<not> is_free (file_entry f)" "name_ok (fst x) \<Longrightarrow> \<not> is_free (item_entry x)"
  by (cases f; simp add: not_free_entry) (cases x rule: item_entry.cases; simp add: not_free_entry)

lemma dots_ok: "name_ok ([0x2E], [])" "name_ok ([0x2E, 0x2E], [])"
  by (simp_all add: name_ok_def plain_def upper_def)

lemma dots_not_free: "e \<in> set (dot_entries c) \<Longrightarrow> \<not> is_free e"
  using not_free_entry [OF dots_ok(1)] not_free_entry [OF dots_ok(2)] by (auto simp: dot_entries_def)

section \<open>Changes that leave an item alone\<close>

lemma file_ok_touches:
  assumes "vol_ok V N C" and "touches V S S' X" and "X \<subseteq> {2 ..< N + 2}" and "set cs \<inter> X = {}" and "file_ok V N S bs cs"
  shows "file_ok V N S' bs cs"
  using assms(5) touches_chain [OF assms(1-3) _ assms(4)] by (auto simp: file_ok_def)

lemma item_ok_touches:
  assumes vol: "vol_ok V N C" and t: "touches V S S' X" "X \<subseteq> {2 ..< N + 2}" and dj: "set (item_clusters it) \<inter> X = {}"
    and ok: "item_ok V N S it"
  shows "item_ok V N S' it"
proof (cases it)
  case (PFile bs cs)
  then show ?thesis using file_ok_touches [OF vol t] dj ok by simp
next
  case (PDir c fs)
  then have c: "chain V N S [c]" "c \<in> {2 ..< N + 2} - X" "set [c] \<inter> X = {}" using ok dj by simp_all
  have "file_ok V N S' (fst (snd f)) (snd (snd f))" if "f \<in> set fs" for f
    using file_ok_touches [OF vol t, of "snd (snd f)"] that dj ok PDir by auto
  then show ?thesis using ok PDir touches_chain [OF vol t c(1,3)] touches_dir_slots [OF vol t c(2)] by auto
qed

lemma file_ok_root:
  assumes "vol_ok V N C" and "\<And>z. \<not> (unat (root_start V) \<le> unat z \<and> unat z < unat (data_start V)) \<Longrightarrow> S' z = S z"
    and "file_ok V N S bs cs"
  shows "file_ok V N S' bs cs"
  using assms(3) root_change_chain [OF assms(1,2)] by (auto simp: file_ok_def)

lemma item_ok_root:
  assumes vol: "vol_ok V N C" and S': "\<And>z. \<not> (unat (root_start V) \<le> unat z \<and> unat z < unat (data_start V)) \<Longrightarrow> S' z = S z"
    and ok: "item_ok V N S it"
  shows "item_ok V N S' it"
proof (cases it)
  case (PFile bs cs)
  then show ?thesis using file_ok_root [OF vol S'] ok by simp
next
  case (PDir c fs)
  then have c: "chain V N S [c]" "c \<in> {2 ..< N + 2}" using ok by simp_all
  then show ?thesis
    using ok PDir root_change_chain [OF vol S' c(1)] root_change_dir_slots [OF vol S' c(2)] file_ok_root [OF vol S'] by auto
qed

lemma free_clusters_root:
  assumes "vol_ok V N C" and "\<And>z. \<not> (unat (root_start V) \<le> unat z \<and> unat z < unat (data_start V)) \<Longrightarrow> S' z = S z"
  shows "free_clusters V N S' = free_clusters V N S"
  using root_change(1) [OF assms, where k = 0] vol_ok_facts(1,2) [OF assms(1)] by (auto simp: free_clusters_def)

end
