(* ===== verification/FatTreeSpec.thy ===== *)
theory FatTreeSpec
  imports FatTree FatSpec
begin

text \<open>
  The operations of the file system on trees: the lemmas \<open>tree_*\<close> say what each does to the
  placed tree on the disk, and the property \<open>fat16_tree_refines\<close> that they implement the
  tree a user sees.
\<close>

section \<open>Adding to a tree\<close>

lemma tree_ok_free:
  assumes "tree_ok V N S T"
  shows "card (free_clusters V N S) = N - length (clusters T)"
proof -
  have t: "free_clusters V N S = {2 ..< N + 2} - set (clusters T)" "set (clusters T) \<subseteq> {2 ..< N + 2}"
    "distinct (clusters T)" using assms by (simp_all add: tree_ok_def)
  have "card (free_clusters V N S) = card {2 ..< N + 2} - card (set (clusters T))"
    unfolding t(1) by (rule card_Diff_subset) (use t(2) in simp_all)
  then show ?thesis using t(3) by (simp add: distinct_card)
qed

lemma touches_below:
  assumes "vol_ok V N C" and "touches V S S' X" and "X \<subseteq> {2 ..< N + 2}" and "unat z < unat (fat_start V)"
  shows "S' z = S z"
proof -
  have "unat (fat_start V) \<le> unat (data_start V)" using assms(1) by (simp add: vol_ok_def)
  then have "\<not> in_cluster V z c" if "c \<in> X" for c
    using cluster_addr(1) [OF assms(1), of c] that assms(3,4) by (auto simp: in_cluster_def)
  then show ?thesis using assms(2,4) unfolding touches_def by (meson leD)
qed

lemma below_root: "vol_ok V N C \<Longrightarrow> unat z < unat (fat_start V) \<Longrightarrow> unat z < unat (root_start V)"
  by (simp add: vol_ok_def)

lemma items_not_free: "tree_ok V N S T \<Longrightarrow> \<forall>e \<in> set (map item_entry T). \<not> is_free e"
  using entries_not_free(2) by (auto simp: tree_ok_def)

text \<open>
  A new item in the root: between \<open>S\<close> and \<open>S1\<close> only clusters that were free are touched, between
  \<open>S1\<close> and \<open>S'\<close> only the root directory.
\<close>

lemma tree_add:
  assumes vol: "vol_ok V N C" and T: "tree_ok V N S T" and nm: "name_ok nm" and room: "length T < 16 * unat (root_dir_sectors V)"
    and t: "touches V S S1 (set cs)" and cs: "set cs \<subseteq> free_clusters V N S" "distinct cs" "item_clusters it = cs"
    and free: "free_clusters V N S1 = free_clusters V N S - set cs" and it: "item_ok V N S1 it"
    and root: "root_slots V S' = filled (16 * unat (root_dir_sectors V)) (map item_entry T @ [item_entry (nm, it)])"
    and S': "\<And>z. \<not> (unat (root_start V) \<le> unat z \<and> unat z < unat (data_start V)) \<Longrightarrow> S' z = S1 z"
  shows "tree_ok V N S' (T @ [(nm, it)]) \<and> (\<forall>z. unat z < unat (fat_start V) \<longrightarrow> S' z = S z)"
proof (intro conjI allI impI)
  have tr: "free_clusters V N S = {2 ..< N + 2} - set (clusters T)" "set (clusters T) \<subseteq> {2 ..< N + 2}" "distinct (clusters T)"
    "\<And>x. x \<in> set T \<Longrightarrow> name_ok (fst x) \<and> item_ok V N S (snd x)"
    using T by (simp_all add: tree_ok_def)
  have X: "set cs \<subseteq> {2 ..< N + 2}" "set cs \<inter> set (clusters T) = {}" using cs(1) tr(1) by auto
  have item: "name_ok (fst x) \<and> item_ok V N S' (snd x)" if "x \<in> set T" for x
  proof -
    have "set (item_clusters (snd x)) \<inter> set cs = {}" using X(2) that by (auto simp: clusters_def)
    then have "item_ok V N S1 (snd x)" using item_ok_touches [OF vol t X(1)] tr(4) [OF that] by blast
    then show ?thesis using item_ok_root [where S = S1 and S' = S', OF vol S'] tr(4) [OF that] by blast
  qed
  have fr: "free_clusters V N S' = {2 ..< N + 2} - set (clusters T) - set cs"
    using free_clusters_root [where S = S1 and S' = S', OF vol S'] free tr(1) by simp
  show "tree_ok V N S' (T @ [(nm, it)])"
    unfolding tree_ok_def using root room tr(2,3) X cs(2,3) fr nm item item_ok_root [where S = S1 and S' = S', OF vol S' it] by auto
  fix z :: u32 assume z: "unat z < unat (fat_start V)"
  then have "S' z = S1 z" by (intro S') (use below_root [OF vol z] in simp)
  also have "\<dots> = S z" by (rule touches_below [OF vol t X(1) z])
  finally show "S' z = S z" .
qed

lemma stored_file_ok: "stored V N S bs cs S' \<Longrightarrow> length bs < 2 ^ 32 \<Longrightarrow> file_ok V N S' bs cs"
  by (auto simp: stored_def file_ok_def)

context block_device
begin

lemma tree_mkdir:
  assumes vol: "vol_ok V N C" and d: "disk_is d S C" and F: "mounted F" "vol F = V" and T: "tree_ok V N S T"
    and nm: "name_ok nm" and room: "length T < 16 * unat (root_dir_sectors V)" "length (clusters T) < N"
  shows "\<exists>d' S' c. fat16_mkdir_root E F (fst nm) (snd nm) out d = Some (True, map_option (\<lambda>_. of_nat c) out, d') \<and>
    disk_is d' S' C \<and> tree_ok V N S' (T @ [(nm, PDir c [])]) \<and> (\<forall>z. unat z < unat (fat_start V) \<longrightarrow> S' z = S z)"
proof -
  have ne: "free_clusters V N S \<noteq> {}" using tree_ok_free [OF T] room(2) by auto
  have root: "root_slots V S = filled (16 * unat (root_dir_sectors V)) (map item_entry T)"
    using T by (simp add: tree_ok_def)
  have len: "length (map item_entry T) < 16 * unat (root_dir_sectors V)" using room(1) by simp
  obtain d' S' c where m: "fat16_mkdir_root E F (fst nm) (snd nm) out d = Some (True, map_option (\<lambda>_. of_nat c) out, d')"
    "disk_is d' S' C" "c \<in> free_clusters V N S"
    "root_slots V S' = filled (16 * unat (root_dir_sectors V)) (map item_entry T @ [dir_entry (fst nm) (snd nm) 0x10 (of_nat c) 0])"
    "\<forall>z. \<not> (unat (root_start V) \<le> unat z \<and> unat z < unat (data_start V)) \<longrightarrow> S' z = new_dir V c S z"
    by (rule mkdir_ok [OF vol d F ne root items_not_free [OF T] len])
  note nd = new_dir_facts [OF vol m(3) disk_lengths(1) [OF d]]
  have "2 \<le> 16 * unat (sectors_per_cluster V)" using vol_ok_facts(3) [OF vol] by simp
  then have "item_ok V N (new_dir V c S) (PDir c [])" using nd(3,4) by simp
  then have "tree_ok V N S' (T @ [(nm, PDir c [])]) \<and> (\<forall>z. unat z < unat (fat_start V) \<longrightarrow> S' z = S z)"
    by (intro tree_add [OF vol T nm room(1) _ _ _ _ _ _ m(4) [folded item_entry.simps(2) [of nm c "[]"]] m(5) [rule_format],
          where cs = "[c]"]) (use nd(1,2) m(3) in simp_all)
  with m(1,2) show ?thesis by blast
qed

lemma tree_create_root:
  assumes vol: "vol_ok V N C" and d: "disk_is d S C" and F: "mounted F" "vol F = V" and T: "tree_ok V N S T"
    and nm: "name_ok nm" and sz: "unat sz = length data"
    and room: "length T < 16 * unat (root_dir_sectors V)" "length (clusters T) + clusters_for V (length data) \<le> N"
  shows "\<exists>d' S' cs. fat16_create_file_root E F (fst nm) (snd nm) data sz d = Some (True, d') \<and>
    disk_is d' S' C \<and> tree_ok V N S' (T @ [(nm, PFile data cs)]) \<and> (\<forall>z. unat z < unat (fat_start V) \<longrightarrow> S' z = S z)"
proof -
  have fits: "clusters_for V (length data) \<le> card (free_clusters V N S)" using tree_ok_free [OF T] room(2) by simp
  have len: "length data < 2 ^ 32" using unsigned_less [of sz, where ?'a = nat] by (simp flip: sz)
  have szd: "of_nat (length data) = sz" by (simp flip: sz)
  obtain d1 S1 cs where d1: "store_contents E V data sz d = Some (True, first_of cs, d1)" "disk_is d1 S1 C"
    "stored V N S data cs S1"
    by (rule store_contents_ok [OF vol d sz fits])
  have st: "touches V S S1 (set cs)" "set cs \<subseteq> free_clusters V N S" "distinct cs"
    "free_clusters V N S1 = free_clusters V N S - set cs" using d1(3) by (simp_all add: stored_def)
  have root: "root_slots V S1 = filled (16 * unat (root_dir_sectors V)) (map item_entry T)"
    using T stored_root_slots [OF vol d1(3)] by (simp add: tree_ok_def)
  have ln: "length (map item_entry T) < 16 * unat (root_dir_sectors V)" using room(1) by simp
  obtain d' S' where p: "write_entry_in_root E V (dir_entry (fst nm) (snd nm) 0x20 (first_of cs) sz) d1 = (True, d')"
    "disk_is d' S' C"
    "root_slots V S' = filled (16 * unat (root_dir_sectors V)) (map item_entry T @ [dir_entry (fst nm) (snd nm) 0x20 (first_of cs) sz])"
    "\<forall>z. \<not> (unat (root_start V) \<le> unat z \<and> unat z < unat (data_start V)) \<longrightarrow> S' z = S1 z"
    by (rule place_root_ok [OF vol d1(2) length_dir_entry [of "fst nm" "snd nm" "0x20" "first_of cs" sz] root items_not_free [OF T] ln])
  have e: "item_entry (nm, PFile data cs) = dir_entry (fst nm) (snd nm) 0x20 (first_of cs) sz" by (simp add: szd)
  have "item_ok V N S1 (PFile data cs)" using stored_file_ok [OF d1(3) len] by simp
  then have "tree_ok V N S' (T @ [(nm, PFile data cs)]) \<and> (\<forall>z. unat z < unat (fat_start V) \<longrightarrow> S' z = S z)"
    by (intro tree_add [OF vol T nm room(1) st(1-3) _ st(4) _ p(3) [folded e] p(4) [rule_format]]) simp_all
  moreover have "fat16_create_file_root E F (fst nm) (snd nm) data sz d = Some (True, d')"
    using F d1(1) p(1) set_dir_entry_eq [OF entry_buf_length [OF d1(2)]] by (simp add: fat16_create_file_root_def)
  ultimately show ?thesis using p(2) by blast
qed

end

text \<open>
  A new file in a directory: between \<open>S\<close> and \<open>S1\<close> only clusters that were free are touched,
  between \<open>S1\<close> and \<open>S'\<close> only the directory's cluster.
\<close>

lemma tree_add_in:
  assumes vol: "vol_ok V N C" and T: "tree_ok V N S (T1 @ (dn, PDir c fs) # T2)" and nm: "name_ok nm"
    and room: "length fs + 2 < 16 * unat (sectors_per_cluster V)"
    and st: "stored V N S bs cs S1" and bs: "length bs < 2 ^ 32"
    and es: "dir_slots V S' c = filled (16 * unat (sectors_per_cluster V)) (dot_entries c @ map file_entry (fs @ [(nm, bs, cs)]))"
    and S': "\<And>z. \<not> in_cluster V z c \<Longrightarrow> S' z = S1 z"
  shows "tree_ok V N S' (T1 @ (dn, PDir c (fs @ [(nm, bs, cs)])) # T2) \<and>
    (\<forall>z. unat z < unat (fat_start V) \<longrightarrow> S' z = S z)"
proof (intro conjI allI impI)
  let ?T = "T1 @ (dn, PDir c fs) # T2"
  have tr: "free_clusters V N S = {2 ..< N + 2} - set (clusters ?T)" "set (clusters ?T) \<subseteq> {2 ..< N + 2}"
    "distinct (clusters ?T)" "\<forall>x \<in> set ?T. name_ok (fst x) \<and> item_ok V N S (snd x)"
    using T unfolding tree_ok_def by blast+
  have st': "touches V S S1 (set cs)" "set cs \<subseteq> free_clusters V N S" "distinct cs"
    "free_clusters V N S1 = free_clusters V N S - set cs" using st by (simp_all add: stored_def)
  have X: "set cs \<subseteq> {2 ..< N + 2}" "set cs \<inter> set (clusters ?T) = {}" using st'(2) tr(1) by auto
  have c: "c \<in> {2 ..< N + 2}" "{c} \<subseteq> {2 ..< N + 2}" "c \<notin> set cs" using tr(2) X(2) by auto
  note ch = cluster_change [where S = S1 and S' = S', OF vol c(1) S']
  have keep: "item_ok V N S' it" if "item_ok V N S it" "set (item_clusters it) \<inter> insert c (set cs) = {}" for it
    using item_ok_touches [OF vol ch(2) c(2)] item_ok_touches [OF vol st'(1) X(1)] that by auto
  have keepf: "file_ok V N S' gs ds" if "file_ok V N S gs ds" "set ds \<inter> insert c (set cs) = {}" for gs ds
    using file_ok_touches [OF vol ch(2) c(2)] file_ok_touches [OF vol st'(1) X(1)] that by auto
  have dir: "item_ok V N S (PDir c fs)" "name_ok dn" using tr(4) by simp_all
  have "chain V N S1 [c]" using touches_chain [OF vol st'(1) X(1), of "[c]"] dir(1) c(3) by simp
  then have chain: "chain V N S' [c]"
    using ch(1) [of 0 c] vol_ok_facts(1,2) [OF vol] c(1) by simp
  have new: "file_ok V N S' bs cs"
    by (rule file_ok_touches [OF vol ch(2) c(2) _ stored_file_ok [OF st bs]]) (use c(3) in auto)
  have old: "name_ok (fst f) \<and> file_ok V N S' (fst (snd f)) (snd (snd f))" if "f \<in> set fs" for f
  proof -
    have "set (snd (snd f)) \<inter> insert c (set cs) = {}" using that tr(3) X(2) by (auto simp: clusters_def)
    then show ?thesis using keepf dir(1) that by simp
  qed
  have dir': "item_ok V N S' (PDir c (fs @ [(nm, bs, cs)]))"
    using chain room es nm new old by (simp add: ball_Un)
  have others: "name_ok (fst x) \<and> item_ok V N S' (snd x)" if "x \<in> set T1 \<union> set T2" for x
  proof -
    have "set (item_clusters (snd x)) \<inter> insert c (set cs) = {}" using that tr(3) X(2) by (auto simp: clusters_def)
    then show ?thesis using keep bspec [OF tr(4), of x] that by auto
  qed
  let ?T' = "T1 @ (dn, PDir c (fs @ [(nm, bs, cs)])) # T2"
  have entries: "map item_entry ?T' = map item_entry ?T" "length ?T' = length ?T" by simp_all
  have root: "root_slots V S' = filled (16 * unat (root_dir_sectors V)) (map item_entry ?T')"
    "length ?T' \<le> 16 * unat (root_dir_sectors V)"
    using touches_root_slots [OF vol ch(2) c(2)] touches_root_slots [OF vol st'(1) X(1)] T
    unfolding entries tree_ok_def by simp_all
  have cl: "set (clusters ?T') = set (clusters ?T) \<union> set cs" by auto
  have "free_clusters V N S' = {2 ..< N + 2} - set (clusters ?T) - set cs" using ch(3) st'(4) tr(1) by simp
  then have fr: "free_clusters V N S' = {2 ..< N + 2} - set (clusters ?T')" "set (clusters ?T') \<subseteq> {2 ..< N + 2}"
    using tr(2) X(1) unfolding cl by blast+
  have "distinct (clusters ?T')" using tr(3) X(2) st'(3) by auto
  moreover have "\<forall>x \<in> set ?T'. name_ok (fst x) \<and> item_ok V N S' (snd x)" using others dir(2) dir' by auto
  ultimately show "tree_ok V N S' ?T'" unfolding tree_ok_def using root fr by blast
  fix z :: u32 assume z: "unat z < unat (fat_start V)"
  show "S' z = S z"
    using touches_below [OF vol ch(2) c(2) z] touches_below [OF vol st'(1) X(1) z] by simp
qed

context block_device
begin

lemma tree_create_in:
  assumes vol: "vol_ok V N C" and d: "disk_is d S C" and F: "mounted F" "vol F = V"
    and T: "tree_ok V N S (T1 @ (dn, PDir c fs) # T2)" and nm: "name_ok nm" and sz: "unat sz = length data"
    and room: "length fs + 2 < 16 * unat (sectors_per_cluster V)"
      "length (clusters (T1 @ (dn, PDir c fs) # T2)) + clusters_for V (length data) \<le> N"
  shows "\<exists>d' S' cs. fat16_create_file_in_dir E F (of_nat c) (fst nm) (snd nm) data sz d = Some (True, d') \<and>
    disk_is d' S' C \<and> tree_ok V N S' (T1 @ (dn, PDir c (fs @ [(nm, data, cs)])) # T2) \<and>
    (\<forall>z. unat z < unat (fat_start V) \<longrightarrow> S' z = S z)"
proof -
  have fits: "clusters_for V (length data) \<le> card (free_clusters V N S)" using tree_ok_free [OF T] room(2) by simp
  have len: "length data < 2 ^ 32" using unsigned_less [of sz, where ?'a = nat] by (simp flip: sz)
  have szd: "of_nat (length data) = sz" by (simp flip: sz)
  have dir: "item_ok V N S (PDir c fs)" using T by (simp add: tree_ok_def)
  then have ch: "chain V N S [c]"
    and es: "dir_slots V S c = filled (16 * unat (sectors_per_cluster V)) (dot_entries c @ map file_entry fs)" by simp_all
  have nf: "\<forall>e \<in> set (dot_entries c @ map file_entry fs). \<not> is_free e"
    using dir dots_not_free entries_not_free(1) by auto
  have ln: "length (dot_entries c @ map file_entry fs) < 16 * unat (sectors_per_cluster V)"
    using room(1) by (simp add: dot_entries_def)
  obtain d' S1 S' cs where p: "fat16_create_file_in_dir E F (of_nat c) (fst nm) (snd nm) data sz d = Some (True, d')"
    "disk_is d' S' C" "stored V N S data cs S1"
    "dir_slots V S' c = filled (16 * unat (sectors_per_cluster V))
       ((dot_entries c @ map file_entry fs) @ [dir_entry (fst nm) (snd nm) 0x20 (first_of cs) sz])"
    "\<forall>z. \<not> in_cluster V z c \<longrightarrow> S' z = S1 z"
    by (rule create_in_dir_ok [OF vol d F sz fits ch es nf ln])
  have "dir_slots V S' c = filled (16 * unat (sectors_per_cluster V)) (dot_entries c @ map file_entry (fs @ [(nm, data, cs)]))"
    using p(4) by (simp add: szd)
  from tree_add_in [OF vol T nm room(1) p(3) len this p(5) [rule_format]] p(1,2) show ?thesis by blast
qed

end

section \<open>Looking things up\<close>

text \<open>Names a search can be given: after folding to upper case they fit the fields of an entry.\<close>

definition query_ok :: "u8 list \<Rightarrow> u8 list \<Rightarrow> bool" where
  "query_ok name ext \<longleftrightarrow> plain 8 (map upper name) \<and> plain 3 (map upper ext)"

abbreviation folded :: "u8 list \<Rightarrow> u8 list \<Rightarrow> fname" where
  "folded name ext \<equiv> (map upper name, map upper ext)"

lemma field_inj: "plain n s \<Longrightarrow> plain n t \<Longrightarrow> field s n = field t n \<Longrightarrow> s = t"
  using trim_copy_field [of n s "replicate (Suc n) 0" "[]"] trim_copy_field [of n t "replicate (Suc n) 0" "[]"] by simp

lemma names_equal_ok:
  assumes "name_ok nm" and "query_ok name ext"
  shows "names_equal (dir_entry (fst nm) (snd nm) a c sz) name ext \<longleftrightarrow> nm = folded name ext"
proof -
  have "names_equal (dir_entry (fst nm) (snd nm) a c sz) name ext \<longleftrightarrow>
      field (fst nm) 8 = field (map upper name) 8 \<and> field (snd nm) 3 = field (map upper ext) 3"
    by (simp only: names_equal_dir_entry field_upper)
  then show ?thesis
    using assms field_inj [of 8 "fst nm" "map upper name"] field_inj [of 3 "snd nm" "map upper ext"]
    by (cases nm) (auto simp: name_ok_def query_ok_def)
qed

lemma dir_scan_step:
  assumes "name_ok nm" and "query_ok name ext" and "a \<noteq> 0x0F"
  shows "dir_scan name ext (dir_entry (fst nm) (snd nm) a c sz # es) =
    (if nm = folded name ext then Some (Some (dir_entry (fst nm) (snd nm) a c sz)) else dir_scan name ext es)"
  using not_free_entry [OF assms(1), of a c sz] names_equal_ok [OF assms(1,2), of a c sz] assms(3)
  by (simp add: is_free_def dir_entry_nth)

lemma dir_scan_zeros: "dir_scan name ext (replicate k (replicate 32 0)) = (if k = 0 then None else Some None)"
  by (cases k) simp_all

lemma dir_scan_items:
  assumes "\<forall>x \<in> set T. name_ok (fst x)" and "query_ok name ext"
  shows "dir_scan name ext (map item_entry T @ es) =
    (case map_of T (folded name ext) of Some it \<Rightarrow> Some (Some (item_entry (folded name ext, it)))
     | None \<Rightarrow> dir_scan name ext es)"
  using assms(1)
proof (induction T)
  case (Cons x T)
  obtain nm it where x: "x = (nm, it)" by (cases x)
  obtain a c sz where e: "item_entry x = dir_entry (fst nm) (snd nm) a c sz" "a \<noteq> 0x0F"
    unfolding x by (cases it) auto
  have "name_ok nm" using Cons.prems x by simp
  then have "dir_scan name ext (item_entry x # es') =
      (if nm = folded name ext then Some (Some (item_entry x)) else dir_scan name ext es')" for es'
    unfolding e(1) by (rule dir_scan_step [OF _ assms(2) e(2)])
  with Cons x show ?case by (simp del: dir_scan.simps)
qed simp

lemma dir_scan_files:
  assumes "\<forall>f \<in> set fs. name_ok (fst f)" and "query_ok name ext"
  shows "dir_scan name ext (map file_entry fs @ es) =
    (case map_of fs (folded name ext) of Some (bs, cs) \<Rightarrow> Some (Some (file_entry (folded name ext, bs, cs)))
     | None \<Rightarrow> dir_scan name ext es)"
proof -
  have A: "map file_entry fs = map item_entry (map (\<lambda>(nm, bs, cs). (nm, PFile bs cs)) fs)" by auto
  have B: "map_of (map (\<lambda>(nm, bs, cs). (nm, PFile bs cs)) fs) nm = map_option (\<lambda>(bs, cs). PFile bs cs) (map_of fs nm)" for nm
    by (induction fs) auto
  have "\<forall>x \<in> set (map (\<lambda>(nm, bs, cs). (nm, PFile bs cs)) fs). name_ok (fst x)" using assms(1) by auto
  then show ?thesis unfolding A by (subst dir_scan_items [OF _ assms(2)]) (auto simp: B split: option.splits)
qed

text \<open>The names \<^verbatim>\<open>.\<close> and \<^verbatim>\<open>..\<close> of a directory's first two entries.\<close>

abbreviation dots :: "fname set" where
  "dots \<equiv> {([0x2E], []), ([0x2E, 0x2E], [])}"

context block_device
begin

lemma find_root_tree:
  assumes vol: "vol_ok V N C" and d: "disk_is d S C" and F: "mounted F" "vol F = V" and T: "tree_ok V N S T"
    and q: "query_ok name ext"
  shows "\<exists>d'. disk_is d' S C \<and> fat16_find_in_root E F name ext out d =
    (case map_of T (folded name ext) of Some it \<Rightarrow> (True, fill_dirent out (item_entry (folded name ext, it)), d')
     | None \<Rightarrow> (False, out, d'))"
proof -
  have r: "root_slots V S = map item_entry T @ replicate (16 * unat (root_dir_sectors V) - length T) (replicate 32 0)"
    "\<forall>x \<in> set T. name_ok (fst x)" using T by (simp_all add: tree_ok_def filled_def)
  obtain d' where "disk_is d' S C" "fat16_find_in_root E F name ext out d =
      (case dir_scan name ext (root_slots V S) of Some (Some e) \<Rightarrow> (True, fill_dirent out e, d') | _ \<Rightarrow> (False, out, d'))"
    using find_sectors_ok [OF d root_fits(1) [OF vol] disk_lengths(2) [OF d], of name ext out] F
    by (auto simp: fat16_find_in_root_def find_in_sectors_def)
  then show ?thesis unfolding r(1) dir_scan_items [OF r(2) q] dir_scan_zeros
    by (auto split: option.splits intro!: exI [of _ d'])
qed

lemma find_dir_tree:
  assumes vol: "vol_ok V N C" and d: "disk_is d S C" and F: "mounted F" "vol F = V" and dir: "item_ok V N S (PDir c fs)"
    and q: "query_ok name ext" "folded name ext \<notin> dots"
  shows "\<exists>d'. disk_is d' S C \<and> fat16_find_in_dir E F (of_nat c) name ext out d =
    (case map_of fs (folded name ext) of Some (bs, cs) \<Rightarrow> (True, fill_dirent out (file_entry (folded name ext, bs, cs)), d')
     | None \<Rightarrow> (False, out, d'))"
proof -
  have c: "c \<in> {2 ..< N + 2}" using dir by simp
  let ?z = "replicate (16 * unat (sectors_per_cluster V) - (length fs + 2)) (replicate 32 0)"
  have r: "dir_slots V S c = dot_entries c @ map file_entry fs @ ?z" "\<forall>f \<in> set fs. name_ok (fst f)"
    using dir by (simp_all add: filled_def dot_entries_def)
  have fit: "unat (cluster_to_lba V (of_nat c)) + unat (sectors_per_cluster V) \<le> unat C"
    using cluster_addr [OF vol c] by simp
  obtain d' where d': "disk_is d' S C" "fat16_find_in_dir E F (of_nat c) name ext out d =
      (case dir_scan name ext (dir_slots V S c) of Some (Some e) \<Rightarrow> (True, fill_dirent out e, d') | _ \<Rightarrow> (False, out, d'))"
    using find_sectors_ok [OF d fit disk_lengths(2) [OF d], of name ext out] F
    by (auto simp: fat16_find_in_dir_def find_in_sectors_def dir_slots_def)
  have "dir_scan name ext (dot_entries c @ map file_entry fs @ ?z) = dir_scan name ext (map file_entry fs @ ?z)"
    using dir_scan_step [OF dots_ok(1) q(1)] dir_scan_step [OF dots_ok(2) q(1)] q(2)
    by (auto simp: dot_entries_def)
  then show ?thesis using d' unfolding r(1) dir_scan_files [OF r(2) q(1)] dir_scan_zeros
    by (auto split: option.splits intro!: exI [of _ d'])
qed

end

end
