(* ===== verification/FatRefine.thy ===== *)
theory FatRefine
  imports FatTreeSpec
begin

text \<open>
  The file system as its users see it: a tree of files and directories, one level deep.
  \<open>user_step\<close> is the specification, \<open>fs_step\<close> the calls of the driver that make up an operation,
  and the driver's operations are an interpretation of \<open>guarded_simulation\<close> on them.
\<close>

section \<open>The specification\<close>

datatype item = AFile "u8 list" | ADir "(fname \<times> u8 list) list"
type_synonym tree = "(fname \<times> item) list"

datatype fs_op =
    MkDir fname
  | NewFile fname "u8 list"
  | NewFileIn fname fname "u8 list"
  | ReadFile fname
  | ReadFileIn fname fname

datatype fs_out = Success bool | Contents "u8 list option"

definition fold_name :: "fname \<Rightarrow> fname" where
  "fold_name nm = (map upper (fst nm), map upper (snd nm))"

fun add_file :: "fname \<times> u8 list \<Rightarrow> item \<Rightarrow> item" where
  "add_file f (ADir fs) = ADir (fs @ [f])"
| "add_file f (AFile bs) = AFile bs"

text \<open>In the first item of the name.\<close>

fun put_in :: "fname \<Rightarrow> fname \<times> u8 list \<Rightarrow> tree \<Rightarrow> tree" where
  "put_in dn f [] = []"
| "put_in dn f ((nm, it) # T) = (if nm = dn then (nm, add_file f it) # T else (nm, it) # put_in dn f T)"

fun user_step :: "fs_op \<Rightarrow> tree \<Rightarrow> fs_out \<times> tree" where
  "user_step (MkDir nm) T = (Success True, T @ [(nm, ADir [])])"
| "user_step (NewFile nm bs) T = (Success True, T @ [(nm, AFile bs)])"
| "user_step (NewFileIn dn nm bs) T =
     (case map_of T (fold_name dn) of
        Some (ADir fs) \<Rightarrow> (Success True, put_in (fold_name dn) (nm, bs) T)
      | _ \<Rightarrow> (Success False, T))"
| "user_step (ReadFile nm) T =
     (Contents (case map_of T (fold_name nm) of Some (AFile bs) \<Rightarrow> Some bs | _ \<Rightarrow> None), T)"
| "user_step (ReadFileIn dn nm) T =
     (Contents (case map_of T (fold_name dn) of Some (ADir fs) \<Rightarrow> map_of fs (fold_name nm) | _ \<Rightarrow> None), T)"

text \<open>The clusters of 32 KB a tree takes, and when an operation is within the limits of a volume of \<open>N\<close>.\<close>

definition file_cost :: "nat \<Rightarrow> nat" where
  "file_cost n = (n + 32767) div 32768"

fun item_cost :: "item \<Rightarrow> nat" where
  "item_cost (AFile bs) = file_cost (length bs)"
| "item_cost (ADir fs) = Suc (sum_list (map (\<lambda>f. file_cost (length (snd f))) fs))"

definition usage :: "tree \<Rightarrow> nat" where
  "usage T = sum_list (map (item_cost \<circ> snd) T)"

fun within :: "nat \<Rightarrow> fs_op \<Rightarrow> tree \<Rightarrow> bool" where
  "within N (MkDir nm) T \<longleftrightarrow> name_ok nm \<and> length T < 512 \<and> usage T < N"
| "within N (NewFile nm bs) T \<longleftrightarrow>
     name_ok nm \<and> length bs < 2 ^ 32 \<and> length T < 512 \<and> usage T + file_cost (length bs) \<le> N"
| "within N (NewFileIn dn nm bs) T \<longleftrightarrow> query_ok (fst dn) (snd dn) \<and>
     name_ok nm \<and> length bs < 2 ^ 32 \<and> usage T + file_cost (length bs) \<le> N \<and>
     (\<forall>fs. map_of T (fold_name dn) = Some (ADir fs) \<longrightarrow> length fs < 1022)"
| "within N (ReadFile nm) T \<longleftrightarrow> query_ok (fst nm) (snd nm)"
| "within N (ReadFileIn dn nm) T \<longleftrightarrow> query_ok (fst dn) (snd dn) \<and> query_ok (fst nm) (snd nm) \<and> fold_name nm \<notin> dots"

section \<open>The calls\<close>

text \<open>Reading what an entry names, into a buffer of its size.\<close>

definition read_entry :: "'d sector_io \<Rightarrow> fat16 \<Rightarrow> fat16_dirent \<Rightarrow> 'd \<Rightarrow> (fs_out \<times> 'd) option" where
  "read_entry E F ent d =
     (if de_attr ent AND 0x10 \<noteq> 0 then Some (Contents None, d)
      else do {
        (ok, buf, d) \<leftarrow> fat16_read_file E F (de_cluster ent) (de_size ent) (replicate (unat (de_size ent)) 0) (de_size ent) d;
        Some (Contents (if ok then Some buf else None), d)
      })"

fun fs_step :: "'d sector_io \<Rightarrow> fat16 \<Rightarrow> fs_op \<Rightarrow> 'd \<Rightarrow> (fs_out \<times> 'd) option" where
  "fs_step E F (MkDir nm) d =
     do { (ok, c, d) \<leftarrow> fat16_mkdir_root E F (fst nm) (snd nm) None d; Some (Success ok, d) }"
| "fs_step E F (NewFile nm bs) d =
     do { (ok, d) \<leftarrow> fat16_create_file_root E F (fst nm) (snd nm) bs (of_nat (length bs)) d; Some (Success ok, d) }"
| "fs_step E F (NewFileIn dn nm bs) d =
     (case fat16_find_in_root E F (fst dn) (snd dn) blank_dirent d of (ok, dir, d) \<Rightarrow>
        if ok \<and> de_attr dir AND 0x10 \<noteq> 0
        then do {
          (ok, d) \<leftarrow> fat16_create_file_in_dir E F (de_cluster dir) (fst nm) (snd nm) bs (of_nat (length bs)) d;
          Some (Success ok, d)
        }
        else Some (Success False, d))"
| "fs_step E F (ReadFile nm) d =
     (case fat16_find_in_root E F (fst nm) (snd nm) blank_dirent d of (ok, ent, d) \<Rightarrow>
        if ok then read_entry E F ent d else Some (Contents None, d))"
| "fs_step E F (ReadFileIn dn nm) d =
     (case fat16_find_in_root E F (fst dn) (snd dn) blank_dirent d of (ok, dir, d) \<Rightarrow>
        if ok \<and> de_attr dir AND 0x10 \<noteq> 0
        then (case fat16_find_in_dir E F (de_cluster dir) (fst nm) (snd nm) blank_dirent d of (ok, ent, d) \<Rightarrow>
                if ok then read_entry E F ent d else Some (Contents None, d))
        else Some (Contents None, d))"

section \<open>The tree on the disk\<close>

fun erase :: "pitem \<Rightarrow> item" where
  "erase (PFile bs cs) = AFile bs"
| "erase (PDir c fs) = ADir (map (\<lambda>(nm, bs, cs). (nm, bs)) fs)"

definition abs_tree :: "ptree \<Rightarrow> tree" where
  "abs_tree T = map (apsnd erase) T"

lemma abs_tree_simps [simp]:
  "abs_tree [] = []" "abs_tree ((nm, it) # T) = (nm, erase it) # abs_tree T" "abs_tree (T @ T') = abs_tree T @ abs_tree T'"
  "length (abs_tree T) = length T"
  by (simp_all add: abs_tree_def)

lemma map_of_abs: "map_of (abs_tree T) nm = map_option erase (map_of T nm)"
  by (induction T) auto

lemma map_of_erased: "map_of (map (\<lambda>(nm, bs, cs). (nm, bs)) fs) nm = map_option fst (map_of fs nm)"
  by (induction fs) auto

lemma map_of_split:
  assumes "map_of T nm = Some it"
  obtains T1 T2 where "T = T1 @ (nm, it) # T2" and "nm \<notin> fst ` set T1"
proof -
  have "\<exists>T1 T2. T = T1 @ (nm, it) # T2 \<and> nm \<notin> fst ` set T1" using assms
  proof (induction T)
    case (Cons x T)
    show ?case
    proof (cases "fst x = nm")
      case True
      then have "x # T = [] @ (nm, it) # T" using Cons.prems by (cases x) simp
      then show ?thesis by (metis image_empty empty_iff list.set(1))
    next
      case False
      then obtain T1 T2 where "T = T1 @ (nm, it) # T2" "nm \<notin> fst ` set T1" using Cons by (cases x) auto
      then have "x # T = (x # T1) @ (nm, it) # T2" "nm \<notin> fst ` set (x # T1)" using False by auto
      then show ?thesis by blast
    qed
  qed simp
  with that show ?thesis by blast
qed

lemma put_in_abs:
  "nm \<notin> fst ` set T1 \<Longrightarrow> put_in nm (m, bs) (abs_tree (T1 @ (nm, PDir c fs) # T2)) =
     abs_tree (T1 @ (nm, PDir c (fs @ [(m, bs, cs)])) # T2)"
  by (induction T1) auto

lemma clusters_for_cost: "sectors_per_cluster V = 64 \<Longrightarrow> clusters_for V n = file_cost n"
  by (cases n) (simp_all add: clusters_for_def file_cost_def)

lemma usage_clusters:
  assumes "sectors_per_cluster V = 64" and "tree_ok V N S T"
  shows "usage (abs_tree T) = length (clusters T)"
proof -
  have "\<forall>x \<in> set T. item_ok V N S (snd x)" using assms(2) unfolding tree_ok_def by blast
  then show ?thesis
  proof (induction T)
    case (Cons x T)
    obtain nm it where x: "x = (nm, it)" by (cases x)
    have files: "sum_list (map (\<lambda>f. file_cost (length (snd f))) (map (\<lambda>(nm, bs, cs). (nm, bs)) fs)) = length (concat (map (snd \<circ> snd) fs))"
      if "\<forall>f \<in> set fs. file_ok V N S (fst (snd f)) (snd (snd f))" for fs
      using that by (induction fs) (auto simp: file_ok_def clusters_for_cost [OF assms(1)])
    have "item_cost (erase it) = length (item_clusters it)"
      using Cons.prems x files by (cases it) (auto simp: file_ok_def clusters_for_cost [OF assms(1)])
    with Cons x show ?case by (simp add: usage_def)
  qed (simp add: usage_def)
qed

lemma blit_all: "blit (length bs) 0 bs (replicate (length bs) 0) = bs"
  by (simp add: blit_def store_at_def)

text \<open>What a search delivers of the entries of a tree.\<close>

lemma file_clusters: "file_ok V N S bs cs \<Longrightarrow> set cs \<subseteq> {2 ..< N + 2}"
  unfolding file_ok_def using chain_heads by (metis empty_subsetI list.set(1))

lemma file_dirent:
  assumes vol: "vol_ok V N C" and nm: "name_ok nm" and f: "file_ok V N S bs cs"
    and out: "8 < length (de_name out)" "3 < length (de_ext out)"
  shows "de_attr (fill_dirent out (file_entry (nm, bs, cs))) = 0x20"
    and "de_cluster (fill_dirent out (file_entry (nm, bs, cs))) = first_of cs"
    and "de_size (fill_dirent out (file_entry (nm, bs, cs))) = of_nat (length bs)"
proof -
  have "plain 8 (fst nm)" "plain 3 (snd nm)" using nm by (simp_all add: name_ok_def)
  note fd = fill_dirent_entry [OF this out]
  with file_clusters [OF f] show "de_attr (fill_dirent out (file_entry (nm, bs, cs))) = 0x20"
    "de_cluster (fill_dirent out (file_entry (nm, bs, cs))) = first_of cs"
    "de_size (fill_dirent out (file_entry (nm, bs, cs))) = of_nat (length bs)"
    using first_of_16 [OF vol] by simp_all
qed

lemma dir_dirent:
  assumes vol: "vol_ok V N C" and nm: "name_ok nm" and c: "c \<in> {2 ..< N + 2}"
    and out: "8 < length (de_name out)" "3 < length (de_ext out)"
  shows "de_attr (fill_dirent out (item_entry (nm, PDir c fs))) = 0x10"
    and "de_cluster (fill_dirent out (item_entry (nm, PDir c fs))) = of_nat c"
proof -
  have "plain 8 (fst nm)" "plain 3 (snd nm)" using nm by (simp_all add: name_ok_def)
  note fd = fill_dirent_entry [OF this out]
  have "take_bit 16 (of_nat c :: u32) = of_nat c" using first_of_16 [OF vol, of "[c]"] c by (simp add: first_of_def)
  with fd show "de_attr (fill_dirent out (item_entry (nm, PDir c fs))) = 0x10"
    "de_cluster (fill_dirent out (item_entry (nm, PDir c fs))) = of_nat c" by simp_all
qed

lemma blank_ok: "8 < length (de_name blank_dirent)" "3 < length (de_ext blank_dirent)"
  by simp_all

section \<open>The driver implements the specification\<close>

context block_device
begin

text \<open>The volume on the device holds the tree.\<close>

definition holds :: "fat16 \<Rightarrow> nat \<Rightarrow> u32 \<Rightarrow> 'd \<Rightarrow> tree \<Rightarrow> bool" where
  "holds F N C d T \<longleftrightarrow> mounted F \<and> vol_ok (vol F) N C \<and> sectors_per_cluster (vol F) = 64 \<and> root_dir_sectors (vol F) = 32 \<and>
     (\<exists>S PT. disk_is d S C \<and> tree_ok (vol F) N S PT \<and> T = abs_tree PT)"

lemma read_file_entry:
  assumes vol: "vol_ok V N C" and d: "disk_is d S C" and F: "mounted F" "vol F = V"
    and nm: "name_ok nm" and f: "file_ok V N S bs cs"
  shows "\<exists>d'. read_entry E F (fill_dirent blank_dirent (file_entry (nm, bs, cs))) d = Some (Contents (Some bs), d') \<and> disk_is d' S C"
proof -
  note e = file_dirent [OF vol nm f blank_ok]
  have sz: "unat (of_nat (length bs) :: u32) = length bs" using f by (intro unat_of_nat_small) (simp add: file_ok_def)
  have st: "if bs = [] then cs = [] else chain V N S cs \<and> take (length bs) (file_bytes V S cs) = bs"
    using f by (simp add: file_ok_def)
  have "unat (of_nat (length bs) :: u32) \<le> length (replicate (length bs) (0 :: u8))" using sz by simp
  from read_file_ok [OF vol d F st sz this] show ?thesis
    unfolding read_entry_def e sz blit_all by auto
qed

lemma mkdir_step:
  assumes h: "holds F N C d T" and w: "within N (MkDir nm) T"
  shows "\<exists>d'. fs_step E F (MkDir nm) d = Some (Success True, d') \<and> holds F N C d' (T @ [(nm, ADir [])])"
proof -
  obtain S PT where v: "mounted F" "vol_ok (vol F) N C" "sectors_per_cluster (vol F) = 64" "root_dir_sectors (vol F) = 32"
    "disk_is d S C" "tree_ok (vol F) N S PT" "T = abs_tree PT" using h by (auto simp: holds_def)
  have u: "usage T = length (clusters PT)" unfolding v(7) by (rule usage_clusters [OF v(3,6)])
  have nm: "name_ok nm" and room: "length PT < 16 * unat (root_dir_sectors (vol F))" "length (clusters PT) < N"
    using w v(4,7) u by simp_all
  obtain d' S' c where "fat16_mkdir_root E F (fst nm) (snd nm) None d = Some (True, None, d')" "disk_is d' S' C"
    "tree_ok (vol F) N S' (PT @ [(nm, PDir c [])])"
    using tree_mkdir [OF v(2,5,1) refl v(6) nm room, of None] by auto
  then show ?thesis using v(1-4,7) unfolding holds_def by (auto intro!: exI [of _ S'] exI [of _ "PT @ [(nm, PDir c [])]"])
qed

lemma new_file_step:
  assumes h: "holds F N C d T" and w: "within N (NewFile nm bs) T"
  shows "\<exists>d'. fs_step E F (NewFile nm bs) d = Some (Success True, d') \<and> holds F N C d' (T @ [(nm, AFile bs)])"
proof -
  obtain S PT where v: "mounted F" "vol_ok (vol F) N C" "sectors_per_cluster (vol F) = 64" "root_dir_sectors (vol F) = 32"
    "disk_is d S C" "tree_ok (vol F) N S PT" "T = abs_tree PT" using h by (auto simp: holds_def)
  have u: "usage T = length (clusters PT)" unfolding v(7) by (rule usage_clusters [OF v(3,6)])
  have nm: "name_ok nm" and sz: "unat (of_nat (length bs) :: u32) = length bs"
    and room: "length PT < 16 * unat (root_dir_sectors (vol F))" "length (clusters PT) + clusters_for (vol F) (length bs) \<le> N"
    using w v(4,7) u by (simp_all add: unat_of_nat_small clusters_for_cost [OF v(3)])
  obtain d' S' cs where "fat16_create_file_root E F (fst nm) (snd nm) bs (of_nat (length bs)) d = Some (True, d')" "disk_is d' S' C"
    "tree_ok (vol F) N S' (PT @ [(nm, PFile bs cs)])"
    using tree_create_root [OF v(2,5,1) refl v(6) nm sz room] by blast
  then show ?thesis using v(1-4,7) unfolding holds_def by (auto intro!: exI [of _ S'] exI [of _ "PT @ [(nm, PFile bs cs)]"])
qed

lemma new_file_in_step:
  assumes h: "holds F N C d T" and w: "within N (NewFileIn dn nm bs) T"
  shows "\<exists>d'. fs_step E F (NewFileIn dn nm bs) d = Some (fst (user_step (NewFileIn dn nm bs) T), d') \<and>
    holds F N C d' (snd (user_step (NewFileIn dn nm bs) T))"
proof -
  obtain S PT where v: "mounted F" "vol_ok (vol F) N C" "sectors_per_cluster (vol F) = 64" "root_dir_sectors (vol F) = 32"
    "disk_is d S C" "tree_ok (vol F) N S PT" "T = abs_tree PT" using h by (auto simp: holds_def)
  have ok: "\<forall>x \<in> set PT. name_ok (fst x) \<and> item_ok (vol F) N S (snd x)" using v(6) by (simp add: tree_ok_def)
  have q: "query_ok (fst dn) (snd dn)" using w by simp
  let ?dn = "fold_name dn"
  obtain d1 where d1: "disk_is d1 S C" "fat16_find_in_root E F (fst dn) (snd dn) blank_dirent d =
      (case map_of PT ?dn of Some it \<Rightarrow> (True, fill_dirent blank_dirent (item_entry (?dn, it)), d1)
       | None \<Rightarrow> (False, blank_dirent, d1))"
    using find_root_tree [OF v(2,5,1) refl v(6) q, of blank_dirent] unfolding fold_name_def by blast
  have h1: "holds F N C d1 T" using v d1(1) by (auto simp: holds_def)
  show ?thesis
  proof (cases "map_of PT ?dn")
    case None
    then show ?thesis using d1(2) h1 v(7) by (simp add: map_of_abs)
  next
    case (Some it)
    have it: "name_ok ?dn" "item_ok (vol F) N S it" using ok map_of_SomeD [OF Some] by auto
    show ?thesis
    proof (cases it)
      case (PFile gs ds)
      then have "file_ok (vol F) N S gs ds" using it(2) by simp
      from file_dirent(1) [OF v(2) it(1) this blank_ok] show ?thesis
        using d1(2) h1 v(7) Some PFile by (simp add: map_of_abs del: file_entry.simps)
    next
      case (PDir c fs)
      obtain T1 T2 where PT: "PT = T1 @ (?dn, PDir c fs) # T2" "?dn \<notin> fst ` set T1"
        by (rule map_of_split [OF Some [unfolded PDir]])
      have c: "c \<in> {2 ..< N + 2}" using it(2) PDir by simp
      note e = dir_dirent [OF v(2) it(1) c blank_ok, of fs]
      have u: "usage T = length (clusters PT)" unfolding v(7) by (rule usage_clusters [OF v(3,6)])
      have abs: "map_of T ?dn = Some (ADir (map (\<lambda>(nm, bs, cs). (nm, bs)) fs))" using Some PDir v(7) by (simp add: map_of_abs)
      have nm: "name_ok nm" and sz: "unat (of_nat (length bs) :: u32) = length bs"
        and room: "length fs + 2 < 16 * unat (sectors_per_cluster (vol F))"
          "length (clusters PT) + clusters_for (vol F) (length bs) \<le> N"
        using w v(3) u abs by (simp_all add: unat_of_nat_small clusters_for_cost [OF v(3)])
      obtain d2 S' cs where d2: "fat16_create_file_in_dir E F (of_nat c) (fst nm) (snd nm) bs (of_nat (length bs)) d1 = Some (True, d2)"
        "disk_is d2 S' C" "tree_ok (vol F) N S' (T1 @ (?dn, PDir c (fs @ [(nm, bs, cs)])) # T2)"
        using tree_create_in [OF v(2) d1(1) v(1) refl v(6) [unfolded PT(1)] nm sz room [unfolded PT(1)]] by blast
      have "fs_step E F (NewFileIn dn nm bs) d = Some (Success True, d2)"
        using d1(2) Some PDir e d2(1) by (simp del: item_entry.simps)
      moreover have "user_step (NewFileIn dn nm bs) T = (Success True, abs_tree (T1 @ (?dn, PDir c (fs @ [(nm, bs, cs)])) # T2))"
        using abs put_in_abs [OF PT(2), of nm bs c fs T2 cs] by (simp add: v(7) PT(1))
      moreover have "holds F N C d2 (abs_tree (T1 @ (?dn, PDir c (fs @ [(nm, bs, cs)])) # T2))"
        using v(1-4) d2(2,3) unfolding holds_def by blast
      ultimately show ?thesis by (simp only: fst_conv snd_conv) blast
    qed
  qed
qed

lemma read_step:
  assumes h: "holds F N C d T" and w: "within N (ReadFile nm) T"
  shows "\<exists>d'. fs_step E F (ReadFile nm) d = Some (fst (user_step (ReadFile nm) T), d') \<and> holds F N C d' T"
proof -
  obtain S PT where v: "mounted F" "vol_ok (vol F) N C" "sectors_per_cluster (vol F) = 64" "root_dir_sectors (vol F) = 32"
    "disk_is d S C" "tree_ok (vol F) N S PT" "T = abs_tree PT" using h by (auto simp: holds_def)
  have ok: "\<forall>x \<in> set PT. name_ok (fst x) \<and> item_ok (vol F) N S (snd x)" using v(6) by (simp add: tree_ok_def)
  have q: "query_ok (fst nm) (snd nm)" using w by simp
  let ?nm = "fold_name nm"
  have hold: "disk_is d' S C \<Longrightarrow> holds F N C d' T" for d' using v by (auto simp: holds_def)
  obtain d1 where d1: "disk_is d1 S C" "fat16_find_in_root E F (fst nm) (snd nm) blank_dirent d =
      (case map_of PT ?nm of Some it \<Rightarrow> (True, fill_dirent blank_dirent (item_entry (?nm, it)), d1)
       | None \<Rightarrow> (False, blank_dirent, d1))"
    using find_root_tree [OF v(2,5,1) refl v(6) q, of blank_dirent] unfolding fold_name_def by blast
  show ?thesis
  proof (cases "map_of PT ?nm")
    case None
    then show ?thesis using d1(2) hold [OF d1(1)] v(7) by (simp add: map_of_abs)
  next
    case (Some it)
    have it: "name_ok ?nm" "item_ok (vol F) N S it" using ok map_of_SomeD [OF Some] by auto
    show ?thesis
    proof (cases it)
      case (PFile bs cs)
      then have "file_ok (vol F) N S bs cs" using it(2) by simp
      from read_file_entry [OF v(2) d1(1) v(1) refl it(1) this] obtain d2 where
        "read_entry E F (fill_dirent blank_dirent (file_entry (?nm, bs, cs))) d1 = Some (Contents (Some bs), d2)" "disk_is d2 S C"
        by blast
      then show ?thesis using d1(2) hold v(7) Some PFile by (simp add: map_of_abs del: file_entry.simps)
    next
      case (PDir c fs)
      have c: "c \<in> {2 ..< N + 2}" using it(2) PDir by simp
      show ?thesis using dir_dirent(1) [OF v(2) it(1) c blank_ok, of fs] d1 hold v(7) Some PDir
        by (simp add: map_of_abs read_entry_def del: item_entry.simps)
    qed
  qed
qed

lemma read_in_step:
  assumes h: "holds F N C d T" and w: "within N (ReadFileIn dn nm) T"
  shows "\<exists>d'. fs_step E F (ReadFileIn dn nm) d = Some (fst (user_step (ReadFileIn dn nm) T), d') \<and> holds F N C d' T"
proof -
  obtain S PT where v: "mounted F" "vol_ok (vol F) N C" "sectors_per_cluster (vol F) = 64" "root_dir_sectors (vol F) = 32"
    "disk_is d S C" "tree_ok (vol F) N S PT" "T = abs_tree PT" using h by (auto simp: holds_def)
  have ok: "\<forall>x \<in> set PT. name_ok (fst x) \<and> item_ok (vol F) N S (snd x)" using v(6) by (simp add: tree_ok_def)
  have q: "query_ok (fst dn) (snd dn)" "query_ok (fst nm) (snd nm)" "folded (fst nm) (snd nm) \<notin> dots"
    using w by (simp_all add: fold_name_def)
  let ?dn = "fold_name dn" and ?nm = "fold_name nm"
  have hold: "disk_is d' S C \<Longrightarrow> holds F N C d' T" for d' using v by (auto simp: holds_def)
  obtain d1 where d1: "disk_is d1 S C" "fat16_find_in_root E F (fst dn) (snd dn) blank_dirent d =
      (case map_of PT ?dn of Some it \<Rightarrow> (True, fill_dirent blank_dirent (item_entry (?dn, it)), d1)
       | None \<Rightarrow> (False, blank_dirent, d1))"
    using find_root_tree [OF v(2,5,1) refl v(6) q(1), of blank_dirent] unfolding fold_name_def by blast
  show ?thesis
  proof (cases "map_of PT ?dn")
    case None
    then show ?thesis using d1(2) hold [OF d1(1)] v(7) by (simp add: map_of_abs)
  next
    case (Some it)
    have it: "name_ok ?dn" "item_ok (vol F) N S it" using ok map_of_SomeD [OF Some] by auto
    show ?thesis
    proof (cases it)
      case (PFile gs ds)
      then have "file_ok (vol F) N S gs ds" using it(2) by simp
      from file_dirent(1) [OF v(2) it(1) this blank_ok] show ?thesis
        using d1(2) hold [OF d1(1)] v(7) Some PFile by (simp add: map_of_abs del: file_entry.simps)
    next
      case (PDir c fs)
      have c: "c \<in> {2 ..< N + 2}" using it(2) PDir by simp
      note e = dir_dirent [OF v(2) it(1) c blank_ok, of fs]
      obtain d2 where d2: "disk_is d2 S C" "fat16_find_in_dir E F (of_nat c) (fst nm) (snd nm) blank_dirent d1 =
          (case map_of fs ?nm of Some (bs, cs) \<Rightarrow> (True, fill_dirent blank_dirent (file_entry (?nm, bs, cs)), d2)
           | None \<Rightarrow> (False, blank_dirent, d2))"
        using find_dir_tree [OF v(2) d1(1) v(1) refl it(2) [unfolded PDir] q(2,3), of blank_dirent] unfolding fold_name_def by blast
      show ?thesis
      proof (cases "map_of fs ?nm")
        case None
        then show ?thesis using d1(2) d2 e hold v(7) Some PDir
          by (simp add: map_of_abs map_of_erased del: item_entry.simps)
      next
        case f: (Some x)
        obtain bs cs where x: "x = (bs, cs)" by (cases x)
        have "(?nm, bs, cs) \<in> set fs" using map_of_SomeD [OF f] x by simp
        then have fo: "name_ok ?nm" "file_ok (vol F) N S bs cs" using it(2) PDir by auto
        from read_file_entry [OF v(2) d2(1) v(1) refl fo] obtain d3 where
          "read_entry E F (fill_dirent blank_dirent (file_entry (?nm, bs, cs))) d2 = Some (Contents (Some bs), d3)" "disk_is d3 S C"
          by blast
        then show ?thesis using d1(2) d2(2) e hold v(7) Some PDir f x
          by (simp add: map_of_abs map_of_erased del: item_entry.simps file_entry.simps)
      qed
    qed
  qed
qed

lemma fat_step_refines:
  assumes "holds F N C d T" and "within N op T"
  shows "\<exists>d'. fs_step E F op d = Some (fst (user_step op T), d') \<and> holds F N C d' (snd (user_step op T))"
proof (cases op)
  case (MkDir nm)
  then show ?thesis using mkdir_step [OF assms(1), of nm] assms(2) by simp
next
  case (NewFile nm bs)
  then show ?thesis using new_file_step [OF assms(1), of nm bs] assms(2) by simp
next
  case (NewFileIn dn nm bs)
  then show ?thesis using new_file_in_step [OF assms(1), of dn nm bs] assms(2) by simp
next
  case (ReadFile nm)
  then show ?thesis using read_step [OF assms(1), of nm] assms(2) by simp
next
  case (ReadFileIn dn nm)
  then show ?thesis using read_in_step [OF assms(1), of dn nm] assms(2) by simp
qed

end

interpretation fat: guarded_simulation "fs_step (ata_io io stk) F" user_step "within N" "ata.holds io view stk F N C"
  for io stk view F N C
  by unfold_locales (rule ata.fat_step_refines)

lemma fresh_tree:
  assumes "formatted p boot S" and "format_fits n"
  shows "tree_ok (fresh_volume p) (formatted_clusters n) S []"
  using fresh_root_slots [OF assms(1)] fresh_free_clusters [OF assms]
  by (simp add: tree_ok_def filled_def fresh_volume_def)

context block_device
begin

lemma fresh_holds:
  assumes "disk_is d S C" and "formatted p boot S" and "format_fits n" and "unat p + unat n \<le> unat C"
  shows "holds \<lparr>vol = fresh_volume p, mounted = True\<rparr> (formatted_clusters n) C d []"
  unfolding holds_def using assms(1) fresh_tree [OF assms(2,3)] fresh_vol_ok [OF assms(3,4)]
  by (auto simp: fresh_volume_def intro!: exI [of _ S] exI [of _ "[]"])

end

section \<open>The property\<close>

text \<open>
  C30. The file system is a tree.  On a conforming drive, formatting a partition of admissible
  size and mounting it succeed, and from then on any sequence of operations (making directories,
  creating files in the root or in a directory, reading files by their names in any mixture of
  cases) that stays within the limits of the volume succeeds and gives exactly the results of
  the same operations on an initially empty tree; nothing is lost, mixed up or left over.
\<close>

theorem fat16_implements_tree:
  assumes "ata_ready io view stk d" and "format_fits n" and "unat p + unat n \<le> unat (capacity (view d))"
    and "pre_ops user_step (within (formatted_clusters n)) ops []"
  shows "\<exists>d1 F1 d2 d3. fat16_format (ata_io io stk) p n d = (True, d1) \<and>
    fat16_mount (ata_io io stk) p F d1 = (True, F1, d2) \<and>
    run_opt (fs_step (ata_io io stk) F1) ops d2 = Some (fst (run_ops user_step ops []), d3)"
proof -
  obtain d1 d2 S' boot where m: "fat16_format (ata_io io stk) p n d = (True, d1)"
    "fat16_mount (ata_io io stk) p F d1 = (True, \<lparr>vol = fresh_volume p, mounted = True\<rparr>, d2)"
    "ata.disk_is io view stk d2 S' (capacity (view d))" "formatted p boot S'"
    by (rule ata.format_mount_ok [where F = F, OF ata_disk_is [OF assms(1)] assms(2,3)])
  from fat.run_defined [OF ata.fresh_holds [OF m(3,4) assms(2,3)] assms(4)] m(1,2) show ?thesis by blast
qed

text \<open>A directory, a file in it and one beside it.\<close>

theorem fat16_implements_tree_witness:
  "\<exists>d1 F1 d2 d3. fat16_format demo_disk 2048 300000 big_drive = (True, d1) \<and>
    fat16_mount demo_disk 2048 no_volume d1 = (True, F1, d2) \<and>
    run_opt (fs_step demo_disk F1)
      [MkDir (chars ''D'', []), NewFileIn (chars ''d'', []) (chars ''A'', chars ''TXT'') [1, 2, 3],
       NewFile (chars ''A'', []) [4], ReadFileIn (chars ''D'', []) (chars ''a'', chars ''txt''), ReadFile (chars ''b'', [])] d2 =
    Some ([Success True, Success True, Success True, Contents (Some [1, 2, 3]), Contents None], d3)"
proof -
  let ?ops = "[MkDir (chars ''D'', []), NewFileIn (chars ''d'', []) (chars ''A'', chars ''TXT'') [1, 2, 3],
       NewFile (chars ''A'', []) [4], ReadFileIn (chars ''D'', []) (chars ''a'', chars ''txt''), ReadFile (chars ''b'', [])]"
  have out: "fst (run_ops user_step ?ops []) =
      [Success True, Success True, Success True, Contents (Some [1, 2, 3]), Contents None]"
    by (simp add: fold_name_def upper_def)
  have "pre_ops user_step (within (formatted_clusters 300000)) ?ops []"
    by (simp add: fold_name_def upper_def formatted_clusters_def usage_def file_cost_def query_ok_def name_ok_def plain_def)
  from fat16_implements_tree [where F = no_volume, OF big_ready fits_300000 big_capacity this] show ?thesis
    unfolding out .
qed

end
