(* ===== verification/Console.thy ===== *)
theory Console
  imports PortIO
begin

text \<open>
  The text console (\<^verbatim>\<open>kernel/print.c\<close>, and \<open>clear_screen\<close> of \<^verbatim>\<open>kernel/main.c\<close>).

  \<^item> The state is the video memory as a function of the cell index (a raw pointer in the
    code, so an index past the screen is a write to other memory), the cursor, and the
    device state behind the ports.
  \<^item> The abstract specification is an endless paper roll: printing writes to the roll and
    moves the print position, and the screen is the window of 25 rows whose last row holds
    the print position.  Every print function refines the corresponding roll operation and
    writes no cell outside the screen.
\<close>

section \<open>State and operations\<close>

abbreviation (input) WHITE :: u16 where "WHITE \<equiv> 0x0f"
abbreviation (input) BLACK :: u8 where "BLACK \<equiv> 0x00"
abbreviation (input) SCREEN_WIDTH :: u32 where "SCREEN_WIDTH \<equiv> 80"
abbreviation (input) SCREEN_HEIGHT :: u32 where "SCREEN_HEIGHT \<equiv> 25"
abbreviation (input) SCREEN_SIZE :: u32 where "SCREEN_SIZE \<equiv> 2000"
abbreviation (input) CRT_CTRL_PORT :: u16 where "CRT_CTRL_PORT \<equiv> 0x3D4"
abbreviation (input) CRT_DATA_PORT :: u16 where "CRT_DATA_PORT \<equiv> 0x3D5"

record 'd console =
  vmem :: "u32 \<Rightarrow> u16"
  cursor_index :: u32
  bus :: 'd

definition update_cursor :: "'d ports \<Rightarrow> 'd console \<Rightarrow> 'd console" where
  "update_cursor io c =
     (let d = outb io CRT_CTRL_PORT 14 (bus c);
          d = outb io CRT_DATA_PORT (byte_of 1 (cursor_index c)) d;
          d = outb io CRT_CTRL_PORT 15 d;
          d = outb io CRT_DATA_PORT (byte_of 0 (cursor_index c)) d
      in c\<lparr>bus := d\<rparr>)"

text \<open>A cell: the (signed) character in the low byte, or-ed with the colour in the high byte.\<close>

definition glyph :: "u8 \<Rightarrow> u16" where
  "glyph ch = scast ch OR push_bit 8 WHITE"

text \<open>The two kinds of loop over cells: moving each row up, and filling with one cell.\<close>

definition shift_cells :: "nat \<Rightarrow> (u32 \<Rightarrow> u16) \<Rightarrow> u32 \<Rightarrow> u16" where
  "shift_cells n buffer =
     fold (\<lambda>i buffer. buffer(of_nat i := buffer (of_nat i + SCREEN_WIDTH))) [0..<n] buffer"

definition fill_cells :: "nat \<Rightarrow> nat \<Rightarrow> u16 \<Rightarrow> (u32 \<Rightarrow> u16) \<Rightarrow> u32 \<Rightarrow> u16" where
  "fill_cells k n blank buffer = fold (\<lambda>i buffer. buffer(of_nat i := blank)) [k..<n] buffer"

definition scroll_screen :: "'d console \<Rightarrow> 'd console" where
  "scroll_screen c =
     (let blank = glyph 0x20;
          buffer = shift_cells (unat (SCREEN_SIZE - SCREEN_WIDTH)) (vmem c);
          buffer = fill_cells (unat (SCREEN_SIZE - SCREEN_WIDTH)) (unat SCREEN_SIZE) blank buffer
      in c\<lparr>vmem := buffer, cursor_index := cursor_index c - SCREEN_WIDTH\<rparr>)"

lemma scroll_screen_cursor [simp]:
  "cursor_index (scroll_screen c) = cursor_index c - SCREEN_WIDTH"
  by (simp add: scroll_screen_def Let_def)

function advance_cursor :: "'d console \<Rightarrow> 'd console" where
  "advance_cursor c = (if cursor_index c \<ge> SCREEN_SIZE then advance_cursor (scroll_screen c) else c)"
  by pat_completeness auto
termination
  by (relation "measure (\<lambda>c. unat (cursor_index c))")
    (auto simp: word_le_nat_alt word_less_nat_alt unat_sub)

declare advance_cursor.simps [simp del]

definition newline :: "'d console \<Rightarrow> 'd console" where
  "newline c = advance_cursor
     (c\<lparr>cursor_index := (cursor_index c div SCREEN_WIDTH + 1) * SCREEN_WIDTH\<rparr>)"

definition put_cell :: "u8 \<Rightarrow> 'd console \<Rightarrow> 'd console" where
  "put_cell ch c =
     (let c = c\<lparr>vmem := (vmem c)(cursor_index c := glyph ch)\<rparr>;
          c = c\<lparr>cursor_index := cursor_index c + 1\<rparr>
      in advance_cursor c)"

text \<open>The loop of \<open>print_text\<close>, over the characters of the string up to its NUL.\<close>

fun text_loop :: "u8 list \<Rightarrow> 'd console \<Rightarrow> 'd console" where
  "text_loop [] c = c"
| "text_loop (ch # str) c =
     (if ch = 0 then c
      else if ch = 0x0A then text_loop str (newline c)
      else text_loop str (put_cell ch c))"

definition print_text :: "'d ports \<Rightarrow> u8 list \<Rightarrow> 'd console \<Rightarrow> 'd console" where
  "print_text io str c = update_cursor io (text_loop str c)"

definition print_char :: "'d ports \<Rightarrow> u8 \<Rightarrow> 'd console \<Rightarrow> 'd console" where
  "print_char io ch c =
     (if ch = 0x0A then update_cursor io (newline c)
      else if ch = 0x08 then
        let c = (if cursor_index c > 0
                 then let c = c\<lparr>cursor_index := cursor_index c - 1\<rparr>
                      in c\<lparr>vmem := (vmem c)(cursor_index c := glyph 0x20)\<rparr>
                 else c)
        in update_cursor io c
      else update_cursor io (put_cell ch c))"

text \<open>
  The digit loop of \<open>print_uint\<close>; \<open>i\<close> is the index of the last character written.  The
  array starts with contents that are never read (\<open>uint_loop_text\<close> below): here zeros.
\<close>

fun uint_loop :: "u32 \<Rightarrow> nat \<Rightarrow> u8 list \<Rightarrow> nat \<times> u8 list" where
  "uint_loop n 0 buf = (0, buf)"
| "uint_loop n (Suc i) buf =
     (if n > 0 then uint_loop (n div 10) i (buf[i := 0x30 + ucast (n mod 10)])
      else (Suc i, buf))"

definition print_uint :: "'d ports \<Rightarrow> u32 \<Rightarrow> 'd console \<Rightarrow> 'd console" where
  "print_uint io n c =
     (let buf = (replicate 11 0)[10 := 0]
      in if n = 0 then print_char io 0x30 c
         else case uint_loop n 10 buf of (i, buf) \<Rightarrow> print_text io (drop i buf) c)"

definition hex_digits :: "u8 list" where
  "hex_digits = chars ''0123456789ABCDEF''"

definition hex_loop :: "u32 \<Rightarrow> u8 list \<Rightarrow> u32 \<times> u8 list" where
  "hex_loop n buf =
     fold (\<lambda>i (n, buf). (drop_bit 4 n, buf[i := hex_digits ! unat (n AND 0xF)])) (rev [0..<8]) (n, buf)"

definition print_hex :: "'d ports \<Rightarrow> u32 \<Rightarrow> 'd console \<Rightarrow> 'd console" where
  "print_hex io n c =
     (case hex_loop n ((replicate 9 0)[8 := 0]) of (_, buf) \<Rightarrow>
        print_text io buf (print_text io (chars ''0x'') c))"

definition clear_screen_reset_cursor :: "'d ports \<Rightarrow> 'd console \<Rightarrow> 'd console" where
  "clear_screen_reset_cursor io c = update_cursor io (c\<lparr>cursor_index := 0\<rparr>)"

definition clear_screen :: "'d ports \<Rightarrow> u8 \<Rightarrow> 'd console \<Rightarrow> 'd console" where
  "clear_screen io color c =
     (let blank = 0x20 OR push_bit 8 (ucast color);
          buffer = fill_cells 0 (unat (SCREEN_WIDTH * SCREEN_HEIGHT)) blank (vmem c)
      in clear_screen_reset_cursor io (c\<lparr>vmem := buffer\<rparr>))"

section \<open>Loops in closed form\<close>

lemma fill_cells_apply:
  assumes "n \<le> 2 ^ 32"
  shows "fill_cells k n b m a = (if k \<le> unat a \<and> unat a < n then b else m a)"
  using assms
proof (induction n)
  case (Suc n)
  then have "a = of_nat n \<longleftrightarrow> unat a = n" by (intro word_eq_of_nat_iff) simp
  with Suc show ?case by (auto simp: fill_cells_def)
qed (simp add: fill_cells_def)

lemma shift_cells_apply:
  assumes "n \<le> 1920"
  shows "shift_cells n m a = (if unat a < n then m (a + 80) else m a)"
  using assms
proof (induction n arbitrary: a)
  case (Suc n)
  have u: "unat (of_nat n :: u32) = n" "unat (of_nat n + 80 :: u32) = n + 80"
    using Suc.prems by (simp_all add: unat_simps)
  have "a = of_nat n \<longleftrightarrow> unat a = n" using Suc.prems by (intro word_eq_of_nat_iff) simp
  then show ?case using Suc u by (auto simp: less_Suc_eq shift_cells_def)
qed (simp add: shift_cells_def)

section \<open>The paper roll\<close>

record roll =
  paper :: "nat \<Rightarrow> u16"
  pos :: nat
  win :: nat

definition roll_advance :: "roll \<Rightarrow> roll" where
  "roll_advance r = r\<lparr>win := max (win r) (pos r div 80 - 24)\<rparr>"

definition roll_newline :: "roll \<Rightarrow> roll" where
  "roll_newline r = roll_advance (r\<lparr>pos := 80 * (pos r div 80 + 1)\<rparr>)"

definition roll_put :: "u8 \<Rightarrow> roll \<Rightarrow> roll" where
  "roll_put ch r = roll_advance (r\<lparr>paper := (paper r)(pos r := glyph ch), pos := pos r + 1\<rparr>)"

definition roll_erase :: "roll \<Rightarrow> roll" where
  "roll_erase r =
     (if pos r > 80 * win r then r\<lparr>paper := (paper r)(pos r - 1 := glyph 0x20), pos := pos r - 1\<rparr>
      else r)"

definition roll_text :: "u8 list \<Rightarrow> roll \<Rightarrow> roll" where
  "roll_text s r =
     fold (\<lambda>ch. if ch = 0x0A then roll_newline else roll_put ch) (takeWhile (\<lambda>ch. ch \<noteq> 0) s) r"

definition roll_char :: "u8 \<Rightarrow> roll \<Rightarrow> roll" where
  "roll_char ch =
     (if ch = 0x0A then roll_newline else if ch = 0x08 then roll_erase else roll_put ch)"

definition fresh_roll :: "u16 \<Rightarrow> roll" where
  "fresh_roll blank = \<lparr>paper = (\<lambda>j. if j < 2000 then blank else glyph 0x20), pos = 0, win = 0\<rparr>"

text \<open>
  The screen shows the roll: the cursor is the print position within the window, the cells
  are those of the window, and the roll below the window is blank.
\<close>

definition shows_roll :: "'d console \<Rightarrow> roll \<Rightarrow> bool" where
  "shows_roll c r \<longleftrightarrow>
     80 * win r \<le> pos r \<and> pos r < 80 * win r + 2000 \<and>
     unat (cursor_index c) = pos r - 80 * win r \<and>
     (\<forall>i < 2000. vmem c (of_nat i) = paper r (80 * win r + i)) \<and>
     (\<forall>j \<ge> 80 * win r + 2000. paper r j = glyph 0x20)"

text \<open>As above but with the cursor possibly below the window, before \<open>advance_cursor\<close>.\<close>

definition shows_above :: "'d console \<Rightarrow> roll \<Rightarrow> bool" where
  "shows_above c r \<longleftrightarrow>
     80 * win r \<le> pos r \<and> pos r \<le> 80 * win r + 2000 \<and>
     unat (cursor_index c) = pos r - 80 * win r \<and>
     (\<forall>i < 2000. vmem c (of_nat i) = paper r (80 * win r + i)) \<and>
     (\<forall>j \<ge> 80 * win r + 2000. paper r j = glyph 0x20)"

lemma scroll_screen_vmem:
  "vmem (scroll_screen c) a =
     (if unat a < 1920 then vmem c (a + 80) else if unat a < 2000 then glyph 0x20 else vmem c a)"
  by (simp add: scroll_screen_def Let_def fill_cells_apply shift_cells_apply)

lemma advance_cursor_shows:
  assumes "shows_above c r"
  shows "shows_roll (advance_cursor c) (roll_advance r)"
    and "unat a \<ge> 2000 \<Longrightarrow> vmem (advance_cursor c) a = vmem c a"
    and "bus (advance_cursor c) = bus c"
proof -
  have *: "shows_roll (advance_cursor c) (roll_advance r) \<and>
      (\<forall>a. unat a \<ge> 2000 \<longrightarrow> vmem (advance_cursor c) a = vmem c a) \<and> bus (advance_cursor c) = bus c"
  proof (cases "cursor_index c \<ge> 2000")
    case False
    then have "pos r < 80 * win r + 2000"
      using assms by (auto simp: shows_above_def word_le_nat_alt)
    then have "pos r div 80 < win r + 25" by (simp add: div_less_iff_less_mult algebra_simps)
    then have "roll_advance r = r" by (simp add: roll_advance_def max_def)
    with False assms show ?thesis
      by (auto simp: advance_cursor.simps [of c] shows_above_def shows_roll_def word_le_nat_alt)
  next
    case True
    then have cur: "unat (cursor_index c) = 2000" and pos: "pos r = 80 * win r + 2000"
      using assms by (auto simp: shows_above_def word_le_nat_alt)
    have sc: "unat (cursor_index (scroll_screen c)) = 1920"
      using cur by (simp add: unat_sub word_le_nat_alt)
    have adv: "advance_cursor c = scroll_screen c"
      using True sc advance_cursor.simps [of c] advance_cursor.simps [of "scroll_screen c"]
      by (simp add: word_le_nat_alt del: scroll_screen_cursor)
    have top: "roll_advance r = r\<lparr>win := win r + 1\<rparr>"
      using pos by (simp add: roll_advance_def max_def)
    have "vmem (scroll_screen c) (of_nat i) = paper r (80 * (win r + 1) + i)" if "i < 2000" for i
    proof (cases "i < 1920")
      case True
      have "\<forall>i < 2000. vmem c (of_nat i) = paper r (80 * win r + i)"
        using assms by (simp add: shows_above_def)
      from this [rule_format, of "i + 80"] True
      have "vmem c (of_nat (i + 80)) = paper r (80 * win r + (i + 80))" by simp
      moreover have "vmem (scroll_screen c) (of_nat i) = vmem c (of_nat (i + 80))"
        using True by (simp add: scroll_screen_vmem unat_simps)
      moreover have "80 * (win r + 1) + i = 80 * win r + (i + 80)" by simp
      ultimately show ?thesis by (simp only:)
    next
      case False
      with that assms show ?thesis by (auto simp: scroll_screen_vmem unat_simps shows_above_def)
    qed
    moreover have "bus (scroll_screen c) = bus c" by (simp add: scroll_screen_def Let_def)
    ultimately show ?thesis
      using assms sc pos
      by (auto simp: adv top shows_roll_def scroll_screen_vmem shows_above_def simp del: scroll_screen_cursor)
  qed
  then show "shows_roll (advance_cursor c) (roll_advance r)"
    and "unat a \<ge> 2000 \<Longrightarrow> vmem (advance_cursor c) a = vmem c a"
    and "bus (advance_cursor c) = bus c" by blast+
qed


lemma newline_shows:
  assumes "shows_roll c r"
  shows "shows_roll (newline c) (roll_newline r)"
    and "unat a \<ge> 2000 \<Longrightarrow> vmem (newline c) a = vmem c a"
    and "bus (newline c) = bus c"
proof -
  let ?c = "c\<lparr>cursor_index := (cursor_index c div SCREEN_WIDTH + 1) * SCREEN_WIDTH\<rparr>"
  let ?r = "r\<lparr>pos := 80 * (pos r div 80 + 1)\<rparr>"
  let ?q = "unat (cursor_index c)"
  have q: "?q < 2000" "pos r = 80 * win r + ?q" using assms by (auto simp: shows_roll_def)
  then have d: "?q div 80 < 25" "pos r div 80 = win r + ?q div 80"
    by (simp_all add: div_less_iff_less_mult)
  have "unat (cursor_index c div 80) = ?q div 80" by (simp add: unat_div)
  then have "unat ((cursor_index c div 80 + 1) * 80) = 80 * (?q div 80 + 1)"
    using d by (simp add: unat_word_ariths)
  then have "shows_above ?c ?r"
    using assms d by (auto simp: shows_roll_def shows_above_def)
  from advance_cursor_shows [OF this]
  show "shows_roll (newline c) (roll_newline r)"
    and "unat a \<ge> 2000 \<Longrightarrow> vmem (newline c) a = vmem c a"
    and "bus (newline c) = bus c"
    by (simp_all add: newline_def roll_newline_def)
qed

lemma put_cell_shows:
  assumes "shows_roll c r"
  shows "shows_roll (put_cell ch c) (roll_put ch r)"
    and "unat a \<ge> 2000 \<Longrightarrow> vmem (put_cell ch c) a = vmem c a"
    and "bus (put_cell ch c) = bus c"
proof -
  let ?c = "c\<lparr>vmem := (vmem c)(cursor_index c := glyph ch), cursor_index := cursor_index c + 1\<rparr>"
  let ?r = "r\<lparr>paper := (paper r)(pos r := glyph ch), pos := pos r + 1\<rparr>"
  have q: "unat (cursor_index c) < 2000" "pos r = 80 * win r + unat (cursor_index c)"
    using assms by (auto simp: shows_roll_def)
  then have "unat (cursor_index c + 1) = unat (cursor_index c) + 1"
    by (simp add: unat_word_ariths)
  moreover have "of_nat i = cursor_index c \<longleftrightarrow> 80 * win r + i = pos r" if "i < 2000" for i
    using q that word_eq_of_nat_iff [of i "cursor_index c"] by auto
  ultimately have "shows_above ?c ?r"
    using assms q by (auto simp: shows_roll_def shows_above_def)
  from advance_cursor_shows [OF this] q
  show "shows_roll (put_cell ch c) (roll_put ch r)"
    and "unat a \<ge> 2000 \<Longrightarrow> vmem (put_cell ch c) a = vmem c a"
    and "bus (put_cell ch c) = bus c"
    by (auto simp: put_cell_def roll_put_def)
qed

lemma text_loop_shows:
  assumes "shows_roll c r"
  shows "shows_roll (text_loop s c) (roll_text s r) \<and>
         (\<forall>a. unat a \<ge> 2000 \<longrightarrow> vmem (text_loop s c) a = vmem c a) \<and>
         bus (text_loop s c) = bus c"
  using assms
proof (induction s c arbitrary: r rule: text_loop.induct)
  case (2 ch str c)
  show ?case
  proof (cases "ch = 0x0A")
    case True
    from "2.IH"(1) [OF _ True newline_shows(1) [OF "2.prems"]] True newline_shows(2,3) [OF "2.prems"]
    show ?thesis by (simp add: roll_text_def)
  next
    case False
    from "2.IH"(2) [OF _ False put_cell_shows(1) [OF "2.prems"]] False put_cell_shows(2,3) [OF "2.prems"] "2.prems"
    show ?thesis by (simp add: roll_text_def)
  qed
qed (simp add: roll_text_def)

lemma update_cursor_simps [simp]:
  "vmem (update_cursor io c) = vmem c" "cursor_index (update_cursor io c) = cursor_index c"
  by (simp_all add: update_cursor_def Let_def)

lemma shows_roll_update_cursor [simp]: "shows_roll (update_cursor io c) r = shows_roll c r"
  by (simp add: shows_roll_def)

lemma print_text_shows:
  assumes "shows_roll c r"
  shows "shows_roll (print_text io s c) (roll_text s r)"
    and "unat a \<ge> 2000 \<Longrightarrow> vmem (print_text io s c) a = vmem c a"
  using text_loop_shows [OF assms] by (simp_all add: print_text_def)

lemma erase_shows:
  assumes "shows_roll c r" and "cursor_index c > 0"
  shows "shows_roll (c\<lparr>cursor_index := cursor_index c - 1,
           vmem := (vmem c)(cursor_index c - 1 := glyph 0x20)\<rparr>) (roll_erase r)"
    and "unat a \<ge> 2000 \<Longrightarrow> a \<noteq> cursor_index c - 1"
proof -
  have q: "0 < unat (cursor_index c)" "unat (cursor_index c) < 2000"
      "pos r = 80 * win r + unat (cursor_index c)"
    using assms by (auto simp: shows_roll_def word_less_nat_alt)
  then have u: "unat (cursor_index c - 1) = unat (cursor_index c) - 1"
    by (simp add: unat_sub word_le_nat_alt)
  have "of_nat i = cursor_index c - 1 \<longleftrightarrow> 80 * win r + i = pos r - 1" if "i < 2000" for i
  proof -
    have "cursor_index c - 1 = of_nat i \<longleftrightarrow> unat (cursor_index c - 1) = i"
      using that by (intro word_eq_of_nat_iff) simp
    also have "\<dots> \<longleftrightarrow> 80 * win r + i = pos r - 1" unfolding u q(3) using q(1) by linarith
    finally show ?thesis by metis
  qed
  moreover have "\<forall>i < 2000. vmem c (of_nat i) = paper r (80 * win r + i)"
      "\<forall>j \<ge> 80 * win r + 2000. paper r j = glyph 0x20"
    using assms by (simp_all add: shows_roll_def)
  moreover have "roll_erase r = r\<lparr>paper := (paper r)(pos r - 1 := glyph 0x20), pos := pos r - 1\<rparr>"
    using q by (simp add: roll_erase_def)
  moreover have "80 * win r \<le> pos r - 1" "pos r - 1 < 80 * win r + 2000" using q by linarith+
  ultimately show "shows_roll (c\<lparr>cursor_index := cursor_index c - 1,
      vmem := (vmem c)(cursor_index c - 1 := glyph 0x20)\<rparr>) (roll_erase r)"
    using q u by (simp add: shows_roll_def)
  show "unat a \<ge> 2000 \<Longrightarrow> a \<noteq> cursor_index c - 1" using q u by auto
qed

lemma print_char_shows:
  assumes "shows_roll c r"
  shows "shows_roll (print_char io ch c) (roll_char ch r)"
    and "unat a \<ge> 2000 \<Longrightarrow> vmem (print_char io ch c) a = vmem c a"
proof -
  have "roll_erase r = r" if "\<not> cursor_index c > 0"
    using assms that by (auto simp: shows_roll_def roll_erase_def word_less_nat_alt)
  with assms newline_shows [OF assms] put_cell_shows [OF assms] erase_shows [OF assms]
  show "shows_roll (print_char io ch c) (roll_char ch r)"
    and "unat a \<ge> 2000 \<Longrightarrow> vmem (print_char io ch c) a = vmem c a"
    by (auto simp: print_char_def roll_char_def Let_def)
qed

lemma clear_screen_shows:
  "shows_roll (clear_screen io color c) (fresh_roll (0x20 OR push_bit 8 (ucast color)))"
  "unat a \<ge> 2000 \<Longrightarrow> vmem (clear_screen io color c) a = vmem c a"
  by (simp_all add: clear_screen_def clear_screen_reset_cursor_def Let_def fresh_roll_def shows_roll_def
      fill_cells_apply unat_simps)

section \<open>Numbers\<close>

fun digits10 :: "nat \<Rightarrow> u8 list" where
  "digits10 n = (if n = 0 then [] else digits10 (n div 10) @ [0x30 + of_nat (n mod 10)])"

declare digits10.simps [simp del]

definition decimal :: "nat \<Rightarrow> u8 list" where
  "decimal n = (if n = 0 then [0x30] else digits10 n)"

definition hexadecimal :: "nat \<Rightarrow> u8 list" where
  "hexadecimal n = map (\<lambda>i. hex_digits ! (n div 16 ^ (7 - i) mod 16)) [0..<8]"

lemma text_loop_stops: "text_loop (s @ 0 # s') c = text_loop s c"
  by (induction s c rule: text_loop.induct) simp_all

lemma roll_text_append: "0 \<notin> set s \<Longrightarrow> roll_text (s @ s') r = roll_text s' (roll_text s r)"
  by (simp add: roll_text_def takeWhile_append takeWhile_eq_all_conv [THEN iffD2])

lemma roll_text_c_string: "roll_text (c_string s) = roll_text s"
proof -
  have "takeWhile (\<lambda>ch. ch \<noteq> 0) (c_string s) = takeWhile (\<lambda>ch. ch \<noteq> 0) s"
    unfolding c_string_def by (simp add: takeWhile_eq_all_conv)
  then show ?thesis by (simp add: fun_eq_iff roll_text_def)
qed

lemma uint_loop_zero: "uint_loop 0 i buf = (i, buf)"
  by (cases i) simp_all

lemma uint_loop_text:
  assumes "unat n < 10 ^ i" "i \<le> length buf"
  shows "case uint_loop n i buf of (j, buf') \<Rightarrow> drop j buf' = digits10 (unat n) @ drop i buf"
  using assms
proof (induction i arbitrary: n buf)
  case 0
  then show ?case by (simp add: digits10.simps)
next
  case (Suc i)
  show ?case
  proof (cases "n > 0")
    case True
    let ?d = "0x30 + ucast (n mod 10) :: u8"
    have "unat (n div 10) < 10 ^ i"
      using Suc.prems(1) by (simp add: unat_div div_less_iff_less_mult mult.commute)
    from Suc.IH [OF this, of "buf[i := ?d]"] Suc.prems
    have "case uint_loop (n div 10) i (buf[i := ?d]) of (j, buf') \<Rightarrow>
        drop j buf' = digits10 (unat n div 10) @ drop i (buf[i := ?d])" by (simp add: unat_div)
    moreover have "drop i (buf[i := ?d]) = ?d # drop (Suc i) buf"
      using Suc.prems by (simp add: Cons_nth_drop_Suc [symmetric])
    moreover have "?d = 0x30 + of_nat (unat n mod 10)"
      by (rule word_unat_eq_iff [THEN iffD2]) (simp add: unat_word_ariths unat_mod unsigned_ucast_eq unat_of_nat take_bit_eq_mod)
    ultimately show ?thesis using True
      by (simp add: digits10.simps [of "unat n"] word_less_nat_alt split_beta)
  qed (simp add: digits10.simps word_less_nat_alt)
qed

lemma print_uint_text: "print_uint io n c = print_text io (decimal (unat n)) c"
proof (cases "n = 0")
  case True
  then show ?thesis by (simp add: print_uint_def decimal_def print_char_def print_text_def)
next
  case False
  have "unat n < 10 ^ 10" using unsigned_less [of n, where ?'a = nat] by simp
  from uint_loop_text [OF this, of "(replicate 11 0)[10 := 0]"]
  have "(case uint_loop n 10 ((replicate 11 0)[10 := 0]) of (i, buf) \<Rightarrow> print_text io (drop i buf) c)
      = print_text io (digits10 (unat n)) c"
    by (simp add: split_beta print_text_def text_loop_stops numeral_eq_Suc)
  with False show ?thesis by (simp add: print_uint_def decimal_def Let_def word_unat_eq_iff)
qed

lemma nibble: "unat (drop_bit k n AND 0xF) = unat n div 2 ^ k mod 16" for n :: u32
proof -
  have "(0xF :: u32) = mask 4" by (simp add: mask_eq_exp_minus_1)
  then have "drop_bit k n AND 0xF = take_bit 4 (drop_bit k n)" by (simp only: take_bit_eq_mask)
  then have "unat (drop_bit k n AND 0xF) = take_bit 4 (drop_bit k (take_bit 32 (unat n)))"
    by (simp only: unsigned_take_bit_eq unsigned_drop_bit_eq len_bit0 len_num1) simp
  moreover have "take_bit 32 (unat n) = unat n"
    using unsigned_less [of n, where ?'a = nat] by (simp add: take_bit_nat_eq_self)
  ultimately show ?thesis by (simp only: take_bit_eq_mod drop_bit_eq_div) simp
qed

lemma hex_loop_text:
  "snd (hex_loop n ((replicate 9 0)[8 := 0])) = hexadecimal (unat n) @ [0]"
proof -
  have up: "rev [0..<8] = [7, 6, 5, 4, 3, 2, 1, 0 :: nat]" by (simp add: upt_rec)
  have ups: "[0..<8] = [0, 1, 2, 3, 4, 5, 6, 7 :: nat]" by (simp add: upt_rec)
  have r: "(replicate 9 0)[8 := 0] = [0, 0, 0, 0, 0, 0, 0, 0, 0 :: u8]" by (simp add: numeral_eq_Suc)
  have "snd (hex_loop n ((replicate 9 0)[8 := 0]))
      = map (\<lambda>k. hex_digits ! unat (drop_bit k n AND 0xF)) [28, 24, 20, 16, 12, 8, 4, 0] @ [0]"
    unfolding hex_loop_def up r by (simp add: drop_bit_drop_bit)
  also have "\<dots> = hexadecimal (unat n) @ [0]"
    unfolding nibble hexadecimal_def ups by simp
  finally show ?thesis .
qed

lemma print_hex_text:
  "print_hex io n c = print_text io (hexadecimal (unat n)) (print_text io (chars ''0x'') c)"
  using hex_loop_text [of n]
  by (simp add: print_hex_def split_beta print_text_def text_loop_stops)

lemma digits10_value: "foldl (\<lambda>v ch. 10 * v + (unat ch - 48)) 0 (digits10 n) = n"
proof (induction n rule: digits10.induct)
  case (1 n)
  have "unat (0x30 + of_nat (n mod 10) :: u8) = 48 + n mod 10"
    by (simp add: unat_word_ariths unat_of_nat)
  with 1 show ?case by (subst digits10.simps) simp
qed

lemma digits10_digits: "ch \<in> set (digits10 n) \<Longrightarrow> 48 \<le> unat ch \<and> unat ch \<le> 57"
proof (induction n rule: digits10.induct)
  case (1 n)
  have "unat (0x30 + of_nat (n mod 10) :: u8) = 48 + n mod 10"
    by (simp add: unat_word_ariths unat_of_nat)
  moreover have "n mod 10 < 10" by simp
  moreover have "digits10 n = (if n = 0 then [] else digits10 (n div 10) @ [0x30 + of_nat (n mod 10)])"
    by (rule digits10.simps)
  ultimately show ?case using 1 by (auto split: if_splits)
qed

lemma digits10_hd: "n \<noteq> 0 \<Longrightarrow> digits10 n \<noteq> [] \<and> hd (digits10 n) \<noteq> 0x30"
proof (induction n rule: digits10.induct)
  case (1 n)
  have u: "unat (0x30 + of_nat (n mod 10) :: u8) = 48 + n mod 10"
    by (simp add: unat_word_ariths unat_of_nat)
  show ?case
  proof (cases "n div 10 = 0")
    case True
    then have "n mod 10 = n" by (simp add: div_eq_0_iff)
    with u 1 True show ?thesis
      by (auto simp: digits10.simps [of n] digits10.simps [of 0] word_unat_eq_iff)
  next
    case False
    with 1 show ?thesis by (simp add: digits10.simps [of n])
  qed
qed

lemma decimal_value: "foldl (\<lambda>v ch. 10 * v + (unat ch - 48)) 0 (decimal n) = n"
  by (simp add: decimal_def digits10_value)

lemma decimal_digits: "ch \<in> set (decimal n) \<Longrightarrow> 48 \<le> unat ch \<and> unat ch \<le> 57"
  by (auto simp: decimal_def digits10_digits split: if_splits)

lemma decimal_hd: "n \<noteq> 0 \<Longrightarrow> hd (decimal n) \<noteq> 0x30"
  by (simp add: decimal_def digits10_hd)

lemma base16_value:
  "foldl (\<lambda>v x. 16 * v + x) 0 (map (\<lambda>i. n div 16 ^ (k - Suc i) mod 16) [0..<k]) = n mod 16 ^ k"
  for n :: nat
proof (induction k arbitrary: n)
  case (Suc k)
  have "map (\<lambda>i. n div 16 ^ (Suc k - Suc i) mod 16) [0..<k]
      = map (\<lambda>i. n div 16 div 16 ^ (k - Suc i) mod 16) [0..<k]"
  proof (rule map_cong [OF refl])
    fix i assume "i \<in> set [0..<k]"
    then have "Suc k - Suc i = Suc (k - Suc i)" by auto
    then have "(16 :: nat) ^ (Suc k - Suc i) = 16 * 16 ^ (k - Suc i)" by (simp only: power_Suc)
    then show "n div 16 ^ (Suc k - Suc i) mod 16 = n div 16 div 16 ^ (k - Suc i) mod 16"
      by (simp only: div_mult2_eq)
  qed
  then have "foldl (\<lambda>v x. 16 * v + x) 0 (map (\<lambda>i. n div 16 ^ (Suc k - Suc i) mod 16) [0..<Suc k])
      = 16 * (n div 16 mod 16 ^ k) + n mod 16"
    by (simp only: upt_Suc_append [OF le0] map_append foldl_append Suc.IH) simp
  then show ?case by (simp only: power_Suc mod_mult2_eq)
qed simp

lemma hexadecimal_value:
  fixes n :: u32
  shows "\<exists>ds. hexadecimal (unat n) = map ((!) hex_digits) ds \<and> (\<forall>x \<in> set ds. x < 16) \<and>
      foldl (\<lambda>v x. 16 * v + x) 0 ds = unat n"
proof (intro exI conjI)
  let ?ds = "map (\<lambda>i. unat n div 16 ^ (8 - Suc i) mod 16) [0..<8]"
  show "hexadecimal (unat n) = map ((!) hex_digits) ?ds" by (simp add: hexadecimal_def)
  show "\<forall>x \<in> set ?ds. x < 16" by auto
  have "unat n < 16 ^ 8" using unsigned_less [of n, where ?'a = nat] by simp
  then show "foldl (\<lambda>v x. 16 * v + x) 0 ?ds = unat n" by (simp only: base16_value mod_less)
qed

section \<open>Sequences of operations\<close>

datatype console_op = Text "u8 list" | Char u8 | Uint u32 | Hex u32 | Clear u8

fun console_step :: "'d ports \<Rightarrow> console_op \<Rightarrow> 'd console \<Rightarrow> unit \<times> 'd console" where
  "console_step io (Text s) c = ((), print_text io s c)"
| "console_step io (Char ch) c = ((), print_char io ch c)"
| "console_step io (Uint n) c = ((), print_uint io n c)"
| "console_step io (Hex n) c = ((), print_hex io n c)"
| "console_step io (Clear color) c = ((), clear_screen io color c)"

fun roll_step :: "console_op \<Rightarrow> roll \<Rightarrow> unit \<times> roll" where
  "roll_step (Text s) r = ((), roll_text s r)"
| "roll_step (Char ch) r = ((), roll_char ch r)"
| "roll_step (Uint n) r = ((), roll_text (decimal (unat n)) r)"
| "roll_step (Hex n) r = ((), roll_text (chars ''0x'' @ hexadecimal (unat n)) r)"
| "roll_step (Clear color) r = ((), fresh_roll (0x20 OR push_bit 8 (ucast color)))"

text \<open>The screen shows the roll, and the memory beyond the screen is still that of \<open>m\<close>.\<close>

definition console_rel :: "(u32 \<Rightarrow> u16) \<Rightarrow> 'd console \<Rightarrow> roll \<Rightarrow> bool" where
  "console_rel m c r \<longleftrightarrow> shows_roll c r \<and> (\<forall>a. unat a \<ge> 2000 \<longrightarrow> vmem c a = m a)"

lemma console_rel_text: "console_rel m c r \<Longrightarrow> console_rel m (print_text io s c) (roll_text s r)"
  by (auto simp: console_rel_def print_text_shows(2) [of c r] intro: print_text_shows(1))

lemma console_step_rel:
  assumes "console_rel m c r"
  shows "console_rel m (snd (console_step io x c)) (snd (roll_step x r))"
proof (cases x)
  case (Char ch)
  with assms show ?thesis
    by (auto simp: console_rel_def print_char_shows(2) [of c r] intro: print_char_shows(1))
next
  case (Hex n)
  have "roll_text (chars ''0x'' @ s) r = roll_text s (roll_text (chars ''0x'') r)" for s
    by (rule roll_text_append) simp
  with Hex assms show ?thesis by (simp add: print_hex_text console_rel_text del: chars_simps)
next
  case (Clear color)
  with assms show ?thesis by (simp add: console_rel_def clear_screen_shows)
qed (use assms in \<open>simp_all add: console_rel_text print_uint_text\<close>)

interpretation console: simulation "console_step io" roll_step "\<lambda>_ _. True" "console_rel m" for io m
  by unfold_locales (auto simp: console_step_rel intro: unit_eq)

section \<open>The hardware cursor\<close>

text \<open>
  What the code relies on of the CRT controller: a write to the control port selects a
  register, a write to the data port stores into the selected one.
\<close>

definition crt_conforms :: "'d ports \<Rightarrow> ('d \<Rightarrow> u8) \<Rightarrow> ('d \<Rightarrow> u8 \<Rightarrow> u8) \<Rightarrow> bool" where
  "crt_conforms io sel reg \<longleftrightarrow>
     (\<forall>v d. sel (p_outb io CRT_CTRL_PORT v d) = v \<and> reg (p_outb io CRT_CTRL_PORT v d) = reg d) \<and>
     (\<forall>v d. sel (p_outb io CRT_DATA_PORT v d) = sel d \<and>
        reg (p_outb io CRT_DATA_PORT v d) = (reg d)(sel d := v))"

definition hw_cursor :: "('d \<Rightarrow> u8 \<Rightarrow> u8) \<Rightarrow> 'd console \<Rightarrow> u32" where
  "hw_cursor reg c = le16 (reg (bus c) 15) (reg (bus c) 14)"

lemma update_cursor_hw:
  assumes "crt_conforms io sel reg" and "unat (cursor_index c) < 65536"
  shows "hw_cursor reg (update_cursor io c) = cursor_index c"
proof -
  have "hw_cursor reg (update_cursor io c) = le16 (byte_of 0 (cursor_index c)) (byte_of 1 (cursor_index c))"
    using assms(1) by (simp add: hw_cursor_def update_cursor_def Let_def outb_def crt_conforms_def)
  also have "\<dots> = cursor_index c"
    using assms(2) by (simp add: le_simps take_bit_eq_mod word_unat_eq_iff unat_mod)
  finally show ?thesis .
qed

lemma shows_roll_cursor: "shows_roll c r \<Longrightarrow> unat (cursor_index c) < 2000"
  by (auto simp: shows_roll_def)

text \<open>Every operation ends with \<open>update_cursor\<close>.\<close>

lemma console_step_updates: "\<exists>c'. snd (console_step io x c) = update_cursor io c'"
proof (cases x)
  case (Char ch)
  then show ?thesis by (auto simp: print_char_def Let_def)
qed (auto simp: print_text_def print_uint_text print_hex_text clear_screen_def
       clear_screen_reset_cursor_def Let_def)

lemma console_run_rel:
  "shows_roll c r \<Longrightarrow> console_rel (vmem c) (snd (run_ops (console_step io) ops c)) (snd (run_ops roll_step ops r))"
  by (rule console.run_rel) (simp_all add: console_rel_def)

text \<open>A controller that is nothing but its registers, for the concrete instances below.\<close>

definition demo_vga :: "(u8 \<times> (u8 \<Rightarrow> u8)) ports" where
  "demo_vga =
     \<lparr>p_inb = (\<lambda>port d. (0, d)),
      p_outb = (\<lambda>port v (sel, reg). if port = CRT_CTRL_PORT then (v, reg)
                 else if port = CRT_DATA_PORT then (sel, reg(sel := v)) else (sel, reg)),
      p_inw = (\<lambda>port d. (0, d)), p_outw = (\<lambda>port v d. d)\<rparr>"

definition demo_console :: "(u8 \<times> (u8 \<Rightarrow> u8)) console" where
  "demo_console = \<lparr>vmem = (\<lambda>_. 0x1234), cursor_index = 5, bus = (0, \<lambda>_. 0)\<rparr>"

lemma demo_vga_conforms: "crt_conforms demo_vga fst snd"
  by (auto simp: crt_conforms_def demo_vga_def)

lemma demo_shows: "shows_roll (clear_screen demo_vga BLACK demo_console) (fresh_roll 0x20)"
  using clear_screen_shows(1) [of demo_vga BLACK demo_console] by simp

section \<open>Properties\<close>

text \<open>
  C25.  The console refines the endless paper roll: after any sequence of \<open>print_text\<close>,
  \<open>print_char\<close>, \<open>print_uint\<close>, \<open>print_hex\<close> and \<open>clear_screen\<close> calls the screen
  shows the 25-row window of what the same calls wrote on the roll (numbers as their decimal
  or eight-digit hexadecimal text), the cursor is inside the screen, and no memory beyond
  the 2000 cells of the screen has been written.
\<close>

theorem console_refines_roll:
  assumes "shows_roll c r" and "c' = snd (run_ops (console_step io) ops c)"
  shows "shows_roll c' (snd (run_ops roll_step ops r)) \<and> unat (cursor_index c') < 2000 \<and>
     (\<forall>a. unat a \<ge> 2000 \<longrightarrow> vmem c' a = vmem c a)"
  using console_run_rel [OF assms(1), of io ops] unfolding assms(2)
  by (auto simp: console_rel_def intro: shows_roll_cursor)

theorem console_refines_roll_witness:
  "let c = clear_screen demo_vga BLACK demo_console;
       ops = [Text (chars ''Hi''), Char 0x0A, Uint 7];
       c' = snd (run_ops (console_step demo_vga) ops c)
   in shows_roll c' (snd (run_ops roll_step ops (fresh_roll 0x20))) \<and>
      unat (cursor_index c') < 2000 \<and> vmem c' 2000 = 0x1234"
  using console_refines_roll [OF demo_shows refl, of demo_vga "[Text (chars ''Hi''), Char 0x0A, Uint 7]"]
    clear_screen_shows(2) [of 2000 demo_vga BLACK demo_console]
  by (simp add: Let_def demo_console_def del: run_ops.simps chars_simps)



text \<open>
  C27.  On a controller that follows the register protocol the blinking cursor is where the
  next character goes: after every console operation the cursor location registers 14 and 15
  hold the kernel's cursor index.
\<close>

theorem hardware_cursor_follows:
  assumes "crt_conforms io sel reg" and "shows_roll c r"
    and "c' = snd (run_ops (console_step io) (ops @ [x]) c)"
  shows "hw_cursor reg c' = cursor_index c'"
proof -
  obtain c'' where c'': "c' = update_cursor io c''"
    using console_step_updates [of io x] assms(3) by (auto simp: run_ops_append split_beta)
  have "unat (cursor_index c') < 2000"
    using console_run_rel [OF assms(2), of io "ops @ [x]"] assms(3)
    by (auto simp: console_rel_def intro: shows_roll_cursor)
  then show ?thesis using update_cursor_hw [OF assms(1), of c''] c'' by simp
qed

theorem hardware_cursor_follows_witness:
  "let c = clear_screen demo_vga BLACK demo_console;
       c' = snd (run_ops (console_step demo_vga) ([] @ [Text (chars ''Hi'')]) c)
   in hw_cursor snd c' = cursor_index c'"
  using hardware_cursor_follows [OF demo_vga_conforms demo_shows refl, of "[]" "Text (chars ''Hi'')"]
  by (simp add: Let_def)

end
