(* ===== verification/Keyboard.thy ===== *)
theory Keyboard
  imports PortIO
begin

text \<open>
  The PS/2 keyboard driver (\<^verbatim>\<open>kernel/drivers/ps2.c\<close>).

  \<^item> The state is the driver's static variables: the ring buffer with its two indices and the
    modifier flags; the controller behind the ports is a parameter.
  \<^item> The ring buffer refines a queue of at most 255 characters (an interpretation of
    \<open>simulation\<close>).
  \<^item> The interrupt handler may run between any two memory accesses of
    \<open>key_buffer_pop\<close>; \<open>kb_reach\<close> is the transition system with those interleavings.
\<close>

section \<open>State and operations\<close>

abbreviation (input) PS2_DATA_PORT :: u16 where "PS2_DATA_PORT \<equiv> 0x60"
abbreviation (input) PS2_STATUS_PORT :: u16 where "PS2_STATUS_PORT \<equiv> 0x64"
abbreviation (input) KEY_BUFFER_SIZE :: u32 where "KEY_BUFFER_SIZE \<equiv> 256"
abbreviation (input) SCANCODE_EXTENDED_PREFIX :: u8 where "SCANCODE_EXTENDED_PREFIX \<equiv> 0xE0"
abbreviation (input) SCANCODE_ARROW_UP :: u8 where "SCANCODE_ARROW_UP \<equiv> 0x48"
abbreviation (input) SCANCODE_ARROW_DOWN :: u8 where "SCANCODE_ARROW_DOWN \<equiv> 0x50"
abbreviation (input) SCANCODE_LSHIFT :: u8 where "SCANCODE_LSHIFT \<equiv> 0x2A"
abbreviation (input) SCANCODE_RSHIFT :: u8 where "SCANCODE_RSHIFT \<equiv> 0x36"
abbreviation (input) SCANCODE_CAPSLOCK :: u8 where "SCANCODE_CAPSLOCK \<equiv> 0x3A"
abbreviation (input) KEY_ARROW_UP :: u8 where "KEY_ARROW_UP \<equiv> 0x01"
abbreviation (input) KEY_ARROW_DOWN :: u8 where "KEY_ARROW_DOWN \<equiv> 0x02"

text \<open>
  The two tables, row by row of keys; the entries from \<^verbatim>\<open>0x3A\<close> on are zero (those after
  \<^verbatim>\<open>0x5C\<close> by C's initialisation rule).  39 is the apostrophe, 34 the double quote and 92
  the backslash.
\<close>

definition scancode_to_ascii :: "u8 list" where
  "scancode_to_ascii =
     [0, 27] @ chars ''1234567890-='' @ [8, 9] @ chars ''qwertyuiop[]'' @ [10, 0] @
     chars ''asdfghjkl;'' @ [39] @ chars ''`'' @ [0, 92] @ chars ''zxcvbnm,./'' @
     [0] @ chars ''*'' @ [0] @ chars '' '' @ replicate 70 0"

definition scancode_to_ascii_shifted :: "u8 list" where
  "scancode_to_ascii_shifted =
     [0, 27] @ chars ''!@#$%^&*()_+'' @ [8, 9] @ chars ''QWERTYUIOP{}'' @ [10, 0] @
     chars ''ASDFGHJKL:'' @ [34] @ chars ''~'' @ [0] @ chars ''|ZXCVBNM<>?'' @
     [0] @ chars ''*'' @ [0] @ chars '' '' @ replicate 70 0"

record keyboard =
  key_buffer :: "u8 list"
  key_buf_head :: u32
  key_buf_tail :: u32
  extended_prefix :: bool
  shift_held :: bool
  capslock_on :: bool

definition keyboard_boot :: keyboard where
  "keyboard_boot = \<lparr>key_buffer = replicate 256 0, key_buf_head = 0, key_buf_tail = 0,
     extended_prefix = False, shift_held = False, capslock_on = False\<rparr>"

definition key_buffer_push :: "u8 \<Rightarrow> keyboard \<Rightarrow> keyboard" where
  "key_buffer_push c k =
     (let next = (key_buf_head k + 1) mod KEY_BUFFER_SIZE
      in if next = key_buf_tail k then k
         else k\<lparr>key_buffer := (key_buffer k)[unat (key_buf_head k) := c], key_buf_head := next\<rparr>)"

definition key_buffer_pop :: "keyboard \<Rightarrow> u8 \<times> keyboard" where
  "key_buffer_pop k =
     (if key_buf_tail k = key_buf_head k then (0, k)
      else let c = key_buffer k ! unat (key_buf_tail k)
           in (c, k\<lparr>key_buf_tail := (key_buf_tail k + 1) mod KEY_BUFFER_SIZE\<rparr>))"

partial_function (option) ps2_init :: "'d ports \<Rightarrow> 'd \<Rightarrow> 'd option" where
  "ps2_init io d =
     (case inb io PS2_STATUS_PORT d of (status, d) \<Rightarrow>
        if status AND 0x01 \<noteq> 0
        then case inb io PS2_DATA_PORT d of (_, d) \<Rightarrow> ps2_init io d
        else Some d)"

text \<open>\<open>keyboard_handler\<close> after it has read the scan code.\<close>

definition handle_scancode :: "u8 \<Rightarrow> keyboard \<Rightarrow> keyboard" where
  "handle_scancode scancode k =
     (if scancode = SCANCODE_EXTENDED_PREFIX then k\<lparr>extended_prefix := True\<rparr>
      else
        let is_extended = extended_prefix k;
            k = k\<lparr>extended_prefix := False\<rparr>;
            is_release = (scancode AND 0x80 \<noteq> 0);
            code = scancode AND 0x7F
        in
          if is_extended then
            if \<not> is_release then
              if code = SCANCODE_ARROW_UP then key_buffer_push KEY_ARROW_UP k
              else if code = SCANCODE_ARROW_DOWN then key_buffer_push KEY_ARROW_DOWN k
              else k
            else k
          else if code = SCANCODE_LSHIFT \<or> code = SCANCODE_RSHIFT then
            k\<lparr>shift_held := \<not> is_release\<rparr>
          else if code = SCANCODE_CAPSLOCK then
            if \<not> is_release then k\<lparr>capslock_on := \<not> capslock_on k\<rparr> else k
          else if is_release then k
          else
            let base = scancode_to_ascii ! unat code;
                shifted = scancode_to_ascii_shifted ! unat code;
                c = (if 0x61 \<le> base \<and> base \<le> 0x7A
                     then let use_upper = (shift_held k \<noteq> capslock_on k)
                          in if use_upper then shifted else base
                     else if shift_held k then shifted else base)
            in if c \<noteq> 0 then key_buffer_push c k else k)"

definition keyboard_handler :: "'d ports \<Rightarrow> keyboard \<Rightarrow> 'd \<Rightarrow> keyboard \<times> 'd" where
  "keyboard_handler io k d =
     (case inb io PS2_DATA_PORT d of (scancode, d) \<Rightarrow> (handle_scancode scancode k, d))"

section \<open>The ring buffer is a queue\<close>

definition kb_wf :: "keyboard \<Rightarrow> bool" where
  "kb_wf k \<longleftrightarrow> length (key_buffer k) = 256 \<and> unat (key_buf_head k) < 256 \<and> unat (key_buf_tail k) < 256"

text \<open>The waiting characters, oldest first.\<close>

definition waiting :: "keyboard \<Rightarrow> nat" where
  "waiting k = (unat (key_buf_head k) + 256 - unat (key_buf_tail k)) mod 256"

definition queue :: "keyboard \<Rightarrow> u8 list" where
  "queue k = map (\<lambda>i. key_buffer k ! ((unat (key_buf_tail k) + i) mod 256)) [0..<waiting k]"

datatype queue_op = Push u8 | Pop

fun ring_step :: "queue_op \<Rightarrow> keyboard \<Rightarrow> u8 \<times> keyboard" where
  "ring_step (Push c) k = (0, key_buffer_push c k)"
| "ring_step Pop k = key_buffer_pop k"

fun fifo_step :: "queue_op \<Rightarrow> u8 list \<Rightarrow> u8 \<times> u8 list" where
  "fifo_step (Push c) q = (0, if length q < 255 then q @ [c] else q)"
| "fifo_step Pop q = (case q of [] \<Rightarrow> (0, []) | c # q \<Rightarrow> (c, q))"

definition ring_rel :: "keyboard \<Rightarrow> u8 list \<Rightarrow> bool" where
  "ring_rel k q \<longleftrightarrow> kb_wf k \<and> queue k = q"

lemma length_queue [simp]: "length (queue k) = waiting k"
  by (simp add: queue_def)

lemma unat_next_index: "unat x < 256 \<Longrightarrow> unat ((x + 1) mod 256) = (unat x + 1) mod 256" for x :: u32
  by (simp add: unat_word_ariths unat_mod)

lemma waiting_lt: "waiting k < 256"
  by (simp add: waiting_def)

lemma waiting_eq:
  assumes "kb_wf k"
  shows "waiting k =
    (if unat (key_buf_tail k) \<le> unat (key_buf_head k) then unat (key_buf_head k) - unat (key_buf_tail k)
     else unat (key_buf_head k) + 256 - unat (key_buf_tail k))"
proof -
  have "(h + 256 - t) mod 256 = (if t \<le> h then h - t else h + 256 - t)"
    if "h < 256" "t < 256" for h t :: nat
  proof (cases "t \<le> h")
    case True
    then have "h + 256 - t = (h - t) + 256" by simp
    then have "(h + 256 - t) mod 256 = (h - t) mod 256" by (simp only: mod_add_self2)
    with True that show ?thesis by simp
  qed (use that in simp)
  with assms show ?thesis by (simp add: waiting_def kb_wf_def)
qed

lemma next_index_cases:
  "n < 256 \<Longrightarrow> Suc n mod 256 = (if n = 255 then 0 else Suc n)" for n :: nat
  by auto

lemma waiting_0_iff: "kb_wf k \<Longrightarrow> waiting k = 0 \<longleftrightarrow> key_buf_tail k = key_buf_head k"
  by (auto simp: waiting_eq word_unat_eq_iff kb_wf_def split: if_splits)

lemma full_iff:
  "kb_wf k \<Longrightarrow> (key_buf_head k + 1) mod 256 = key_buf_tail k \<longleftrightarrow> waiting k = 255"
  by (auto simp: waiting_eq word_unat_eq_iff kb_wf_def unat_next_index next_index_cases split: if_splits)

lemma push_queue:
  assumes "kb_wf k"
  shows "kb_wf (key_buffer_push c k)"
    and "queue (key_buffer_push c k) = (if waiting k < 255 then queue k @ [c] else queue k)"
proof -
  let ?h = "unat (key_buf_head k)" and ?t = "unat (key_buf_tail k)" and ?n = "waiting k"
  have lt: "?h < 256" "?t < 256" "length (key_buffer k) = 256" using assms by (auto simp: kb_wf_def)
  show "kb_wf (key_buffer_push c k)"
    using assms by (simp add: key_buffer_push_def Let_def kb_wf_def unat_next_index)
  show "queue (key_buffer_push c k) = (if waiting k < 255 then queue k @ [c] else queue k)"
  proof (cases "?n < 255")
    case False
    then have "?n = 255" using waiting_lt [of k] by simp
    then show ?thesis using full_iff [OF assms] by (simp add: key_buffer_push_def)
  next
    case True
    let ?k = "k\<lparr>key_buffer := (key_buffer k)[?h := c], key_buf_head := (key_buf_head k + 1) mod 256\<rparr>"
    have push: "key_buffer_push c k = ?k"
      using True full_iff [OF assms] by (simp add: key_buffer_push_def)
    have wf: "kb_wf ?k" using lt by (simp add: kb_wf_def unat_next_index)
    have w: "waiting ?k = Suc ?n"
      using True lt
      by (auto simp: waiting_eq [OF assms] waiting_eq [OF wf] unat_next_index next_index_cases split: if_splits)
    have at: "(?t + i) mod 256 = ?h \<longleftrightarrow> i = ?n" if "i \<le> ?n" for i
    proof -
      have "(?t + i) mod 256 = (if ?t + i < 256 then ?t + i else ?t + i - 256)"
        using that True lt by (simp add: mod_if)
      with that True lt show ?thesis by (auto simp: waiting_eq [OF assms] split: if_splits)
    qed
    have "queue ?k = map (\<lambda>i. (key_buffer k)[?h := c] ! ((?t + i) mod 256)) [0..<?n] @ [c]"
      using at [of ?n] lt by (simp add: queue_def w)
    also have "map (\<lambda>i. (key_buffer k)[?h := c] ! ((?t + i) mod 256)) [0..<?n] = queue k"
      unfolding queue_def
    proof (rule map_cong [OF refl])
      fix i assume "i \<in> set [0..<?n]"
      then have "(?t + i) mod 256 \<noteq> ?h" using at [of i] by simp
      then show "(key_buffer k)[?h := c] ! ((?t + i) mod 256) = key_buffer k ! ((?t + i) mod 256)"
        by simp
    qed
    finally show ?thesis using True push by simp
  qed
qed

lemma pop_queue:
  assumes "kb_wf k"
  shows "kb_wf (snd (key_buffer_pop k))"
    and "fst (key_buffer_pop k) = (case queue k of [] \<Rightarrow> 0 | c # _ \<Rightarrow> c)"
    and "queue (snd (key_buffer_pop k)) = tl (queue k)"
proof -
  let ?t = "unat (key_buf_tail k)" and ?n = "waiting k"
  have lt: "?t < 256" using assms by (auto simp: kb_wf_def)
  show "kb_wf (snd (key_buffer_pop k))"
    using assms by (simp add: key_buffer_pop_def Let_def kb_wf_def unat_next_index)
  have "fst (key_buffer_pop k) = (case queue k of [] \<Rightarrow> 0 | c # _ \<Rightarrow> c) \<and>
      queue (snd (key_buffer_pop k)) = tl (queue k)"
  proof (cases ?n)
    case 0
    then show ?thesis using waiting_0_iff [OF assms] by (simp add: key_buffer_pop_def queue_def)
  next
    case (Suc n)
    let ?k = "k\<lparr>key_buf_tail := (key_buf_tail k + 1) mod 256\<rparr>"
    have pop: "key_buffer_pop k = (key_buffer k ! ?t, ?k)"
      using Suc waiting_0_iff [OF assms] by (simp add: key_buffer_pop_def)
    have wf: "kb_wf ?k" using assms by (simp add: kb_wf_def unat_next_index)
    have w: "waiting ?k = n"
      using Suc lt assms
      by (auto simp: waiting_eq [OF assms] waiting_eq [OF wf] unat_next_index next_index_cases kb_wf_def
          split: if_splits)
    have "queue k = key_buffer k ! ?t # map (\<lambda>i. key_buffer k ! ((?t + Suc i) mod 256)) [0..<n]"
      using lt by (simp add: queue_def Suc map_upt_Suc del: upt_Suc)
    moreover have "queue ?k = map (\<lambda>i. key_buffer k ! ((?t + Suc i) mod 256)) [0..<n]"
      using lt by (simp add: queue_def w unat_next_index mod_add_left_eq)
    ultimately show ?thesis by (simp add: pop)
  qed
  then show "fst (key_buffer_pop k) = (case queue k of [] \<Rightarrow> 0 | c # _ \<Rightarrow> c)"
    and "queue (snd (key_buffer_pop k)) = tl (queue k)" by blast+
qed

interpretation ring: simulation ring_step fifo_step "\<lambda>_ _. True" ring_rel
proof
  fix k q x assume rel: "ring_rel k q"
  show "fst (ring_step x k) = fst (fifo_step x q)"
    using rel pop_queue(2) [of k] by (cases x) (auto simp: ring_rel_def split: list.splits)
  show "ring_rel (snd (ring_step x k)) (snd (fifo_step x q))"
  proof (cases x)
    case (Push c)
    with rel push_queue [of k c] length_queue [of k] show ?thesis
      by (auto simp: ring_rel_def simp del: length_queue)
  next
    case Pop
    with rel pop_queue [of k] show ?thesis by (auto simp: ring_rel_def split: list.splits)
  qed
qed

section \<open>Interrupts between the steps of a read\<close>

text \<open>
  The three accesses of \<open>key_buffer_pop\<close> to the shared variables - the comparison of the
  indices, the load of the character, the store of the tail index - with keyboard interrupts
  before, between and after them.  \<open>accepted\<close> records the characters the handler put into the
  buffer, \<open>returned\<close> the non-zero results of the calls.
\<close>

datatype pop_pc = Idle | Checked | Loaded u8

record system =
  pc :: pop_pc
  kb :: keyboard
  accepted :: "u8 list"
  returned :: "u8 list"

text \<open>The characters a scan code adds to the queue.\<close>

definition added :: "u8 \<Rightarrow> keyboard \<Rightarrow> u8 list" where
  "added scancode k = drop (waiting k) (queue (handle_scancode scancode k))"

inductive kb_step :: "system \<Rightarrow> system \<Rightarrow> bool" where
  irq: "kb_step s (s\<lparr>kb := handle_scancode scancode (kb s),
                    accepted := accepted s @ added scancode (kb s)\<rparr>)"
| test_empty: "pc s = Idle \<Longrightarrow> key_buf_tail (kb s) = key_buf_head (kb s) \<Longrightarrow> kb_step s s"
| test_nonempty: "pc s = Idle \<Longrightarrow> key_buf_tail (kb s) \<noteq> key_buf_head (kb s) \<Longrightarrow>
    kb_step s (s\<lparr>pc := Checked\<rparr>)"
| load: "pc s = Checked \<Longrightarrow>
    kb_step s (s\<lparr>pc := Loaded (key_buffer (kb s) ! unat (key_buf_tail (kb s)))\<rparr>)"
| store: "pc s = Loaded c \<Longrightarrow>
    kb_step s (s\<lparr>pc := Idle, kb := (kb s)\<lparr>key_buf_tail := (key_buf_tail (kb s) + 1) mod KEY_BUFFER_SIZE\<rparr>,
                returned := returned s @ [c]\<rparr>)"

inductive kb_reach :: "system \<Rightarrow> bool" where
  boot: "kb_reach \<lparr>pc = Idle, kb = keyboard_boot, accepted = [], returned = []\<rparr>"
| step: "kb_reach s \<Longrightarrow> kb_step s s' \<Longrightarrow> kb_reach s'"

definition kb_inv :: "system \<Rightarrow> bool" where
  "kb_inv s \<longleftrightarrow> kb_wf (kb s) \<and> accepted s = returned s @ queue (kb s) \<and>
     (case pc s of Idle \<Rightarrow> True | Checked \<Rightarrow> queue (kb s) \<noteq> []
      | Loaded c \<Rightarrow> queue (kb s) \<noteq> [] \<and> hd (queue (kb s)) = c)"

lemma kb_wf_update [simp]:
  "kb_wf (k\<lparr>extended_prefix := b\<rparr>) = kb_wf k" "kb_wf (k\<lparr>shift_held := b\<rparr>) = kb_wf k"
  "kb_wf (k\<lparr>capslock_on := b\<rparr>) = kb_wf k"
  by (simp_all add: kb_wf_def)

lemma waiting_update [simp]:
  "waiting (k\<lparr>extended_prefix := b\<rparr>) = waiting k" "waiting (k\<lparr>shift_held := b\<rparr>) = waiting k"
  "waiting (k\<lparr>capslock_on := b\<rparr>) = waiting k"
  by (simp_all add: waiting_def)

lemma queue_update [simp]:
  "queue (k\<lparr>extended_prefix := b\<rparr>) = queue k" "queue (k\<lparr>shift_held := b\<rparr>) = queue k"
  "queue (k\<lparr>capslock_on := b\<rparr>) = queue k"
  by (simp_all add: queue_def)

lemma handle_scancode_queue:
  assumes "kb_wf k"
  shows "kb_wf (handle_scancode scancode k)"
    and "\<exists>cs. queue (handle_scancode scancode k) = queue k @ cs"
proof -
  have *: "kb_wf (handle_scancode scancode k) \<and> (\<exists>cs. queue (handle_scancode scancode k) = queue k @ cs)"
    using assms push_queue by (auto simp: handle_scancode_def Let_def)
  then show "kb_wf (handle_scancode scancode k)"
    and "\<exists>cs. queue (handle_scancode scancode k) = queue k @ cs" by blast+
qed

lemma handle_scancode_added:
  "kb_wf k \<Longrightarrow> queue (handle_scancode scancode k) = queue k @ added scancode k"
  using handle_scancode_queue(2) [of k scancode] length_queue [of k]
  by (auto simp: added_def simp del: length_queue)

lemma kb_step_inv:
  assumes "kb_step s s'" and "kb_inv s"
  shows "kb_inv s'"
  using assms
proof cases
  case (irq scancode)
  with assms(2) show ?thesis
    by (auto simp: kb_inv_def handle_scancode_queue(1) handle_scancode_added split: pop_pc.splits)
next
  case test_nonempty
  with assms(2) have "waiting (kb s) \<noteq> 0" by (auto simp: kb_inv_def waiting_0_iff)
  then have "queue (kb s) \<noteq> []" by (simp flip: length_0_conv)
  with assms(2) test_nonempty show ?thesis by (simp add: kb_inv_def)
next
  case load
  with assms(2) have q: "kb_wf (kb s)" "queue (kb s) \<noteq> []" by (auto simp: kb_inv_def)
  then have "waiting (kb s) \<noteq> 0" by (simp flip: length_0_conv add: queue_def)
  with q have "key_buffer_pop (kb s) = (key_buffer (kb s) ! unat (key_buf_tail (kb s)),
      (kb s)\<lparr>key_buf_tail := (key_buf_tail (kb s) + 1) mod 256\<rparr>)"
    by (simp add: key_buffer_pop_def waiting_0_iff)
  with pop_queue(2) [OF q(1)] q(2) have "hd (queue (kb s)) = key_buffer (kb s) ! unat (key_buf_tail (kb s))"
    by (simp split: list.splits)
  with assms(2) load show ?thesis by (simp add: kb_inv_def)
next
  case (store c)
  with assms(2) have q: "kb_wf (kb s)" "queue (kb s) \<noteq> []" "hd (queue (kb s)) = c"
    by (auto simp: kb_inv_def)
  then have "waiting (kb s) \<noteq> 0" by (simp flip: length_0_conv add: queue_def)
  with q have pop: "key_buffer_pop (kb s) = (key_buffer (kb s) ! unat (key_buf_tail (kb s)),
      (kb s)\<lparr>key_buf_tail := (key_buf_tail (kb s) + 1) mod 256\<rparr>)"
    by (simp add: key_buffer_pop_def waiting_0_iff)
  with pop_queue [OF q(1)] q assms(2) store show ?thesis
    by (cases "queue (kb s)") (auto simp: kb_inv_def)
qed (use assms(2) in auto)

lemma kb_boot_inv: "kb_wf keyboard_boot" "queue keyboard_boot = []"
  by (simp_all add: kb_wf_def keyboard_boot_def queue_def waiting_def)

lemma kb_reach_inv: "kb_reach s \<Longrightarrow> kb_inv s"
proof (induction rule: kb_reach.induct)
  case boot
  show ?case by (simp add: kb_inv_def kb_boot_inv)
next
  case (step s s')
  then show ?case by (blast intro: kb_step_inv)
qed

section \<open>Typing\<close>

text \<open>
  A US keyboard, by the IBM scan code set 1: the code of the leftmost character key of each row,
  the characters of the row's keys from left to right, and those with Shift.  (The third row
  ends with the apostrophe and, by its number, the key above Tab; the fourth begins with the
  backslash.)  The driver's tables do not occur in it.
\<close>

definition us_layout :: "(nat \<times> u8 list \<times> u8 list) list" where
  "us_layout =
     [(0x02, chars ''1234567890-='', chars ''!@#$%^&*()_+''),
      (0x10, chars ''qwertyuiop[]'', chars ''QWERTYUIOP{}''),
      (0x1E, chars ''asdfghjkl;'' @ [39, 96], chars ''ASDFGHJKL:'' @ [34, 126]),
      (0x2B, 92 # chars ''zxcvbnm,./'', chars ''|ZXCVBNM<>?''),
      (0x39, chars '' '', chars '' '')]"

fun index_of :: "'a \<Rightarrow> 'a list \<Rightarrow> nat" where
  "index_of x [] = 0"
| "index_of x (y # ys) = (if x = y then 0 else Suc (index_of x ys))"

text \<open>The key of a character and whether it needs Shift.\<close>

fun key_in :: "u8 \<Rightarrow> (nat \<times> u8 list \<times> u8 list) list \<Rightarrow> nat \<times> bool" where
  "key_in c [] = (0, False)"
| "key_in c ((n, plain, shifted) # rows) =
     (if c \<in> set plain then (n + index_of c plain, False)
      else if c \<in> set shifted then (n + index_of c shifted, True)
      else key_in c rows)"

text \<open>The codes of a finger typing \<open>c\<close>: press and release of its key, within those of Shift if needed.\<close>

definition keystrokes :: "u8 \<Rightarrow> u8 list" where
  "keystrokes c =
     (case key_in c us_layout of (n, shift) \<Rightarrow>
        let key = [of_nat n, of_nat n OR 0x80]
        in if shift then [0x2A] @ key @ [0xAA] else key)"

definition printable :: "u8 list" where
  "printable = map of_nat [32..<127]"

definition receive :: "u8 list \<Rightarrow> keyboard \<Rightarrow> keyboard" where
  "receive codes k = fold handle_scancode codes k"

text \<open>
  What a scan code does to the three flags (extended prefix, shift, caps lock), and the
  character it produces, 0 for none.
\<close>

definition decode :: "u8 \<Rightarrow> bool \<times> bool \<times> bool \<Rightarrow> (bool \<times> bool \<times> bool) \<times> u8" where
  "decode scancode m =
     (case m of (e, s, l) \<Rightarrow>
        if scancode = 0xE0 then ((True, s, l), 0)
        else
          let code = scancode AND 0x7F; release = (code \<noteq> scancode)
          in
            if e then ((False, s, l), if release then 0 else if code = 0x48 then 1 else if code = 0x50 then 2 else 0)
            else if code = 0x2A \<or> code = 0x36 then ((False, \<not> release, l), 0)
            else if code = 0x3A then ((False, s, if release then l else \<not> l), 0)
            else if release then ((False, s, l), 0)
            else let base = scancode_to_ascii ! unat code; shifted = scancode_to_ascii_shifted ! unat code
                 in ((False, s, l), if (if 0x61 \<le> base \<and> base \<le> 0x7A then s \<noteq> l else s) then shifted else base))"

fun decode_all :: "u8 list \<Rightarrow> bool \<times> bool \<times> bool \<Rightarrow> (bool \<times> bool \<times> bool) \<times> u8 list" where
  "decode_all [] m = (m, [])"
| "decode_all (s # ss) m =
     (case decode s m of (m, c) \<Rightarrow> case decode_all ss m of (m, cs) \<Rightarrow>
        (m, if c \<noteq> 0 then c # cs else cs))"

definition modifiers :: "keyboard \<Rightarrow> bool \<times> bool \<times> bool" where
  "modifiers k = (extended_prefix k, shift_held k, capslock_on k)"

definition with_modifiers :: "bool \<times> bool \<times> bool \<Rightarrow> keyboard \<Rightarrow> keyboard" where
  "with_modifiers m k =
     (case m of (e, s, l) \<Rightarrow> k\<lparr>extended_prefix := e, shift_held := s, capslock_on := l\<rparr>)"

lemma release_bit: "(scancode AND 0x80 \<noteq> 0) = (scancode AND 0x7F \<noteq> scancode)" for scancode :: u8
proof -
  have "(0x80 :: u8) = 2 ^ 7" "(0x7F :: u8) = mask 7" by (simp_all add: mask_eq_exp_minus_1)
  then have l: "(scancode AND 0x80 \<noteq> 0) = bit scancode 7" and r: "scancode AND 0x7F = take_bit 7 scancode"
    by (simp_all only: and_exp_eq_0_iff_not_bit take_bit_eq_mask not_not)
  have "take_bit 7 scancode = scancode \<longleftrightarrow> \<not> bit scancode 7"
  proof
    assume "take_bit 7 scancode = scancode"
    from arg_cong [OF this, of "\<lambda>w. bit w 7"] show "\<not> bit scancode 7" by (simp add: bit_take_bit_iff)
  next
    assume "\<not> bit scancode 7"
    then show "take_bit 7 scancode = scancode"
      by (intro bit_word_eqI) (auto simp: bit_take_bit_iff less_Suc_eq numeral_eq_Suc)
  qed
  then show ?thesis unfolding l r by blast
qed

lemma handle_scancode_decode:
  "handle_scancode scancode k =
     (case decode scancode (modifiers k) of (m, c) \<Rightarrow>
        if c \<noteq> 0 then key_buffer_push c (with_modifiers m k) else with_modifiers m k)"
proof -
  obtain kbuf h t e s l where k: "k = \<lparr>key_buffer = kbuf, key_buf_head = h, key_buf_tail = t,
      extended_prefix = e, shift_held = s, capslock_on = l\<rparr>" by (cases k)
  define code where "code = scancode AND 0x7F"
  define base where "base = scancode_to_ascii ! unat code"
  define shifted where "shifted = scancode_to_ascii_shifted ! unat code"
  consider "scancode = 0xE0" | "scancode \<noteq> 0xE0" "e" | "scancode \<noteq> 0xE0" "\<not> e" by blast
  then show ?thesis
  proof cases
    case 1
    then show ?thesis by (simp add: k handle_scancode_def decode_def modifiers_def with_modifiers_def)
  next
    case 2
    then show ?thesis
      by (simp add: k handle_scancode_def decode_def modifiers_def with_modifiers_def Let_def release_bit
          flip: code_def)
  next
    case 3
    then show ?thesis
      unfolding handle_scancode_def decode_def modifiers_def with_modifiers_def Let_def release_bit
        code_def [symmetric] base_def [symmetric] shifted_def [symmetric]
      by (auto simp: k)
  qed
qed

lemma push_with_modifiers:
  "key_buffer_push c (with_modifiers m k) = with_modifiers m (key_buffer_push c k)"
  by (cases k) (simp add: key_buffer_push_def with_modifiers_def Let_def split: prod.split)

lemma with_modifiers_simps [simp]:
  "modifiers (with_modifiers m k) = m" "with_modifiers m (with_modifiers m' k) = with_modifiers m k"
  "with_modifiers (modifiers k) k = k"
  by (simp_all add: with_modifiers_def modifiers_def split: prod.split)

lemma modifiers_push [simp]: "modifiers (key_buffer_push c k) = modifiers k"
  by (simp add: key_buffer_push_def modifiers_def Let_def)

lemma receive_decode:
  "receive codes k = (case decode_all codes (modifiers k) of (m, cs) \<Rightarrow>
     with_modifiers m (fold key_buffer_push cs k))"
proof (induction codes arbitrary: k)
  case (Cons s ss)
  have "receive (s # ss) k = receive ss (handle_scancode s k)" by (simp add: receive_def)
  also have "\<dots> = (case decode_all (s # ss) (modifiers k) of (m, cs) \<Rightarrow>
      with_modifiers m (fold key_buffer_push cs k))"
  proof -
    have "fold key_buffer_push cs (with_modifiers m' k') = with_modifiers m' (fold key_buffer_push cs k')"
      for m' cs k' by (induction cs arbitrary: k') (simp_all add: push_with_modifiers)
    then show ?thesis
      by (simp add: Cons handle_scancode_decode split: prod.split)
        (simp add: push_with_modifiers)
  qed
  finally show ?case .
qed (simp add: receive_def)

text \<open>A make code and its break code, as the handler takes them apart.\<close>

lemma make_code:
  assumes "n < 128"
  shows "(of_nat n :: u8) AND 0x7F = of_nat n" and "(of_nat n OR 0x80 :: u8) AND 0x7F = of_nat n"
    and "(of_nat n OR 0x80 :: u8) \<noteq> of_nat n" and "unat (of_nat n :: u8) = n"
proof -
  have e: "(0x80 :: u8) = 2 ^ 7" "(0x7F :: u8) = mask 7" by (simp_all add: mask_eq_exp_minus_1)
  have b: "\<not> bit (of_nat n :: u8) 7"
    unfolding bit_of_nat_iff using assms by (simp add: bit_iff_odd)
  show "(of_nat n :: u8) AND 0x7F = of_nat n"
    unfolding e using b by (intro bit_word_eqI) (auto simp: bit_simps less_Suc_eq numeral_eq_Suc)
  show "(of_nat n OR 0x80 :: u8) AND 0x7F = of_nat n"
    unfolding e using b by (intro bit_word_eqI) (auto simp: bit_simps less_Suc_eq numeral_eq_Suc)
  have "bit (of_nat n OR 0x80 :: u8) 7" unfolding e by (simp add: bit_simps)
  with b show "(of_nat n OR 0x80 :: u8) \<noteq> of_nat n" by metis
  show "unat (of_nat n :: u8) = n" using assms by (simp add: unat_of_nat)
qed

lemma table_length: "length scancode_to_ascii = 128" "length scancode_to_ascii_shifted = 128"
  by (simp_all add: scancode_to_ascii_def scancode_to_ascii_shifted_def)

lemma index_of_nth: "x \<in> set xs \<Longrightarrow> index_of x xs < length xs \<and> xs ! index_of x xs = x"
  by (induction xs) auto

lemma key_in_row:
  "key_in c rows = (n, shift) \<Longrightarrow> (\<exists>m plain shifted. (m, plain, shifted) \<in> set rows \<and> c \<in> set plain \<union> set shifted) \<Longrightarrow>
   \<exists>m plain shifted i. (m, plain, shifted) \<in> set rows \<and> n = m + i \<and>
     (if shift then i < length shifted \<and> shifted ! i = c else i < length plain \<and> plain ! i = c)"
proof (induction rows)
  case (Cons row rows)
  obtain m plain shifted where row: "row = (m, plain, shifted)" by (cases row)
  consider "c \<in> set plain" | "c \<notin> set plain" "c \<in> set shifted" | "c \<notin> set plain" "c \<notin> set shifted"
    by blast
  then show ?case
  proof cases
    case 3
    with Cons.prems have "key_in c rows = (n, shift)"
      "\<exists>m plain shifted. (m, plain, shifted) \<in> set rows \<and> c \<in> set plain \<union> set shifted"
      by (auto simp: row)
    from Cons.IH [OF this] show ?thesis
      by (elim exE conjE) (intro exI conjI, erule list.set_intros(2), assumption+)
  next
    case 1
    with Cons.prems(1) have "n = m + index_of c plain" "\<not> shift" by (simp_all add: row)
    with index_of_nth [OF 1] row show ?thesis
      by (intro exI [of _ m] exI [of _ plain] exI [of _ shifted] exI [of _ "index_of c plain"]) simp
  next
    case 2
    with Cons.prems(1) have "n = m + index_of c shifted" "shift" by (simp_all add: row)
    with index_of_nth [OF 2(2)] row show ?thesis
      by (intro exI [of _ m] exI [of _ plain] exI [of _ shifted] exI [of _ "index_of c shifted"]) simp
  qed
qed simp

text \<open>The driver's tables agree with the layout, row by row, and are unmapped at the special keys.\<close>

lemma table_rows:
  "(m, plain, shifted) \<in> set us_layout \<Longrightarrow> m + length plain \<le> 128 \<and> length shifted = length plain \<and>
     take (length plain) (drop m scancode_to_ascii) = plain \<and>
     take (length plain) (drop m scancode_to_ascii_shifted) = shifted"
  by (auto simp: us_layout_def scancode_to_ascii_def scancode_to_ascii_shifted_def)

lemma table_unmapped:
  "n \<in> {42, 54, 58, 96} \<Longrightarrow> scancode_to_ascii ! n = 0 \<and> scancode_to_ascii_shifted ! n = 0"
  by (auto simp: scancode_to_ascii_def scancode_to_ascii_shifted_def nth_append)

lemma printable_on_layout:
  "c \<in> set printable \<Longrightarrow>
    c \<noteq> 0 \<and> (\<exists>m plain shifted. (m, plain, shifted) \<in> set us_layout \<and> c \<in> set plain \<union> set shifted)"
proof -
  have "[32..<127] = [32..<64] @ [64..<96] @ [96..<127]" by (simp flip: upt_add_eq_append add: upt_rec)
  then have "set printable \<subseteq> (\<Union>row \<in> set us_layout. set (fst (snd row)) \<union> set (snd (snd row))) - {0}"
    by (simp add: printable_def us_layout_def upt_rec)
  moreover assume "c \<in> set printable"
  ultimately have "c \<in> (\<Union>row \<in> set us_layout. set (fst (snd row)) \<union> set (snd (snd row))) - {0}"
    by (rule subsetD)
  then obtain row where "c \<noteq> 0" "row \<in> set us_layout" "c \<in> set (fst (snd row)) \<union> set (snd (snd row))"
    by blast
  then show ?thesis
    by (intro conjI exI [of _ "fst row"] exI [of _ "fst (snd row)"] exI [of _ "snd (snd row)"]) simp_all
qed

lemma tables_follow_layout:
  assumes "c \<in> set printable" and "key_in c us_layout = (n, shift)"
  shows "c \<noteq> 0 \<and> n < 128 \<and> n \<notin> {42, 54, 58, 96} \<and>
    (if shift then scancode_to_ascii_shifted ! n else scancode_to_ascii ! n) = c"
proof -
  have c: "c \<noteq> 0" "\<exists>m plain shifted. (m, plain, shifted) \<in> set us_layout \<and> c \<in> set plain \<union> set shifted"
    using printable_on_layout [OF assms(1)] by blast+
  obtain m plain shifted i where row: "(m, plain, shifted) \<in> set us_layout" "n = m + i"
    "if shift then i < length shifted \<and> shifted ! i = c else i < length plain \<and> plain ! i = c"
    using key_in_row [OF assms(2) c(2)] by blast
  from table_rows [OF row(1)] have t: "m + length plain \<le> 128" "length shifted = length plain"
    "take (length plain) (drop m scancode_to_ascii) = plain"
    "take (length plain) (drop m scancode_to_ascii_shifted) = shifted" by blast+
  have i: "i < length plain" using row(3) t(2) by (simp split: if_splits)
  have at: "T ! n = take (length plain) (drop m T) ! i" if "length T = 128" for T :: "u8 list"
    using i t(1) that by (simp add: row(2))
  have "scancode_to_ascii ! n = plain ! i" "scancode_to_ascii_shifted ! n = shifted ! i"
    by (simp_all only: at [OF table_length(1)] at [OF table_length(2)] t(3,4))
  with row(3) have v: "(if shift then scancode_to_ascii_shifted ! n else scancode_to_ascii ! n) = c"
    by (simp split: if_splits)
  moreover have "n \<notin> {42, 54, 58, 96}" using v c(1) table_unmapped [of n] by (auto split: if_splits)
  ultimately show ?thesis using c(1) i t row(2) by simp
qed

lemma plain_code:
  assumes "n < 128" and "n \<notin> {42, 54, 58, 96}"
  shows "of_nat n \<notin> {0xE0, 0x2A, 0x36, 0x3A :: u8}" and "(of_nat n OR 0x80 :: u8) \<noteq> 0xE0"
proof -
  note u = make_code(4) [OF assms(1)]
  show "of_nat n \<notin> {0xE0, 0x2A, 0x36, 0x3A :: u8}"
    using assms u by (auto dest: arg_cong [of _ _ unat])
  show "(of_nat n OR 0x80 :: u8) \<noteq> 0xE0"
  proof
    assume "(of_nat n OR 0x80 :: u8) = 0xE0"
    then have "(0xE0 :: u8) AND 0x7F = of_nat n" using make_code(2) [OF assms(1)] by simp
    with u assms show False by (auto dest: arg_cong [of _ _ unat])
  qed
qed

lemma decode_plain:
  assumes "n < 128" and "n \<notin> {42, 54, 58, 96}"
  shows "decode (of_nat n) (False, s, False) = ((False, s, False),
      if s then scancode_to_ascii_shifted ! n else scancode_to_ascii ! n)"
    and "decode (of_nat n OR 0x80) (False, s, False) = ((False, s, False), 0)"
  using make_code [OF assms(1)] plain_code [OF assms] by (simp_all add: decode_def Let_def)

lemma printable_types_itself:
  assumes "c \<in> set printable"
  shows "decode_all (keystrokes c) (False, False, False) = ((False, False, False), [c])"
proof -
  obtain n shift where key: "key_in c us_layout = (n, shift)" by fastforce
  have "c \<noteq> 0" "n < 128" "n \<notin> {42, 54, 58, 96}"
    "(if shift then scancode_to_ascii_shifted ! n else scancode_to_ascii ! n) = c"
    using tables_follow_layout [OF assms key] by blast+
  moreover have "decode 0x2A (False, False, False) = ((False, True, False), 0)"
    "decode 0xAA (False, True, False) = ((False, False, False), 0)"
    by (simp_all add: decode_def Let_def)
  ultimately show ?thesis by (cases shift) (simp_all add: keystrokes_def key decode_plain)
qed

lemma decode_all_append:
  "decode_all (xs @ ys) m =
     (case decode_all xs m of (m, cs) \<Rightarrow> case decode_all ys m of (m, cs') \<Rightarrow> (m, cs @ cs'))"
  by (induction xs arbitrary: m) (simp_all split: prod.splits)

lemma decode_typed:
  "set str \<subseteq> set printable \<Longrightarrow>
   decode_all (concat (map keystrokes str)) (False, False, False) = ((False, False, False), str)"
  by (induction str) (simp_all add: decode_all_append printable_types_itself)

lemma push_all_queue:
  "kb_wf k \<Longrightarrow> waiting k + length cs \<le> 255 \<Longrightarrow>
   kb_wf (fold key_buffer_push cs k) \<and> queue (fold key_buffer_push cs k) = queue k @ cs"
proof (induction cs arbitrary: k)
  case (Cons c cs)
  have "waiting (key_buffer_push c k) = Suc (waiting k)"
    using arg_cong [OF push_queue(2) [OF Cons.prems(1), of c], of length] Cons.prems(2) by simp
  with Cons.IH [OF push_queue(1) [OF Cons.prems(1)], of c] Cons.prems push_queue(2) [OF Cons.prems(1), of c]
  show ?case by simp
qed simp

text \<open>Reading \<open>n\<close> characters, as the shell's main loop does.\<close>

fun pop_all :: "nat \<Rightarrow> keyboard \<Rightarrow> u8 list \<times> keyboard" where
  "pop_all 0 k = ([], k)"
| "pop_all (Suc n) k =
     (case key_buffer_pop k of (c, k) \<Rightarrow> case pop_all n k of (cs, k) \<Rightarrow> (c # cs, k))"

lemma pop_all_queue:
  assumes "kb_wf k" and "queue k = q"
  shows "fst (pop_all (length q) k) = q \<and> queue (snd (pop_all (length q) k)) = []"
  using assms
proof (induction q arbitrary: k)
  case (Cons c q)
  note p = pop_queue [OF Cons.prems(1)]
  from p Cons.prems(2) have "queue (snd (key_buffer_pop k)) = q" "fst (key_buffer_pop k) = c" by simp_all
  with Cons.IH [OF p(1)] show ?case by (simp add: split_beta)
qed simp

section \<open>The controller\<close>

text \<open>
  What the driver relies on of the controller: bit 0 of the status tells whether a byte is
  waiting, and reading the data port takes the oldest one.
\<close>

definition ps2_conforms :: "'d ports \<Rightarrow> ('d \<Rightarrow> u8 list) \<Rightarrow> bool" where
  "ps2_conforms io pending \<longleftrightarrow>
     (\<forall>d. (fst (p_inb io PS2_STATUS_PORT d) AND 1 \<noteq> 0 \<longleftrightarrow> pending d \<noteq> []) \<and>
        pending (snd (p_inb io PS2_STATUS_PORT d)) = pending d) \<and>
     (\<forall>d x xs. pending d = x # xs \<longrightarrow>
        fst (p_inb io PS2_DATA_PORT d) = x \<and> pending (snd (p_inb io PS2_DATA_PORT d)) = xs)"

lemma ps2_conformsD:
  assumes "ps2_conforms io pending"
  shows "fst (inb io PS2_STATUS_PORT d) AND 1 \<noteq> 0 \<longleftrightarrow> pending d \<noteq> []"
    and "pending (snd (inb io PS2_STATUS_PORT d)) = pending d"
    and "pending d = x # xs \<Longrightarrow> fst (inb io PS2_DATA_PORT d) = x"
    and "pending d = x # xs \<Longrightarrow> pending (snd (inb io PS2_DATA_PORT d)) = xs"
  using assms unfolding ps2_conforms_def inb_def by (simp_all add: split_beta)

lemma ps2_init_returns:
  assumes io: "ps2_conforms io pending"
  shows "\<exists>d'. ps2_init io d = Some d' \<and> pending d' = []"
proof (induction "length (pending d)" arbitrary: d)
  case 0
  with ps2_conformsD(1,2) [OF io, of d] show ?case
    by (subst ps2_init.simps) (simp add: split_beta)
next
  case (Suc n)
  let ?d = "snd (inb io PS2_STATUS_PORT d)"
  obtain x xs where x: "pending d = x # xs" using Suc.hyps(2) by (cases "pending d") auto
  then have "pending (snd (inb io PS2_DATA_PORT ?d)) = xs"
    using ps2_conformsD(2) [OF io, of d] by (intro ps2_conformsD(4) [OF io]) simp
  with Suc.hyps(1) [of "snd (inb io PS2_DATA_PORT ?d)"] Suc.hyps(2) x ps2_conformsD(1) [OF io, of d]
  show ?case by (subst ps2_init.simps) (simp add: split_beta)
qed

text \<open>One interrupt per pending byte.\<close>

fun interrupts :: "'d ports \<Rightarrow> nat \<Rightarrow> keyboard \<Rightarrow> 'd \<Rightarrow> keyboard \<times> 'd" where
  "interrupts io 0 k d = (k, d)"
| "interrupts io (Suc n) k d = (case keyboard_handler io k d of (k, d) \<Rightarrow> interrupts io n k d)"

lemma interrupts_receive:
  assumes "ps2_conforms io pending" and "pending d = codes"
  shows "fst (interrupts io (length codes) k d) = receive codes k"
  using assms(2)
  by (induction codes arbitrary: k d)
    (simp_all add: receive_def keyboard_handler_def split_beta ps2_conformsD(3,4) [OF assms(1)])

text \<open>A controller that is its list of pending bytes.\<close>

definition demo_ps2 :: "u8 list ports" where
  "demo_ps2 =
     \<lparr>p_inb = (\<lambda>port d. if port = PS2_STATUS_PORT then (if d = [] then 0 else 1, d)
                 else case d of [] \<Rightarrow> (0, []) | x # xs \<Rightarrow> (x, xs)),
      p_outb = (\<lambda>port v d. d), p_inw = (\<lambda>port d. (0, d)), p_outw = (\<lambda>port v d. d)\<rparr>"

lemma demo_ps2_conforms: "ps2_conforms demo_ps2 (\<lambda>d. d)"
  by (simp add: ps2_conforms_def demo_ps2_def)

lemma boot_modifiers: "modifiers keyboard_boot = (False, False, False)"
  by (simp add: modifiers_def keyboard_boot_def)

section \<open>Properties\<close>

text \<open>
  C28.  What is typed is what is read: when a controller delivers, one interrupt each, the scan
  codes of a finger typing a printable text of at most 255 characters on the US layout
  (make and break codes of each character's key, Shift where it needs it) to a keyboard at rest, then popping the buffer yields
  exactly that text, and leaves it empty.
\<close>

theorem typed_text_read_back:
  assumes "ps2_conforms io pending" and "pending d = concat (map keystrokes str)"
    and "set str \<subseteq> set printable" and "length str \<le> 255"
    and "kb_wf k" and "queue k = []" and "modifiers k = (False, False, False)"
  shows "let k' = fst (interrupts io (length (pending d)) k d);
             (read, k'') = pop_all (length str) k'
         in read = str \<and> queue k'' = [] \<and> modifiers k' = (False, False, False)"
proof -
  have "fst (interrupts io (length (pending d)) k d) = receive (concat (map keystrokes str)) k"
    unfolding assms(2) by (rule interrupts_receive [OF assms(1,2)])
  also have "\<dots> = with_modifiers (False, False, False) (fold key_buffer_push str k)"
    using decode_typed [OF assms(3)] by (simp add: receive_decode assms(7))
  finally have k': "fst (interrupts io (length (pending d)) k d)
      = with_modifiers (False, False, False) (fold key_buffer_push str k)" .
  have "waiting k = 0" using assms(6) length_queue [of k] by simp
  then have "kb_wf (fold key_buffer_push str k)" "queue (fold key_buffer_push str k) = str"
    using push_all_queue [OF assms(5), of str] assms(4,6) by simp_all
  then have "kb_wf (with_modifiers (False, False, False) (fold key_buffer_push str k))"
    "queue (with_modifiers (False, False, False) (fold key_buffer_push str k)) = str"
    by (simp_all add: with_modifiers_def)
  from pop_all_queue [OF this] show ?thesis by (simp add: k' Let_def split_beta)
qed

theorem typed_text_read_back_witness:
  "let d = concat (map keystrokes (chars ''cd /Kernel''));
       k' = fst (interrupts demo_ps2 (length d) keyboard_boot d)
   in fst (pop_all (length (chars ''cd /Kernel'')) k') = chars ''cd /Kernel''"
proof -
  have "set (chars ''cd /Kernel'') \<subseteq> set printable"
    unfolding printable_def by (simp add: upt_rec)
  moreover have "length (chars ''cd /Kernel'') \<le> 255" by simp
  ultimately show ?thesis
    using typed_text_read_back [OF demo_ps2_conforms refl _ _ kb_boot_inv boot_modifiers]
    by (simp add: Let_def split_beta del: chars_simps length_chars)
qed

text \<open>
  C29.  The buffer loses, duplicates and reorders nothing, even when keyboard interrupts hit
  between the individual memory accesses of \<open>key_buffer_pop\<close>: in every reachable state the
  characters accepted so far are those returned so far followed by those waiting, at most 255
  wait and both indices are inside the array; a key's character is dropped only when 255
  characters are waiting.
\<close>

theorem key_buffer_lossless:
  assumes "kb_reach s"
  shows "accepted s = returned s @ queue (kb s) \<and> length (queue (kb s)) \<le> 255 \<and>
     unat (key_buf_head (kb s)) < 256 \<and> unat (key_buf_tail (kb s)) < 256 \<and>
     length (key_buffer (kb s)) = 256 \<and>
     (let c = snd (decode scancode (modifiers (kb s)))
      in added scancode (kb s) = (if c \<noteq> 0 \<and> length (queue (kb s)) < 255 then [c] else []))"
proof -
  from kb_reach_inv [OF assms] have inv: "kb_wf (kb s)" "accepted s = returned s @ queue (kb s)"
    by (auto simp: kb_inv_def)
  obtain m c where dec: "decode scancode (modifiers (kb s)) = (m, c)" by fastforce
  have q: "queue (with_modifiers m k) = queue k" "kb_wf (with_modifiers m k) = kb_wf k"
    "waiting (with_modifiers m k) = waiting k" for k
    by (simp_all add: with_modifiers_def split: prod.split)
  have "added scancode (kb s) = (if c \<noteq> 0 \<and> waiting (kb s) < 255 then [c] else [])"
    using push_queue(2) [of "with_modifiers m (kb s)" c] inv(1) length_queue [of "kb s"]
    by (simp add: added_def handle_scancode_decode dec q del: length_queue)
  with inv waiting_lt [of "kb s"] dec show ?thesis by (simp add: kb_wf_def Let_def)
qed

theorem key_buffer_lossless_witness:
  "let s = \<lparr>pc = Idle, kb = keyboard_boot, accepted = [], returned = []\<rparr>
   in accepted s = returned s @ queue (kb s) \<and> added 0x1E (kb s) = [0x61]"
  using key_buffer_lossless [OF kb_reach.boot, where scancode = "0x1E"]
  by (simp add: kb_boot_inv boot_modifiers decode_def scancode_to_ascii_def)

end
