(* ===== verification/Paging.thy ===== *)
theory Paging
  imports Prelude
begin

text \<open>
  Paging (\<^verbatim>\<open>kernel/mm/paging.c\<close>).

  \<^item> The page directory and the page tables are static arrays, so \<open>paging_init\<close> writes
    physical memory, here byte by byte, at the addresses the linker gave them (parameters).
  \<^item> \<open>translate\<close> is the processor's side: the two-level walk of the 32-bit paging mode over
    the same memory.  The theorem is that the map it reads off what the code wrote is the
    identity on the first 128 MB and a page fault everywhere else.
\<close>

section \<open>Words in memory\<close>

definition aligned :: "nat \<Rightarrow> u32 \<Rightarrow> bool" where
  "aligned n a \<longleftrightarrow> n dvd unat a"

section \<open>The code\<close>

abbreviation (input) ENTRIES_PER_TABLE :: u32 where "ENTRIES_PER_TABLE \<equiv> 1024"
abbreviation (input) TABLES_NEEDED :: u32 where "TABLES_NEEDED \<equiv> 128 div 4"
abbreviation (input) PAGE_PRESENT :: u32 where "PAGE_PRESENT \<equiv> 0x1"
abbreviation (input) PAGE_RW :: u32 where "PAGE_RW \<equiv> 0x2"

text \<open>The machine as far as paging goes: physical memory and the two control registers.\<close>

record machine =
  phys :: memory
  cr0 :: u32
  cr3 :: u32

definition enable_paging :: "u32 \<Rightarrow> machine \<Rightarrow> machine" where
  "enable_paging page_directory_phys s =
     (let s = s\<lparr>cr3 := page_directory_phys\<rparr>;
          c = cr0 s;
          c = c OR 0x80000000
      in s\<lparr>cr0 := c\<rparr>)"

text \<open>
  The assignments \<^verbatim>\<open>page_tables[table][entry] = ...\<close> and \<^verbatim>\<open>page_directory[table] = ...\<close> for
  the arrays at \<open>pt\<close> and \<open>pd\<close>.
\<close>

definition set_table_entry :: "u32 \<Rightarrow> nat \<Rightarrow> nat \<Rightarrow> memory \<Rightarrow> memory" where
  "set_table_entry pt table entry m =
     (let ph = (of_nat table * ENTRIES_PER_TABLE + of_nat entry) * 4096
      in write_u32 m (pt + of_nat (table * 4096 + entry * 4)) (ph OR PAGE_PRESENT OR PAGE_RW))"

definition fill_table :: "u32 \<Rightarrow> u32 \<Rightarrow> nat \<Rightarrow> memory \<Rightarrow> memory" where
  "fill_table pt pd table m =
     (let m = fold (set_table_entry pt table) [0..<unat ENTRIES_PER_TABLE] m
      in write_u32 m (pd + of_nat (table * 4)) ((pt + of_nat (table * 4096)) OR PAGE_PRESENT OR PAGE_RW))"

definition paging_init :: "u32 \<Rightarrow> u32 \<Rightarrow> machine \<Rightarrow> machine" where
  "paging_init pt pd s =
     (let m = fold (fill_table pt pd) [0..<unat TABLES_NEEDED] (phys s);
          m = fold (\<lambda>table m. write_u32 m (pd + of_nat (table * 4)) 0)
                [unat TABLES_NEEDED..<unat ENTRIES_PER_TABLE] m
      in enable_paging pd (s\<lparr>phys := m\<rparr>))"

section \<open>The processor's page walk\<close>

text \<open>\<open>None\<close> is a page fault.  \<open>w\<close> asks for write access.\<close>

definition permits :: "bool \<Rightarrow> u32 \<Rightarrow> bool" where
  "permits w entry \<longleftrightarrow> bit entry 0 \<and> (w \<longrightarrow> bit entry 1)"

definition translate :: "machine \<Rightarrow> bool \<Rightarrow> u32 \<Rightarrow> u32 option" where
  "translate s w la =
     (if \<not> bit (cr0 s) 31 then Some la
      else
        let pde = read_u32 (phys s) ((cr3 s AND 0xFFFFF000) + 4 * drop_bit 22 la)
        in if \<not> permits w pde then None
           else
             let pte = read_u32 (phys s) ((pde AND 0xFFFFF000) + 4 * (drop_bit 12 la AND 0x3FF))
             in if \<not> permits w pte then None
                else Some ((pte AND 0xFFFFF000) OR (la AND 0xFFF)))"

section \<open>Reading what was written\<close>

lemma aligned_byte:
  assumes "aligned 4 a" and "k < 4"
  shows "unat (a + of_nat k) = unat a + k" and "x = a + of_nat k \<longleftrightarrow> unat x = unat a + k"
proof -
  have "unat a < 2 ^ 32" using unsigned_less [of a, where ?'a = nat] by simp
  then have "unat a + k < 2 ^ 32" using assms by (auto simp: aligned_def dvd_def)
  then show *: "unat (a + of_nat k) = unat a + k"
    using assms by (simp add: unat_word_ariths unat_of_nat)
  show "x = a + of_nat k \<longleftrightarrow> unat x = unat a + k" unfolding word_unat_eq_iff * ..
qed

lemma read_write_u32:
  assumes "aligned 4 a" and "aligned 4 b"
  shows "read_u32 (write_u32 m a v) b = (if a = b then v else read_u32 m b)"
proof -
  note A = aligned_byte [OF assms(1), of 0] aligned_byte [OF assms(1), of 1]
    aligned_byte [OF assms(1), of 2] aligned_byte [OF assms(1), of 3]
  note B = aligned_byte(1) [OF assms(2), of 0] aligned_byte(1) [OF assms(2), of 1]
    aligned_byte(1) [OF assms(2), of 2] aligned_byte(1) [OF assms(2), of 3]
  obtain i j where ij: "unat a = 4 * i" "unat b = 4 * j" using assms unfolding aligned_def by (elim dvdE) (rule that)
  show ?thesis
  proof (cases "i = j")
    case True
    with ij have "a = b" by (simp add: word_unat_eq_iff)
    then show ?thesis by (simp add: read_u32_def write_u32_def le_simps)
  next
    case False
    have ne: "b + of_nat y \<noteq> a + of_nat x" if "x < 4" "y < 4" for x y
    proof
      assume "b + of_nat y = a + of_nat x"
      then have "4 * j + y = 4 * i + x"
        using aligned_byte(1) [OF assms(1) that(1)] aligned_byte(1) [OF assms(2) that(2)] ij by metis
      with False that show False by presburger
    qed
    show ?thesis
      using False ij ne [of 0 0] ne [of 0 1] ne [of 0 2] ne [of 0 3] ne [of 1 0] ne [of 1 1] ne [of 1 2]
        ne [of 1 3] ne [of 2 0] ne [of 2 1] ne [of 2 2] ne [of 2 3] ne [of 3 0] ne [of 3 1] ne [of 3 2]
        ne [of 3 3]
      by (simp add: read_u32_def write_u32_def)
  qed
qed

lemma fold_write_other:
  assumes "aligned 4 b" and "\<And>i. i \<in> set xs \<Longrightarrow> aligned 4 (f i) \<and> f i \<noteq> b"
  shows "read_u32 (fold (\<lambda>i m. write_u32 m (f i) (g i)) xs m) b = read_u32 m b"
  using assms(2) by (induction xs arbitrary: m) (auto simp: read_write_u32 assms(1))

lemma fold_write_at:
  assumes "\<And>i. i \<in> set xs \<Longrightarrow> aligned 4 (f i)" and "inj_on f (set xs)" and "i \<in> set xs"
  shows "read_u32 (fold (\<lambda>i m. write_u32 m (f i) (g i)) xs m) (f i) = g i"
  using assms
proof (induction xs arbitrary: m)
  case (Cons x xs)
  show ?case
  proof (cases "i \<in> set xs")
    case True
    with Cons show ?thesis by (simp add: inj_on_def)
  next
    case False
    with Cons.prems have i: "i = x" by simp
    have "aligned 4 (f y) \<and> f y \<noteq> f i" if "y \<in> set xs" for y
      using that False Cons.prems by (metis inj_on_def list.set_intros)
    from fold_write_other [OF _ this, of xs _ g "write_u32 m (f x) (g x)"] Cons.prems(1) [of x]
    show ?thesis by (simp add: i read_write_u32)
  qed
qed simp

section \<open>The memory the code leaves\<close>

text \<open>The linker's part: both arrays page-aligned, inside the address space and disjoint.\<close>

definition paging_layout :: "u32 \<Rightarrow> u32 \<Rightarrow> bool" where
  "paging_layout pt pd \<longleftrightarrow>
     aligned 4096 pt \<and> aligned 4096 pd \<and> unat pt + 131072 \<le> 2 ^ 32 \<and> unat pd + 4096 \<le> 2 ^ 32 \<and>
     (unat pd + 4096 \<le> unat pt \<or> unat pt + 131072 \<le> unat pd)"

abbreviation (input) table_at :: "u32 \<Rightarrow> nat \<Rightarrow> nat \<Rightarrow> u32" where
  "table_at pt t e \<equiv> pt + of_nat (t * 4096 + e * 4)"

abbreviation (input) dir_at :: "u32 \<Rightarrow> nat \<Rightarrow> u32" where
  "dir_at pd t \<equiv> pd + of_nat (t * 4)"

definition identity_entry :: "nat \<Rightarrow> u32" where
  "identity_entry k = (of_nat k * 4096) OR PAGE_PRESENT OR PAGE_RW"

definition dir_entry :: "u32 \<Rightarrow> nat \<Rightarrow> u32" where
  "dir_entry pt t = (pt + of_nat (t * 4096)) OR PAGE_PRESENT OR PAGE_RW"

lemma unat_table_at:
  assumes "paging_layout pt pd" and "t < 32" and "e < 1024"
  shows "unat (table_at pt t e) = unat pt + (t * 4096 + e * 4)" and "aligned 4 (table_at pt t e)"
proof -
  have "t * 4096 + e * 4 < 131072" using assms(2,3) by simp
  with assms(1) show u: "unat (table_at pt t e) = unat pt + (t * 4096 + e * 4)"
    by (intro unat_plus_of_nat) (simp add: paging_layout_def)
  have "(4 :: nat) dvd 4096" by simp
  with assms(1) have "4 dvd unat pt" unfolding paging_layout_def aligned_def by (metis dvd_trans)
  then show "aligned 4 (table_at pt t e)" unfolding aligned_def u by simp
qed

lemma unat_dir_at:
  assumes "paging_layout pt pd" and "t < 1024"
  shows "unat (dir_at pd t) = unat pd + t * 4" and "aligned 4 (dir_at pd t)"
proof -
  have "t * 4 < 4096" using assms(2) by simp
  with assms(1) show u: "unat (dir_at pd t) = unat pd + t * 4"
    by (intro unat_plus_of_nat) (simp add: paging_layout_def)
  have "(4 :: nat) dvd 4096" by simp
  with assms(1) have "4 dvd unat pd" unfolding paging_layout_def aligned_def by (metis dvd_trans)
  then show "aligned 4 (dir_at pd t)" unfolding aligned_def u by simp
qed

lemma table_dir_neq:
  assumes "paging_layout pt pd" and "t < 32" and "e < 1024" and "i < 1024"
  shows "table_at pt t e \<noteq> dir_at pd i"
proof
  assume eq: "table_at pt t e = dir_at pd i"
  have "unat pt + (t * 4096 + e * 4) = unat pd + i * 4"
    using arg_cong [OF eq, of unat]
    unfolding unat_table_at(1) [OF assms(1-3)] unat_dir_at(1) [OF assms(1,4)] .
  moreover have "t * 4096 + e * 4 < 131072" "i * 4 < 4096" using assms(2-4) by simp_all
  ultimately show False using assms(1) unfolding paging_layout_def by linarith
qed

lemma table_at_inj:
  assumes "paging_layout pt pd" and "t < 32" "e < 1024" and "t' < 32" "e' < 1024"
    and eq: "table_at pt t e = table_at pt t' e'"
  shows "t = t' \<and> e = e'"
proof -
  have "t * 4096 + e * 4 = t' * 4096 + e' * 4"
    using arg_cong [OF eq, of unat]
    unfolding unat_table_at(1) [OF assms(1-3)] unat_table_at(1) [OF assms(1,4,5)] by simp
  then have "(t * 1024 + e) = (t' * 1024 + e')" by simp
  then have "(t * 1024 + e) div 1024 = (t' * 1024 + e') div 1024"
    "(t * 1024 + e) mod 1024 = (t' * 1024 + e') mod 1024" by simp_all
  with assms show ?thesis by simp
qed

lemma dir_at_inj:
  assumes "paging_layout pt pd" and "i < 1024" "j < 1024" and eq: "dir_at pd i = dir_at pd j"
  shows "i = j"
  using arg_cong [OF eq, of unat]
  unfolding unat_dir_at(1) [OF assms(1,2)] unat_dir_at(1) [OF assms(1,3)] by simp

lemma set_table_entry_eq:
  "set_table_entry pt t = (\<lambda>e m. write_u32 m (table_at pt t e) (identity_entry (t * 1024 + e)))"
  by (auto simp: fun_eq_iff set_table_entry_def identity_entry_def)

lemma fill_table_reads:
  assumes L: "paging_layout pt pd" and t: "t < 32"
  shows "e < 1024 \<Longrightarrow> read_u32 (fill_table pt pd t m) (table_at pt t e) = identity_entry (t * 1024 + e)"
    and "read_u32 (fill_table pt pd t m) (dir_at pd t) = dir_entry pt t"
    and "aligned 4 b \<Longrightarrow> b \<noteq> dir_at pd t \<Longrightarrow> (\<And>e. e < 1024 \<Longrightarrow> b \<noteq> table_at pt t e) \<Longrightarrow>
      read_u32 (fill_table pt pd t m) b = read_u32 m b"
proof -
  have al: "aligned 4 (dir_at pd t)" "\<And>e. e < 1024 \<Longrightarrow> aligned 4 (table_at pt t e)"
    using unat_dir_at(2) [OF L, of t] unat_table_at(2) [OF L t] t by simp_all
  have fill: "fill_table pt pd t m = write_u32
      (fold (\<lambda>e m. write_u32 m (table_at pt t e) (identity_entry (t * 1024 + e))) [0..<1024] m)
      (dir_at pd t) (dir_entry pt t)"
    by (simp add: fill_table_def set_table_entry_eq dir_entry_def del: upt_conv_Cons upt_rec_numeral)
  have inj: "inj_on (table_at pt t) (set [0..<1024])"
    using table_at_inj [OF L t _ t] by (auto simp: inj_on_def)
  show "read_u32 (fill_table pt pd t m) (dir_at pd t) = dir_entry pt t"
    unfolding fill read_write_u32 [OF al(1) al(1)] by simp
  show "read_u32 (fill_table pt pd t m) (table_at pt t e) = identity_entry (t * 1024 + e)"
    if e: "e < 1024" for e
  proof -
    have "read_u32 (fold (\<lambda>e m. write_u32 m (table_at pt t e) (identity_entry (t * 1024 + e))) [0..<1024] m)
        (table_at pt t e) = identity_entry (t * 1024 + e)"
      by (rule fold_write_at [where f = "table_at pt t", OF _ inj]) (use al(2) e in \<open>simp_all del: of_nat_add of_nat_mult\<close>)
    moreover have "dir_at pd t \<noteq> table_at pt t e" using table_dir_neq [OF L t e, of t] t by simp
    ultimately show ?thesis unfolding fill read_write_u32 [OF al(1) al(2) [OF e]] by (simp only: if_False)
  qed
  show "read_u32 (fill_table pt pd t m) b = read_u32 m b"
    if "aligned 4 b" "b \<noteq> dir_at pd t" "\<And>e. e < 1024 \<Longrightarrow> b \<noteq> table_at pt t e" for b
    unfolding fill read_write_u32 [OF al(1) that(1)]
    using that al(2) by (subst fold_write_other) auto
qed

lemma fill_tables_reads:
  assumes L: "paging_layout pt pd" and "n \<le> 32"
  shows "(\<forall>t < n. (\<forall>e < 1024. read_u32 (fold (fill_table pt pd) [0..<n] m) (table_at pt t e) = identity_entry (t * 1024 + e)) \<and>
            read_u32 (fold (fill_table pt pd) [0..<n] m) (dir_at pd t) = dir_entry pt t) \<and>
         (\<forall>b. aligned 4 b \<longrightarrow> (\<forall>t < n. b \<noteq> dir_at pd t \<and> (\<forall>e < 1024. b \<noteq> table_at pt t e)) \<longrightarrow>
            read_u32 (fold (fill_table pt pd) [0..<n] m) b = read_u32 m b)"
  using assms(2)
proof (induction n)
  case (Suc n)
  let ?m = "fold (fill_table pt pd) [0..<n] m"
  have n: "n < 32" using Suc.prems by simp
  have fold: "fold (fill_table pt pd) [0..<Suc n] m = fill_table pt pd n ?m" by simp
  note new = fill_table_reads [OF L n]
  have old: "read_u32 (fill_table pt pd n ?m) (table_at pt t e) = read_u32 ?m (table_at pt t e)"
    if "t < n" "e < 1024" for t e
  proof (rule new(3))
    show "aligned 4 (table_at pt t e)" using unat_table_at(2) [OF L, of t e] that n by simp
    show "table_at pt t e \<noteq> dir_at pd n" using table_dir_neq [OF L, of t e n] that n by simp
    show "table_at pt t e \<noteq> table_at pt n e'" if "e' < 1024" for e'
      using table_at_inj [OF L, of t e n e'] that \<open>t < n\<close> \<open>e < 1024\<close> n by auto
  qed
  have old_dir: "read_u32 (fill_table pt pd n ?m) (dir_at pd t) = read_u32 ?m (dir_at pd t)"
    if "t < n" for t
  proof (rule new(3))
    show "aligned 4 (dir_at pd t)" using unat_dir_at(2) [OF L, of t] that n by simp
    show "dir_at pd t \<noteq> dir_at pd n" using dir_at_inj [OF L, of t n] that n by auto
    show "dir_at pd t \<noteq> table_at pt n e'" if "e' < 1024" for e'
      using table_dir_neq [OF L, of n e' t] that \<open>t < n\<close> n by auto
  qed
  from Suc have IH: "\<And>t e. t < n \<Longrightarrow> e < 1024 \<Longrightarrow> read_u32 ?m (table_at pt t e) = identity_entry (t * 1024 + e)"
    "\<And>t. t < n \<Longrightarrow> read_u32 ?m (dir_at pd t) = dir_entry pt t"
    "\<And>b. aligned 4 b \<Longrightarrow> \<forall>t < n. b \<noteq> dir_at pd t \<and> (\<forall>e < 1024. b \<noteq> table_at pt t e) \<Longrightarrow>
       read_u32 ?m b = read_u32 m b" by simp_all
  have "read_u32 (fill_table pt pd n ?m) b = read_u32 m b"
    if "aligned 4 b" "\<forall>t < Suc n. b \<noteq> dir_at pd t \<and> (\<forall>e < 1024. b \<noteq> table_at pt t e)" for b
  proof -
    have "read_u32 (fill_table pt pd n ?m) b = read_u32 ?m b"
      using that by (intro new(3)) (simp_all only: lessI not_False_eq_True)
    also have "\<dots> = read_u32 m b" using that by (intro IH(3)) (blast intro: less_SucI)+
    finally show ?thesis .
  qed
  moreover have "\<forall>t < Suc n. (\<forall>e < 1024. read_u32 (fill_table pt pd n ?m) (table_at pt t e) = identity_entry (t * 1024 + e)) \<and>
            read_u32 (fill_table pt pd n ?m) (dir_at pd t) = dir_entry pt t"
    using new(1,2) old old_dir IH(1,2) by (auto simp only: less_Suc_eq)
  ultimately show ?case unfolding fold by blast
qed simp

definition paging_memory :: "u32 \<Rightarrow> u32 \<Rightarrow> memory \<Rightarrow> memory" where
  "paging_memory pt pd m =
     fold (\<lambda>t m. write_u32 m (dir_at pd t) 0) [32..<1024] (fold (fill_table pt pd) [0..<32] m)"

lemma paging_init_eq:
  "paging_init pt pd s =
     s\<lparr>phys := paging_memory pt pd (phys s), cr0 := cr0 s OR 0x80000000, cr3 := pd\<rparr>"
  by (simp add: paging_init_def paging_memory_def enable_paging_def Let_def
      del: upt_rec_numeral upt_conv_Cons)

lemma paging_memory_reads:
  assumes L: "paging_layout pt pd"
  shows "t < 32 \<Longrightarrow> e < 1024 \<Longrightarrow>
      read_u32 (paging_memory pt pd m) (table_at pt t e) = identity_entry (t * 1024 + e)"
    and "t < 1024 \<Longrightarrow>
      read_u32 (paging_memory pt pd m) (dir_at pd t) = (if t < 32 then dir_entry pt t else 0)"
    and "aligned 4 b \<Longrightarrow> (\<forall>t < 1024. b \<noteq> dir_at pd t) \<Longrightarrow> (\<forall>t < 32. \<forall>e < 1024. b \<noteq> table_at pt t e) \<Longrightarrow>
      read_u32 (paging_memory pt pd m) b = read_u32 m b"
proof -
  note F = fill_tables_reads [OF L order_refl, of m]
  have other: "read_u32 (paging_memory pt pd m) b = read_u32 (fold (fill_table pt pd) [0..<32] m) b"
    if "aligned 4 b" "\<And>t. 32 \<le> t \<Longrightarrow> t < 1024 \<Longrightarrow> b \<noteq> dir_at pd t" for b
    unfolding paging_memory_def
  proof (rule fold_write_other [OF that(1)])
    fix i assume "i \<in> set [32..<1024 :: nat]"
    then have "32 \<le> i" "i < 1024" by (simp_all only: set_upt atLeastLessThan_iff)
    with unat_dir_at(2) [OF L] that(2) show "aligned 4 (dir_at pd i) \<and> dir_at pd i \<noteq> b" by metis
  qed
  show "read_u32 (paging_memory pt pd m) (table_at pt t e) = identity_entry (t * 1024 + e)"
    if "t < 32" "e < 1024" for t e
    using other [OF unat_table_at(2) [OF L that]] table_dir_neq [OF L that] F that by metis
  show "read_u32 (paging_memory pt pd m) (dir_at pd t) = (if t < 32 then dir_entry pt t else 0)"
    if t: "t < 1024" for t
  proof (cases "t < 32")
    case True
    have "dir_at pd t \<noteq> dir_at pd i" if "32 \<le> i" "i < 1024" for i
      using dir_at_inj [OF L t that(2)] True that by auto
    from other [OF unat_dir_at(2) [OF L t] this] F True show ?thesis by simp
  next
    case False
    have "inj_on (dir_at pd) (set [32..<1024])"
      using dir_at_inj [OF L] by (intro inj_onI) (simp only: set_upt atLeastLessThan_iff)
    then have "read_u32 (paging_memory pt pd m) (dir_at pd t) = 0"
      unfolding paging_memory_def
      by (rule fold_write_at [where f = "dir_at pd" and g = "\<lambda>_. 0", rotated])
        (use t False unat_dir_at(2) [OF L] in \<open>simp_all only: set_upt atLeastLessThan_iff not_less\<close>)
    with False show ?thesis by simp
  qed
  show "read_u32 (paging_memory pt pd m) b = read_u32 m b"
    if "aligned 4 b" "\<forall>t < 1024. b \<noteq> dir_at pd t" "\<forall>t < 32. \<forall>e < 1024. b \<noteq> table_at pt t e" for b
    using other [OF that(1)] that F by simp
qed

section \<open>The walk over that memory\<close>

lemma aligned_4096: "aligned 4096 a \<longleftrightarrow> take_bit 12 a = 0"
  by (simp add: aligned_def word_unat_eq_iff take_bit_eq_mod unat_mod mod_eq_0_iff_dvd)

lemma frame_mask: "a AND 0xFFFFF000 = push_bit 12 (drop_bit 12 a)" for a :: u32
proof -
  have "(0xFFFFF000 :: u32) = NOT (mask 12)" by (simp add: mask_eq_exp_minus_1)
  then have "a AND 0xFFFFF000 = a AND NOT (mask 12)" by (simp only:)
  also have "\<dots> = push_bit 12 (drop_bit 12 a)"
    by (rule bit_word_eqI) (auto simp: bit_and_iff bit_not_iff bit_mask_iff bit_push_bit_iff bit_drop_bit_eq)
  finally show ?thesis .
qed

lemma aligned_frame: "aligned 4096 a \<Longrightarrow> a AND 0xFFFFF000 = a"
  using bits_ident [of 12 a] by (simp add: frame_mask aligned_4096)

text \<open>An entry made of a frame address and the two flags.\<close>

lemma entry_parts:
  assumes "aligned 4096 a"
  shows "(a OR 0x1 OR 0x2) AND 0xFFFFF000 = a" and "permits w (a OR 0x1 OR 0x2)"
proof -
  have t: "take_bit 12 a = 0" using assms by (simp add: aligned_4096)
  have z: "\<not> bit a n" if "n < 12" for n
    using arg_cong [OF t, of "\<lambda>w. bit w n"] that by (simp add: bit_take_bit_iff)
  have "drop_bit 12 (0x1 OR 0x2 :: u32) = 0" by simp
  then have "drop_bit 12 (a OR 0x1 OR 0x2) = drop_bit 12 a" by (simp only: drop_bit_or or.assoc or.right_neutral)
  then show "(a OR 0x1 OR 0x2) AND 0xFFFFF000 = a"
    using aligned_frame [OF assms] by (simp only: frame_mask)
  show "permits w (a OR 0x1 OR 0x2)" by (simp add: permits_def bit_simps bit_1_iff) 
qed

lemma unat_drop_bit: "unat (drop_bit n la) = unat la div 2 ^ n" for la :: u32
proof -
  have "unat (drop_bit n la) = drop_bit n (take_bit 32 (unat la))"
    by (simp only: unsigned_drop_bit_eq len_bit0 len_num1) simp
  moreover have "take_bit 32 (unat la) = unat la"
    using unsigned_less [of la, where ?'a = nat] by (simp add: take_bit_nat_eq_self)
  ultimately show ?thesis by (simp only: drop_bit_eq_div)
qed

lemma drop_bit_of_nat_div: "drop_bit n la = of_nat (unat la div 2 ^ n)" for la :: u32
  by (simp only: flip: unat_drop_bit) simp

lemma walk_indices:
  fixes la :: u32
  shows "drop_bit 22 la = of_nat (unat la div 4194304)"
    and "drop_bit 12 la AND 0x3FF = of_nat (unat la div 4096 mod 1024)"
    and "unat la div 4194304 * 1024 + unat la div 4096 mod 1024 = unat la div 4096"
    and "unat la div 4194304 < 1024"
proof -
  show "drop_bit 22 la = of_nat (unat la div 4194304)" using drop_bit_of_nat_div [of 22 la] by simp
  have "(0x3FF :: u32) = mask 10" by (simp add: mask_eq_exp_minus_1)
  then have "drop_bit 12 la AND 0x3FF = take_bit 10 (drop_bit 12 la)" by (simp only: take_bit_eq_mask)
  also have "\<dots> = of_nat (unat la div 4096 mod 1024)"
    unfolding drop_bit_of_nat_div take_bit_of_nat by (simp add: take_bit_eq_mod)
  finally show "drop_bit 12 la AND 0x3FF = of_nat (unat la div 4096 mod 1024)" .
  have "unat la div 4194304 = unat la div 4096 div 1024" by (simp flip: div_mult2_eq)
  then show "unat la div 4194304 * 1024 + unat la div 4096 mod 1024 = unat la div 4096"
    by simp
  show "unat la div 4194304 < 1024"
    using unsigned_less [of la, where ?'a = nat] by (simp add: div_less_iff_less_mult)
qed

lemma translate_identity:
  assumes L: "paging_layout pt pd"
  shows "translate (paging_init pt pd s) w la = (if unat la < 134217728 then Some la else None)"
proof -
  let ?s = "paging_init pt pd s" and ?m = "paging_memory pt pd (phys s)"
  define t where "t = unat la div 4194304"
  define e where "e = unat la div 4096 mod 1024"
  have te: "t < 1024" "e < 1024" "t * 1024 + e = unat la div 4096"
    using walk_indices(3,4) [of la] by (simp_all add: t_def e_def)
  have ph: "phys ?s = ?m" by (simp add: paging_init_eq)
  have on: "bit (cr0 ?s) 31" by (simp add: paging_init_eq bit_simps)
  have "(cr3 ?s AND 0xFFFFF000) + 4 * drop_bit 22 la = dir_at pd t"
    using L walk_indices(1) [of la]
    by (simp add: paging_init_eq paging_layout_def aligned_frame t_def)
  then have pde: "read_u32 (phys ?s) ((cr3 ?s AND 0xFFFFF000) + 4 * drop_bit 22 la)
      = (if t < 32 then dir_entry pt t else 0)"
    using paging_memory_reads(2) [OF L te(1)] by (simp add: paging_init_eq del: of_nat_mult)
  show ?thesis
  proof (cases "t < 32")
    case False
    then have "\<not> unat la < 134217728" by (simp add: t_def div_less_iff_less_mult not_less)
    with False pde on show ?thesis by (simp add: translate_def permits_def)
  next
    case True
    then have la: "unat la < 134217728" by (simp add: t_def div_less_iff_less_mult)
    have "aligned 4096 (pt + of_nat (t * 4096))"
      using unat_table_at(1) [OF L True, of 0] L
      by (simp add: aligned_def paging_layout_def del: of_nat_mult)
    note d = entry_parts [OF this, folded dir_entry_def]
    have "pt + of_nat (t * 4096) + 4 * (drop_bit 12 la AND 0x3FF) = table_at pt t e"
      by (simp add: walk_indices(2) e_def)
    then have pte: "read_u32 (phys ?s) ((dir_entry pt t AND 0xFFFFF000) + 4 * (drop_bit 12 la AND 0x3FF))
        = identity_entry (unat la div 4096)"
      unfolding d(1) using paging_memory_reads(1) [OF L True te(2), of "phys s"] te(3)
      by (simp only: ph)
    have frame: "of_nat (unat la div 4096) * 4096 = push_bit 12 (drop_bit 12 la)"
      using drop_bit_of_nat_div [of 12 la] by (simp add: push_bit_eq_mult)
    have "aligned 4096 (of_nat (unat la div 4096) * 4096 :: u32)"
      unfolding frame aligned_4096 by (simp add: take_bit_push_bit)
    note i = entry_parts [OF this, folded identity_entry_def]
    have "(0xFFF :: u32) = mask 12" by (simp add: mask_eq_exp_minus_1)
    then have "(push_bit 12 (drop_bit 12 la) OR (la AND 0xFFF)) = la"
      by (simp only: flip: take_bit_eq_mask)
        (rule bit_word_eqI, auto simp: bit_or_iff bit_push_bit_iff bit_drop_bit_eq bit_take_bit_iff)
    with on pde pte True la i d frame show ?thesis
      by (simp add: translate_def)
  qed
qed

section \<open>Properties\<close>

text \<open>
  C31.  After \<open>paging_init\<close> the processor translates every address below 128 MB, for reading
  and writing, to itself, and faults on every other address.  Outside the two arrays no word
  of memory has changed.
\<close>

theorem paging_identity_map:
  assumes "paging_layout pt pd"
  shows "translate (paging_init pt pd s) w la = (if unat la < 134217728 then Some la else None) \<and>
     (aligned 4 b \<and> (unat b < unat pt \<or> unat pt + 131072 \<le> unat b) \<and>
      (unat b < unat pd \<or> unat pd + 4096 \<le> unat b) \<longrightarrow>
      read_u32 (phys (paging_init pt pd s)) b = read_u32 (phys s) b)"
proof (intro conjI impI)
  show "translate (paging_init pt pd s) w la = (if unat la < 134217728 then Some la else None)"
    by (rule translate_identity [OF assms])
  assume b: "aligned 4 b \<and> (unat b < unat pt \<or> unat pt + 131072 \<le> unat b) \<and>
      (unat b < unat pd \<or> unat pd + 4096 \<le> unat b)"
  have "b \<noteq> dir_at pd t" if "t < 1024" for t
    using unat_dir_at(1) [OF assms that] b that by auto
  moreover have "b \<noteq> table_at pt t e" if "t < 32" "e < 1024" for t e
    using unat_table_at(1) [OF assms that] b that by auto
  ultimately show "read_u32 (phys (paging_init pt pd s)) b = read_u32 (phys s) b"
    using paging_memory_reads(3) [OF assms, of b] b by (simp add: paging_init_eq)
qed

theorem paging_identity_map_witness:
  "let s = paging_init 0x110000 0x10F000 \<lparr>phys = (\<lambda>_. 0xAA), cr0 = 0x11, cr3 = 0\<rparr>
   in translate s True 0x7FFFFFF = Some 0x7FFFFFF \<and> translate s False 0x8000000 = None"
proof -
  have "paging_layout 0x110000 0x10F000" by (simp add: paging_layout_def aligned_def)
  note P = paging_identity_map [OF this, where s = "\<lparr>phys = (\<lambda>_. 0xAA), cr0 = 0x11, cr3 = 0\<rparr>"]
  from P [where w = True and la = "0x7FFFFFF"] P [where w = False and la = "0x8000000"]
  show ?thesis by (simp add: Let_def)
qed

end
