(* ===== verification/Interrupts.thy ===== *)
theory Interrupts
  imports Console
begin

text \<open>
  Interrupt set-up: the descriptor table (\<^verbatim>\<open>kernel/idt/idt.c\<close>), the exception report, and
  the remapping of the interrupt controllers (\<^verbatim>\<open>kernel/interrupts/pic.c\<close>).

  \<^item> The addresses of the assembly stubs and of the table are parameters, as the linker
    gives them.
  \<^item> \<open>cpu_gate\<close> and \<open>dispatch\<close> are the processor's side: how it reads an eight-byte gate;
    \<open>pic_write\<close> is the documented initialisation protocol of the two 8259A controllers,
    which a device state is assumed to follow (\<open>pic_conforms\<close>).
\<close>

section \<open>The descriptor table\<close>

record idt_entry =
  base_low :: u16
  selector :: u16
  zero :: u8
  flags :: u8
  base_high :: u16

record idt_ptr =
  limit :: u16
  base :: u32

text \<open>\<open>idtr\<close> is the processor's register that \<^verbatim>\<open>lidt\<close> (in \<open>idt_load\<close>) loads.\<close>

record idt_state =
  idt :: "idt_entry list"
  idtp :: idt_ptr
  idtr :: idt_ptr

definition idt_set_gate :: "nat \<Rightarrow> u32 \<Rightarrow> u16 \<Rightarrow> u8 \<Rightarrow> idt_entry list \<Rightarrow> idt_entry list" where
  "idt_set_gate n handler sel fl T =
     T[n := (T ! n)\<lparr>base_low := ucast (handler AND 0xFFFF), selector := sel, zero := 0, flags := fl,
                    base_high := ucast (drop_bit 16 handler AND 0xFFFF)\<rparr>]"

definition idt_load :: "idt_ptr \<Rightarrow> idt_state \<Rightarrow> idt_state" where
  "idt_load p s = s\<lparr>idtr := p\<rparr>"

definition sizeof_idt_entry :: nat where
  "sizeof_idt_entry = 8"

definition idt_init :: "(nat \<Rightarrow> u32) \<Rightarrow> u32 \<Rightarrow> u32 \<Rightarrow> idt_state \<Rightarrow> idt_state" where
  "idt_init isr_stub_table keyboard_stub idt_addr s =
     (let T = fold (\<lambda>i T. T[i := (T ! i)\<lparr>base_low := 0, base_high := 0, selector := 0, flags := 0, zero := 0\<rparr>])
                [0..<256] (idt s);
          T = fold (\<lambda>i T. idt_set_gate i (isr_stub_table i) 0x08 0x8E T) [0..<32] T;
          T = idt_set_gate 33 keyboard_stub 0x08 0x8E T;
          s = s\<lparr>idt := T\<rparr>;
          s = s\<lparr>idtp := \<lparr>limit = of_nat (256 * sizeof_idt_entry) - 1, base = idt_addr\<rparr>\<rparr>
      in idt_load (idtp s) s)"

section \<open>The exception report\<close>

definition isr_exception_handler :: "'d ports \<Rightarrow> u32 \<Rightarrow> u32 \<Rightarrow> 'd console \<Rightarrow> 'd console control" where
  "isr_exception_handler io vector error_code c =
     (let c = print_text io (chars ''\<newline>Unhandled CPU exception: '') c;
          c = print_uint io vector c;
          c = print_text io (chars '' (error code: '') c;
          c = print_uint io error_code c;
          c = print_text io (chars '')\<newline>System halted.\<newline>'') c
      in Halts c)"

section \<open>The interrupt controllers\<close>

definition pic_remap :: "'d ports \<Rightarrow> 'd \<Rightarrow> 'd" where
  "pic_remap io d =
     (let d = outb io 0x20 0x11 d;
          d = outb io 0xA0 0x11 d;
          d = outb io 0x21 0x20 d;
          d = outb io 0xA1 0x28 d;
          d = outb io 0x21 0x04 d;
          d = outb io 0xA1 0x02 d;
          d = outb io 0x21 0x01 d;
          d = outb io 0xA1 0x01 d;
          d = outb io 0x21 0xFD d;
          d = outb io 0xA1 0xFF d
      in d)"

section \<open>The processor's side\<close>

text \<open>The packed C struct in memory, and the gate the processor reads from its eight bytes.\<close>

definition gate_bytes :: "idt_entry \<Rightarrow> u8 list" where
  "gate_bytes e =
     [byte_of 0 (base_low e), byte_of 1 (base_low e), byte_of 0 (selector e), byte_of 1 (selector e),
      zero e, flags e, byte_of 0 (base_high e), byte_of 1 (base_high e)]"

record gate =
  offset :: u32
  segment :: u16
  is_interrupt_gate :: bool

definition cpu_gate :: "u8 list \<Rightarrow> gate option" where
  "cpu_gate bs =
     (if bit (bs ! 5) 7
      then Some \<lparr>offset = le32 (bs ! 0) (bs ! 1) (bs ! 6) (bs ! 7), segment = ucast (le16 (bs ! 2) (bs ! 3)),
                 is_interrupt_gate = (bs ! 5 AND 0x1F = 0x0E)\<rparr>
      else None)"

text \<open>Dispatching a vector: \<open>None\<close> when it is beyond the limit or its gate is not present.\<close>

definition dispatch :: "idt_state \<Rightarrow> nat \<Rightarrow> gate option" where
  "dispatch s v =
     (if 8 * v + 7 \<le> unat (limit (idtr s)) \<and> v < length (idt s) then cpu_gate (gate_bytes (idt s ! v)) else None)"

text \<open>One 8259A: how many of its initialisation words it still expects, and what they set.\<close>

record pic =
  expected :: nat
  vector_base :: u8
  cascade :: u8
  mode :: u8
  mask_reg :: u8

definition pic_command :: "u8 \<Rightarrow> pic \<Rightarrow> pic" where
  "pic_command v p = (if bit v 4 then p\<lparr>expected := 3, mask_reg := 0\<rparr> else p)"

definition pic_data :: "u8 \<Rightarrow> pic \<Rightarrow> pic" where
  "pic_data v p =
     (if expected p = 3 then p\<lparr>expected := 2, vector_base := v AND 0xF8\<rparr>
      else if expected p = 2 then p\<lparr>expected := 1, cascade := v\<rparr>
      else if expected p = 1 then p\<lparr>expected := 0, mode := v\<rparr>
      else p\<lparr>mask_reg := v\<rparr>)"

definition pic_write :: "u16 \<Rightarrow> u8 \<Rightarrow> pic \<times> pic \<Rightarrow> pic \<times> pic" where
  "pic_write port v ps =
     (case ps of (master, slave) \<Rightarrow>
        if port = 0x20 then (pic_command v master, slave)
        else if port = 0x21 then (pic_data v master, slave)
        else if port = 0xA0 then (master, pic_command v slave)
        else if port = 0xA1 then (master, pic_data v slave)
        else (master, slave))"

definition pic_conforms :: "'d ports \<Rightarrow> ('d \<Rightarrow> pic \<times> pic) \<Rightarrow> bool" where
  "pic_conforms io view \<longleftrightarrow>
     (\<forall>port v d. port \<in> {0x20, 0x21, 0xA0, 0xA1} \<longrightarrow>
        view (p_outb io port v d) = pic_write port v (view d))"

text \<open>The vector an interrupt line raises, if it is let through.\<close>

definition irq_vector :: "pic \<times> pic \<Rightarrow> nat \<Rightarrow> nat option" where
  "irq_vector ps line =
     (case ps of (master, slave) \<Rightarrow>
        if line < 8 then if bit (mask_reg master) line then None else Some (unat (vector_base master) + line)
        else if line < 16 then
          if bit (mask_reg master) 2 \<or> bit (mask_reg slave) (line - 8) then None
          else Some (unat (vector_base slave) + (line - 8))
        else None)"

section \<open>Lemmas\<close>

lemma idt_set_gate_nth:
  "length (idt_set_gate n h sel fl T) = length T"
  "i \<noteq> n \<Longrightarrow> idt_set_gate n h sel fl T ! i = T ! i"
  "n < length T \<Longrightarrow> cpu_gate (gate_bytes (idt_set_gate n h sel 0x8E T ! n)) =
     Some \<lparr>offset = h, segment = sel, is_interrupt_gate = True\<rparr>"
proof -
  show "length (idt_set_gate n h sel fl T) = length T" "i \<noteq> n \<Longrightarrow> idt_set_gate n h sel fl T ! i = T ! i"
    by (simp_all add: idt_set_gate_def)
  have m: "x AND 0xFFFF = take_bit 16 x" for x :: u32
  proof -
    have "(0xFFFF :: u32) = mask 16" by (simp add: mask_eq_exp_minus_1)
    then show ?thesis by (simp only: take_bit_eq_mask)
  qed
  have h: "le32 (byte_of 0 (ucast (h AND 0xFFFF) :: u16)) (byte_of 1 (ucast (h AND 0xFFFF) :: u16))
      (byte_of 0 (ucast (drop_bit 16 h AND 0xFFFF) :: u16)) (byte_of 1 (ucast (drop_bit 16 h AND 0xFFFF) :: u16)) = h"
    unfolding m
    by (rule bit_word_eqI) (auto simp: bit_le32 bit_byte_of bit_ucast_iff bit_take_bit_iff bit_drop_bit_eq)
  have s: "ucast (le16 (byte_of 0 sel) (byte_of 1 sel)) = sel"
    by (rule bit_word_eqI) (auto simp: bit_le16 bit_byte_of bit_ucast_iff)
  show "n < length T \<Longrightarrow> cpu_gate (gate_bytes (idt_set_gate n h sel 0x8E T ! n)) =
     Some \<lparr>offset = h, segment = sel, is_interrupt_gate = True\<rparr>"
    using h s by (simp add: idt_set_gate_def cpu_gate_def gate_bytes_def)
qed

text \<open>The two loops: the table as a list, entry by entry.\<close>

lemma clear_loop:
  fixes T :: "idt_entry list"
  shows "length (fold (\<lambda>i T. T[i := (T ! i)\<lparr>base_low := 0, base_high := 0, selector := 0, flags := 0, zero := 0\<rparr>]) xs T)
     = length T"
    and "i \<in> set xs \<Longrightarrow> i < length T \<Longrightarrow>
   flags (fold (\<lambda>i T. T[i := (T ! i)\<lparr>base_low := 0, base_high := 0, selector := 0, flags := 0, zero := 0\<rparr>]) xs T ! i) = 0"
proof -
  let ?f = "\<lambda>i T. T[i := (T ! i)\<lparr>base_low := 0, base_high := 0, selector := 0, flags := 0, zero := 0\<rparr>]"
  show "length (fold ?f xs T) = length T" by (induction xs arbitrary: T) simp_all
  have keep: "flags (T ! i) = 0 \<Longrightarrow> i < length T \<Longrightarrow> flags (fold ?f xs T ! i) = 0" for xs and T :: "idt_entry list"
  proof (induction xs arbitrary: T)
    case (Cons x xs)
    then show ?case by (cases "x = i") simp_all
  qed simp
  show "i \<in> set xs \<Longrightarrow> i < length T \<Longrightarrow> flags (fold ?f xs T ! i) = 0"
    by (induction xs arbitrary: T) (auto simp: keep)
qed

lemma gates_loop:
  "length (fold (\<lambda>i T. idt_set_gate i (f i) sel 0x8E T) [0..<n] T) = length T"
  "n \<le> length T \<Longrightarrow> v < n \<Longrightarrow>
    cpu_gate (gate_bytes (fold (\<lambda>i T. idt_set_gate i (f i) sel 0x8E T) [0..<n] T ! v)) =
      Some \<lparr>offset = f v, segment = sel, is_interrupt_gate = True\<rparr>"
  "n \<le> v \<Longrightarrow> fold (\<lambda>i T. idt_set_gate i (f i) sel 0x8E T) [0..<n] T ! v = T ! v"
proof -
  let ?F = "\<lambda>n. fold (\<lambda>i T. idt_set_gate i (f i) sel 0x8E T) [0..<n] T"
  show len: "length (?F n) = length T" for n by (induction n) (simp_all add: idt_set_gate_nth)
  show "n \<le> length T \<Longrightarrow> v < n \<Longrightarrow> cpu_gate (gate_bytes (?F n ! v)) =
      Some \<lparr>offset = f v, segment = sel, is_interrupt_gate = True\<rparr>"
  proof (induction n)
    case (Suc n)
    then show ?case by (cases "v = n") (simp_all add: idt_set_gate_nth len)
  qed simp
  show "n \<le> v \<Longrightarrow> ?F n ! v = T ! v" by (induction n) (simp_all add: idt_set_gate_nth)
qed

lemma idt_init_dispatch:
  assumes "length (idt s) = 256"
  shows "dispatch (idt_init isrs kbd addr s) v =
    (if v < 32 then Some \<lparr>offset = isrs v, segment = 0x08, is_interrupt_gate = True\<rparr>
     else if v = 33 then Some \<lparr>offset = kbd, segment = 0x08, is_interrupt_gate = True\<rparr>
     else None)"
proof -
  define T0 where "T0 = fold (\<lambda>i T. T[i := (T ! i)\<lparr>base_low := 0, base_high := 0, selector := 0, flags := 0, zero := 0\<rparr>])
      [0..<256] (idt s)"
  define T1 where "T1 = fold (\<lambda>i T. idt_set_gate i (isrs i) 0x08 0x8E T) [0..<32] T0"
  have l: "length T0 = 256" "length T1 = 256"
    using assms by (simp_all only: T0_def T1_def clear_loop(1) gates_loop(1))
  have init: "idt_init isrs kbd addr s = s\<lparr>idt := idt_set_gate 33 kbd 0x08 0x8E T1,
      idtp := \<lparr>limit = 2047, base = addr\<rparr>, idtr := \<lparr>limit = 2047, base = addr\<rparr>\<rparr>"
    unfolding idt_init_def idt_load_def Let_def T0_def [symmetric] T1_def [symmetric]
    by (simp add: sizeof_idt_entry_def)
  have cleared: "cpu_gate (gate_bytes (T0 ! v)) = None" if "v < 256" for v
    using clear_loop(2) [of v "[0..<256]" "idt s"] assms that
    by (simp only: T0_def [symmetric] set_upt atLeastLessThan_iff le0 simp_thms)
      (simp add: cpu_gate_def gate_bytes_def)
  show ?thesis
  proof (cases "v < 256")
    case False
    then show ?thesis by (simp add: dispatch_def init)
  next
    case True
    then have "dispatch (idt_init isrs kbd addr s) v = cpu_gate (gate_bytes (idt_set_gate 33 kbd 0x08 0x8E T1 ! v))"
      by (simp add: dispatch_def init idt_set_gate_nth(1) l)
    moreover have "cpu_gate (gate_bytes (T1 ! v)) =
        (if v < 32 then Some \<lparr>offset = isrs v, segment = 0x08, is_interrupt_gate = True\<rparr> else None)"
      unfolding T1_def using gates_loop(2) [of 32 T0 v] gates_loop(3) [of 32 v] cleared [OF True] l by simp
    ultimately show ?thesis
      using idt_set_gate_nth(2) [of v 33] idt_set_gate_nth(3) [of 33 T1] l by (cases "v = 33") simp_all
  qed
qed

lemma pic_remap_view:
  assumes "pic_conforms io view"
  shows "view (pic_remap io d) =
    (\<lparr>expected = 0, vector_base = 0x20, cascade = 0x04, mode = 0x01, mask_reg = 0xFD\<rparr>,
     \<lparr>expected = 0, vector_base = 0x28, cascade = 0x02, mode = 0x01, mask_reg = 0xFF\<rparr>)"
proof -
  obtain m s where v: "view d = (m, s)" by fastforce
  have "view (pic_remap io d) = fold (\<lambda>(port, v). pic_write port v)
      [(0x20, 0x11), (0xA0, 0x11), (0x21, 0x20), (0xA1, 0x28), (0x21, 0x04), (0xA1, 0x02),
       (0x21, 0x01), (0xA1, 0x01), (0x21, 0xFD), (0xA1, 0xFF)] (view d)"
    using assms by (simp add: pic_remap_def Let_def outb_def pic_conforms_def)
  then show ?thesis
    by (cases m; cases s) (simp add: v pic_write_def pic_command_def pic_data_def)
qed

section \<open>Properties\<close>

lemma interrupts_wired:
  assumes "pic_conforms io view" and "length (idt s) = 256"
    and "s' = idt_init isr_stubs kbd_stub idt_addr s" and "pics = view (pic_remap io d)"
  shows "dispatch s' v =
      (if v < 32 then Some \<lparr>offset = isr_stubs v, segment = 0x08, is_interrupt_gate = True\<rparr>
       else if v = 33 then Some \<lparr>offset = kbd_stub, segment = 0x08, is_interrupt_gate = True\<rparr>
       else None) \<and>
    base (idtr s') = idt_addr \<and>
    irq_vector pics line = (if line = 1 then Some 33 else None) \<and>
    unat (vector_base (fst pics)) = 32 \<and> unat (vector_base (snd pics)) = 40"
proof -
  have "base (idtr s') = idt_addr"
    by (simp add: assms(3) idt_init_def idt_load_def Let_def del: upt_rec_numeral upt_conv_Cons)
  moreover have "irq_vector pics line = (if line = 1 then Some 33 else None)"
  proof (cases "line < 8")
    case True
    then have "line \<in> {0, 1, 2, 3, 4, 5, 6, 7}" by auto
    then show ?thesis by (auto simp: assms(4) irq_vector_def pic_remap_view [OF assms(1)])
  next
    case False
    then show ?thesis by (simp add: assms(4) irq_vector_def pic_remap_view [OF assms(1)])
  qed
  ultimately show ?thesis
    using idt_init_dispatch [OF assms(2)] pic_remap_view [OF assms(1)] by (simp add: assms(3,4))
qed

text \<open>
  C32.  After \<open>pic_remap\<close> and \<open>idt_init\<close> every interrupt that can occur reaches its handler:
  each exception vector below 32 enters its own stub, the keyboard line is the only one let
  through and raises vector 33, whose gate is the keyboard stub, all as interrupt gates in the
  kernel's code segment; every other vector is not present, and no line is mapped onto an
  exception vector.
\<close>

theorem interrupts_reach_handlers:
  assumes "pic_conforms io view" and "length (idt s) = 256"
    and "s' = idt_init isr_stubs kbd_stub idt_addr s" and "pics = view (pic_remap io d)"
  shows "dispatch s' v =
      (if v < 32 then Some \<lparr>offset = isr_stubs v, segment = 0x08, is_interrupt_gate = True\<rparr>
       else if v = 33 then Some \<lparr>offset = kbd_stub, segment = 0x08, is_interrupt_gate = True\<rparr>
       else None) \<and>
    base (idtr s') = idt_addr \<and>
    irq_vector pics line = (if line = 1 then Some 33 else None) \<and>
    unat (vector_base (fst pics)) = 32 \<and> unat (vector_base (snd pics)) = 40"
  by (rule interrupts_wired [OF assms])

text \<open>Two controllers that are nothing but their registers.\<close>

definition demo_pics :: "(pic \<times> pic) ports" where
  "demo_pics = \<lparr>p_inb = (\<lambda>port d. (0, d)), p_outb = pic_write,
      p_inw = (\<lambda>port d. (0, d)), p_outw = (\<lambda>port v d. d)\<rparr>"

definition demo_idt :: idt_state where
  "demo_idt = \<lparr>idt = replicate 256 \<lparr>base_low = 1, selector = 2, zero = 3, flags = 0x8E, base_high = 4\<rparr>,
     idtp = \<lparr>limit = 0, base = 0\<rparr>, idtr = \<lparr>limit = 0, base = 0\<rparr>\<rparr>"

theorem interrupts_reach_handlers_witness:
  "let s' = idt_init (\<lambda>i. 0x100000 + of_nat i) 0x100200 0x105000 demo_idt;
       pic0 = \<lparr>expected = 0, vector_base = 8, cascade = 0, mode = 0, mask_reg = 0\<rparr>;
       pics = pic_remap demo_pics (pic0, pic0)
   in dispatch s' 14 = Some \<lparr>offset = 0x10000E, segment = 0x08, is_interrupt_gate = True\<rparr> \<and>
      irq_vector pics 1 = Some 33"
proof -
  have io: "pic_conforms demo_pics (\<lambda>d. d)" by (simp add: pic_conforms_def demo_pics_def)
  have len: "length (idt demo_idt) = 256" by (simp add: demo_idt_def)
  show ?thesis
    using interrupts_reach_handlers [OF io len refl refl, where v = 14 and line = 1] by (simp add: Let_def)
qed

text \<open>
  C33.  An unhandled exception halts the machine, with a report on the screen that names its
  vector and error code: the screen shows the roll with exactly that text added.
\<close>

theorem exception_reported:
  assumes "shows_roll c r"
  shows "\<exists>c'. isr_exception_handler io vector error_code c = Halts c' \<and>
     shows_roll c' (roll_text (chars ''\<newline>Unhandled CPU exception: '' @ decimal (unat vector) @
       chars '' (error code: '' @ decimal (unat error_code) @ chars '')\<newline>System halted.\<newline>'') r)"
proof -
  have nz: "0 \<notin> set (decimal n)" for n using decimal_digits [of 0 n] by auto
  have c: "0 \<notin> set (chars ''\<newline>Unhandled CPU exception: '')" "0 \<notin> set (chars '' (error code: '')"
    by simp_all
  show ?thesis
    unfolding isr_exception_handler_def Let_def print_uint_text
    by (rule exI, rule conjI [OF refl])
      (simp only: roll_text_append nz c simp_thms, intro print_text_shows(1) assms)
qed

theorem exception_reported_witness:
  "\<exists>c'. isr_exception_handler demo_vga 13 0 (clear_screen demo_vga BLACK demo_console) = Halts c' \<and>
     shows_roll c' (roll_text (chars ''\<newline>Unhandled CPU exception: '' @ decimal 13 @
       chars '' (error code: '' @ decimal 0 @ chars '')\<newline>System halted.\<newline>'') (fresh_roll 0x20))"
  using exception_reported [OF demo_shows, of demo_vga 13 0] by (simp del: chars_simps)

end
