(* ===== verification/Elf.thy ===== *)
theory Elf
  imports Prelude
begin

text \<open>
  The ELF32 loader (\<^verbatim>\<open>kernel/elf/elf32.c\<close>).

  \<^item> The image is a region of byte-addressed memory, the same memory the segments are copied
    to, so the model shows the aliasing: header fields are read through the pointer each time
    the code reads them, also after bytes have been stored.
  \<^item> The specification \<open>spec_load\<close> works on the image as a list of bytes; the loader refines
    it whenever no segment overlaps the image.
\<close>

section \<open>The headers\<close>

text \<open>The fields of \<^verbatim>\<open>elf32_ehdr_t\<close> (52 bytes, packed) at address \<open>eh\<close>.\<close>

definition sizeof_ehdr :: u32 where "sizeof_ehdr = 52"

definition e_ident :: "memory \<Rightarrow> u32 \<Rightarrow> u32 \<Rightarrow> u8" where "e_ident m eh k = m (eh + k)"
definition e_type :: "memory \<Rightarrow> u32 \<Rightarrow> u16" where "e_type m eh = read_u16 m (eh + 16)"
definition e_machine :: "memory \<Rightarrow> u32 \<Rightarrow> u16" where "e_machine m eh = read_u16 m (eh + 18)"
definition e_entry :: "memory \<Rightarrow> u32 \<Rightarrow> u32" where "e_entry m eh = read_u32 m (eh + 24)"
definition e_phoff :: "memory \<Rightarrow> u32 \<Rightarrow> u32" where "e_phoff m eh = read_u32 m (eh + 28)"
definition e_phentsize :: "memory \<Rightarrow> u32 \<Rightarrow> u16" where "e_phentsize m eh = read_u16 m (eh + 42)"
definition e_phnum :: "memory \<Rightarrow> u32 \<Rightarrow> u16" where "e_phnum m eh = read_u16 m (eh + 44)"

text \<open>The fields of \<^verbatim>\<open>elf32_phdr_t\<close> (32 bytes, packed) at address \<open>ph\<close>.\<close>

definition p_type :: "memory \<Rightarrow> u32 \<Rightarrow> u32" where "p_type m ph = read_u32 m ph"
definition p_offset :: "memory \<Rightarrow> u32 \<Rightarrow> u32" where "p_offset m ph = read_u32 m (ph + 4)"
definition p_vaddr :: "memory \<Rightarrow> u32 \<Rightarrow> u32" where "p_vaddr m ph = read_u32 m (ph + 8)"
definition p_filesz :: "memory \<Rightarrow> u32 \<Rightarrow> u32" where "p_filesz m ph = read_u32 m (ph + 16)"
definition p_memsz :: "memory \<Rightarrow> u32 \<Rightarrow> u32" where "p_memsz m ph = read_u32 m (ph + 20)"

abbreviation (input) ELFCLASS32 :: u8 where "ELFCLASS32 \<equiv> 1"
abbreviation (input) ELFDATA2LSB :: u8 where "ELFDATA2LSB \<equiv> 1"
abbreviation (input) ET_EXEC :: u16 where "ET_EXEC \<equiv> 2"
abbreviation (input) EM_386 :: u16 where "EM_386 \<equiv> 3"
abbreviation (input) PT_LOAD :: u32 where "PT_LOAD \<equiv> 1"

section \<open>The loader\<close>

function copy_bytes :: "u32 \<Rightarrow> u32 \<Rightarrow> u32 \<Rightarrow> u32 \<Rightarrow> memory \<Rightarrow> memory" where
  "copy_bytes ph dest src b m =
     (if b < p_filesz m ph then copy_bytes ph dest src (b + 1) (m(dest + b := m (src + b))) else m)"
  by pat_completeness auto
termination
  by (relation "measure (\<lambda>(ph, dest, src, b, m). 2 ^ 32 - unat b)")
    (auto dest: word_countdown)

function zero_bytes :: "u32 \<Rightarrow> u32 \<Rightarrow> u32 \<Rightarrow> memory \<Rightarrow> memory" where
  "zero_bytes ph dest b m =
     (if b < p_memsz m ph then zero_bytes ph dest (b + 1) (m(dest + b := 0)) else m)"
  by pat_completeness auto
termination
  by (relation "measure (\<lambda>(ph, dest, b, m). 2 ^ 32 - unat b)")
    (auto dest: word_countdown)

declare copy_bytes.simps [simp del] zero_bytes.simps [simp del]

text \<open>The program header loop; the result is \<open>False\<close> where the code returns 0.\<close>

function load_segments :: "u32 \<Rightarrow> u32 \<Rightarrow> u16 \<Rightarrow> memory \<Rightarrow> bool \<times> memory" where
  "load_segments img image_size i m =
     (let eh = img in
      if i < e_phnum m eh then
        let ph = img + e_phoff m eh + ucast i * ucast (e_phentsize m eh) in
        if p_type m ph \<noteq> PT_LOAD then load_segments img image_size (i + 1) m
        else if p_offset m ph > image_size \<or> p_filesz m ph > image_size - p_offset m ph then (False, m)
        else if p_memsz m ph < p_filesz m ph then (False, m)
        else
          let dest = p_vaddr m ph;
              src = img + p_offset m ph;
              m = copy_bytes ph dest src 0 m;
              m = zero_bytes ph dest (p_filesz m ph) m
          in load_segments img image_size (i + 1) m
      else (True, m))"
  by pat_completeness auto
termination
  by (relation "measure (\<lambda>(img, image_size, i, m). 2 ^ 16 - unat i)")
    (auto dest: word_countdown)

declare load_segments.simps [simp del]

definition elf32_load :: "u32 \<Rightarrow> u32 \<Rightarrow> u32 \<Rightarrow> memory \<Rightarrow> bool \<times> memory" where
  "elf32_load img image_size out_entry m =
     (if img = 0 \<or> out_entry = 0 then (False, m)
      else if image_size < sizeof_ehdr then (False, m)
      else
        let eh = img in
        if e_ident m eh 0 \<noteq> 0x7F \<or> e_ident m eh 1 \<noteq> of_char CHR ''E'' \<or>
           e_ident m eh 2 \<noteq> of_char CHR ''L'' \<or> e_ident m eh 3 \<noteq> of_char CHR ''F'' then (False, m)
        else if e_ident m eh 4 \<noteq> ELFCLASS32 then (False, m)
        else if e_ident m eh 5 \<noteq> ELFDATA2LSB then (False, m)
        else if e_type m eh \<noteq> ET_EXEC then (False, m)
        else if e_machine m eh \<noteq> EM_386 then (False, m)
        else if e_phnum m eh = 0 then (False, m)
        else
          let phtable_size = ucast (e_phentsize m eh) * ucast (e_phnum m eh) in
          if e_phoff m eh > image_size \<or> phtable_size > image_size - e_phoff m eh then (False, m)
          else case load_segments img image_size 0 m of (ok, m) \<Rightarrow>
            if \<not> ok then (False, m)
            else (True, write_u32 m out_entry (e_entry m eh)))"

text \<open>
  The program behind the entry point is not the kernel's: a parameter that may return with the
  memory changed, or never.  \<open>entry_at\<close> is the address of the local variable \<open>entry\<close>.
\<close>

definition elf32_run :: "(u32 \<Rightarrow> memory \<Rightarrow> memory option) \<Rightarrow> u32 \<Rightarrow> memory \<Rightarrow> memory option" where
  "elf32_run program entry m = program entry m"

definition elf32_load_and_run ::
    "(u32 \<Rightarrow> memory \<Rightarrow> memory option) \<Rightarrow> u32 \<Rightarrow> u32 \<Rightarrow> u32 \<Rightarrow> memory \<Rightarrow> (bool \<times> memory) option" where
  "elf32_load_and_run program entry_at img image_size m =
     (case elf32_load img image_size entry_at m of (ok, m) \<Rightarrow>
        if \<not> ok then Some (False, m)
        else do {
          m \<leftarrow> elf32_run program (read_u32 m entry_at) m;
          Some (True, m)
        })"

section \<open>What loading means\<close>

text \<open>The same headers in an image given as a list of bytes.\<close>

definition u16_at :: "u8 list \<Rightarrow> nat \<Rightarrow> u16" where
  "u16_at bs k = ucast (le16 (bs ! k) (bs ! (k + 1)))"

definition u32_at :: "u8 list \<Rightarrow> nat \<Rightarrow> u32" where
  "u32_at bs k = le32 (bs ! k) (bs ! (k + 1)) (bs ! (k + 2)) (bs ! (k + 3))"

record segment =
  s_type :: u32
  s_offset :: u32
  s_vaddr :: u32
  s_filesz :: u32
  s_memsz :: u32

definition segment_at :: "u8 list \<Rightarrow> nat \<Rightarrow> segment" where
  "segment_at bs k =
     \<lparr>s_type = u32_at bs k, s_offset = u32_at bs (k + 4), s_vaddr = u32_at bs (k + 8),
      s_filesz = u32_at bs (k + 16), s_memsz = u32_at bs (k + 20)\<rparr>"

definition segments :: "u8 list \<Rightarrow> segment list" where
  "segments bs =
     map (\<lambda>i. segment_at bs (unat (u32_at bs 28) + i * unat (u16_at bs 42))) [0..<unat (u16_at bs 44)]"

definition header_ok :: "u8 list \<Rightarrow> bool" where
  "header_ok bs \<longleftrightarrow>
     52 \<le> length bs \<and> take 4 bs = 0x7F # chars ''ELF'' \<and> bs ! 4 = 1 \<and> bs ! 5 = 1 \<and>
     u16_at bs 16 = 2 \<and> u16_at bs 18 = 3 \<and> u16_at bs 44 \<noteq> 0 \<and>
     unat (u32_at bs 28) + unat (u16_at bs 42) * unat (u16_at bs 44) \<le> length bs"

definition segment_ok :: "nat \<Rightarrow> segment \<Rightarrow> bool" where
  "segment_ok n s \<longleftrightarrow> unat (s_offset s) + unat (s_filesz s) \<le> n \<and> s_filesz s \<le> s_memsz s"

text \<open>The file's bytes at the segment's addresses, then zeros up to its size in memory.\<close>

definition place :: "u8 list \<Rightarrow> segment \<Rightarrow> memory \<Rightarrow> memory" where
  "place bs s m =
     (\<lambda>x. let k = unat (x - s_vaddr s)
          in if k < unat (s_filesz s) then bs ! (unat (s_offset s) + k)
             else if k < unat (s_memsz s) then 0 else m x)"

fun spec_segments :: "u8 list \<Rightarrow> segment list \<Rightarrow> memory \<Rightarrow> bool \<times> memory" where
  "spec_segments bs [] m = (True, m)"
| "spec_segments bs (s # ss) m =
     (if s_type s \<noteq> 1 then spec_segments bs ss m
      else if \<not> segment_ok (length bs) s then (False, m)
      else spec_segments bs ss (place bs s m))"

definition spec_load :: "u8 list \<Rightarrow> u32 \<Rightarrow> memory \<Rightarrow> bool \<times> memory" where
  "spec_load bs out_entry m =
     (if \<not> header_ok bs then (False, m)
      else case spec_segments bs (segments bs) m of (ok, m) \<Rightarrow>
        if ok then (True, write_u32 m out_entry (u32_at bs 24)) else (False, m))"

text \<open>The segment's addresses lie outside the \<open>n\<close> bytes at \<open>img\<close>.\<close>

definition apart :: "u32 \<Rightarrow> nat \<Rightarrow> segment \<Rightarrow> bool" where
  "apart img n s \<longleftrightarrow> (\<forall>x. unat (x - s_vaddr s) < unat (s_memsz s) \<longrightarrow> n \<le> unat (x - img))"

definition holds :: "memory \<Rightarrow> u32 \<Rightarrow> u8 list \<Rightarrow> bool" where
  "holds m img bs \<longleftrightarrow> (\<forall>k < length bs. m (img + of_nat k) = bs ! k)"

definition image_bytes :: "memory \<Rightarrow> u32 \<Rightarrow> u32 \<Rightarrow> u8 list" where
  "image_bytes m img n = map (\<lambda>k. m (img + of_nat k)) [0..<unat n]"

section \<open>Reading the image\<close>

lemma holds_read:
  assumes "holds m img bs"
  shows "k < length bs \<Longrightarrow> m (img + of_nat k) = bs ! k"
    and "k + 2 \<le> length bs \<Longrightarrow> read_u16 m (img + of_nat k) = u16_at bs k"
    and "k + 4 \<le> length bs \<Longrightarrow> read_u32 m (img + of_nat k) = u32_at bs k"
proof -
  show *: "k < length bs \<Longrightarrow> m (img + of_nat k) = bs ! k" for k
    using assms by (simp add: holds_def)
  from *[of k] *[of "k + 1"] *[of "k + 2"] *[of "k + 3"]
  show "k + 2 \<le> length bs \<Longrightarrow> read_u16 m (img + of_nat k) = u16_at bs k"
    and "k + 4 \<le> length bs \<Longrightarrow> read_u32 m (img + of_nat k) = u32_at bs k"
    by (simp_all add: read_u16_def read_u32_def u16_at_def u32_at_def ac_simps)
qed

lemma holds_image_bytes: "holds m img (image_bytes m img n)"
  by (simp add: holds_def image_bytes_def)

lemma length_image_bytes [simp]: "length (image_bytes m img n) = unat n"
  by (simp add: image_bytes_def)

lemma holds_store:
  assumes "holds m img bs" and "length bs \<le> unat (a - img)" and "length bs \<le> 2 ^ 32"
  shows "holds (m(a := v)) img bs"
proof -
  have "img + of_nat k \<noteq> a" if "k < length bs" for k
  proof
    assume "img + of_nat k = a"
    then have "a - img = of_nat k" by auto
    with assms that show False by (simp add: unat_of_nat)
  qed
  with assms(1) show ?thesis by (simp add: holds_def)
qed

lemma holds_unchanged:
  assumes "holds m img bs" and "\<And>x. unat (x - img) < length bs \<Longrightarrow> m' x = m x" and "length bs \<le> 2 ^ 32"
  shows "holds m' img bs"
  using assms by (auto simp: holds_def unat_of_nat)

section \<open>The two byte loops\<close>

lemma copy_bytes_apart:
  assumes "holds m img bs" and "length bs \<le> 2 ^ 32"
    and stable: "\<And>m. holds m img bs \<Longrightarrow> p_filesz m ph = fz"
    and off: "off + unat fz \<le> length bs"
    and apart: "\<And>b. b < fz \<Longrightarrow> length bs \<le> unat (dest + b - img)"
  shows "copy_bytes ph dest (img + of_nat off) b m =
    (\<lambda>x. if unat b \<le> unat (x - dest) \<and> x - dest < fz then bs ! (off + unat (x - dest)) else m x)"
  using assms(1)
proof (induction "unat fz - unat b" arbitrary: b m)
  case 0
  then have "\<not> b < fz" "\<not> (unat b \<le> unat k \<and> k < fz)" for k by (auto simp: word_less_nat_alt)
  with stable [OF 0(2)] show ?case by (subst copy_bytes.simps) (auto simp: fun_eq_iff)
next
  case (Suc n)
  from Suc.hyps(2) have b: "b < fz" by (simp add: word_less_nat_alt)
  have ub: "unat (b + 1) = Suc (unat b)" by (rule unat_Suc_below [OF b])
  let ?m = "m(dest + b := m (img + of_nat off + b))"
  have eq: "img + of_nat off + b = img + of_nat (off + unat b)" by simp
  have v: "m (img + of_nat off + b) = bs ! (off + unat b)"
    unfolding eq using off b by (intro holds_read(1) [OF Suc.prems]) (simp add: word_less_nat_alt)
  have "holds ?m img bs" by (rule holds_store [OF Suc.prems apart [OF b] assms(2)])
  with Suc.hyps(1) [of "b + 1" ?m] Suc.hyps(2) ub
  have "copy_bytes ph dest (img + of_nat off) (b + 1) ?m =
      (\<lambda>x. if unat (b + 1) \<le> unat (x - dest) \<and> x - dest < fz then bs ! (off + unat (x - dest)) else ?m x)"
    by simp
  also have "\<dots> = (\<lambda>x. if unat b \<le> unat (x - dest) \<and> x - dest < fz then bs ! (off + unat (x - dest)) else m x)"
  proof
    fix x
    show "(if unat (b + 1) \<le> unat (x - dest) \<and> x - dest < fz then bs ! (off + unat (x - dest)) else ?m x)
        = (if unat b \<le> unat (x - dest) \<and> x - dest < fz then bs ! (off + unat (x - dest)) else m x)"
    proof (cases "x = dest + b")
      case True
      then show ?thesis using b v ub by simp
    next
      case False
      then have "unat (x - dest) \<noteq> unat b" by (auto simp flip: word_unat_eq_iff)
      with False ub show ?thesis by auto
    qed
  qed
  finally show ?case using stable [OF Suc.prems] b by (subst copy_bytes.simps) simp
qed

lemma zero_bytes_apart:
  assumes "holds m img bs" and "length bs \<le> 2 ^ 32"
    and stable: "\<And>m. holds m img bs \<Longrightarrow> p_memsz m ph = mz"
    and apart: "\<And>b. b < mz \<Longrightarrow> length bs \<le> unat (dest + b - img)"
  shows "zero_bytes ph dest b m =
    (\<lambda>x. if unat b \<le> unat (x - dest) \<and> x - dest < mz then 0 else m x)"
  using assms(1)
proof (induction "unat mz - unat b" arbitrary: b m)
  case 0
  then have "\<not> b < mz" "\<not> (unat b \<le> unat k \<and> k < mz)" for k by (auto simp: word_less_nat_alt)
  with stable [OF 0(2)] show ?case by (subst zero_bytes.simps) (auto simp: fun_eq_iff)
next
  case (Suc n)
  from Suc.hyps(2) have b: "b < mz" by (simp add: word_less_nat_alt)
  have ub: "unat (b + 1) = Suc (unat b)" by (rule unat_Suc_below [OF b])
  let ?m = "m(dest + b := 0)"
  have "holds ?m img bs" by (rule holds_store [OF Suc.prems apart [OF b] assms(2)])
  with Suc.hyps(1) [of "b + 1" ?m] Suc.hyps(2) ub
  have "zero_bytes ph dest (b + 1) ?m =
      (\<lambda>x. if unat (b + 1) \<le> unat (x - dest) \<and> x - dest < mz then 0 else ?m x)" by simp
  also have "\<dots> = (\<lambda>x. if unat b \<le> unat (x - dest) \<and> x - dest < mz then 0 else m x)"
  proof
    fix x
    show "(if unat (b + 1) \<le> unat (x - dest) \<and> x - dest < mz then 0 else ?m x)
        = (if unat b \<le> unat (x - dest) \<and> x - dest < mz then 0 else m x)"
    proof (cases "x = dest + b")
      case False
      then have "unat (x - dest) \<noteq> unat b" by (auto simp flip: word_unat_eq_iff)
      with False ub show ?thesis by auto
    qed (use b in simp)
  qed
  finally show ?case using stable [OF Suc.prems] b by (subst zero_bytes.simps) simp
qed

section \<open>The program header loop\<close>

lemma word_sum_of_nat:
  "x + ucast i * ucast k = (of_nat (unat x + unat i * unat k) :: u32)" for i k :: u16
  by simp

text \<open>One header inside the image, as the code reads it.\<close>

lemma segment_read:
  assumes "holds m img bs" and "k + 32 \<le> length bs"
  shows "p_type m (img + of_nat k) = s_type (segment_at bs k)"
    and "p_offset m (img + of_nat k) = s_offset (segment_at bs k)"
    and "p_vaddr m (img + of_nat k) = s_vaddr (segment_at bs k)"
    and "p_filesz m (img + of_nat k) = s_filesz (segment_at bs k)"
    and "p_memsz m (img + of_nat k) = s_memsz (segment_at bs k)"
  using holds_read(3) [OF assms(1), of k] holds_read(3) [OF assms(1), of "k + 4"]
    holds_read(3) [OF assms(1), of "k + 8"] holds_read(3) [OF assms(1), of "k + 16"]
    holds_read(3) [OF assms(1), of "k + 20"] assms(2)
  by (simp_all add: p_type_def p_offset_def p_vaddr_def p_filesz_def p_memsz_def segment_at_def ac_simps)

lemma segment_loops:
  assumes "holds m img bs" and "length bs \<le> 2 ^ 32" and "k + 32 \<le> length bs"
    and "s = segment_at bs k" and "segment_ok (length bs) s" and "apart img (length bs) s"
  shows "zero_bytes (img + of_nat k) (s_vaddr s) (s_filesz s)
           (copy_bytes (img + of_nat k) (s_vaddr s) (img + s_offset s) 0 m) = place bs s m"
    and "holds (place bs s m) img bs"
    and "holds (copy_bytes (img + of_nat k) (s_vaddr s) (img + s_offset s) 0 m) img bs"
proof -
  have le: "unat (s_offset s) + unat (s_filesz s) \<le> length bs" "unat (s_filesz s) \<le> unat (s_memsz s)"
    using assms(5) by (auto simp: segment_ok_def word_le_nat_alt)
  have out: "length bs \<le> unat (s_vaddr s + b - img)" if "b < s_memsz s" for b
    using assms(6) that by (simp add: apart_def word_less_nat_alt)
  then have outf: "length bs \<le> unat (s_vaddr s + b - img)" if "b < s_filesz s" for b
    using that le(2) by (simp add: word_less_nat_alt)
  let ?c = "copy_bytes (img + of_nat k) (s_vaddr s) (img + s_offset s) 0 m"
  have c: "?c = (\<lambda>x. if x - s_vaddr s < s_filesz s then bs ! (unat (s_offset s) + unat (x - s_vaddr s)) else m x)"
    using copy_bytes_apart [OF assms(1,2) _ le(1) outf, of "img + of_nat k" 0] segment_read(4) [OF _ assms(3)]
      assms(4) by simp
  have x: "unat (x - img) < length bs \<Longrightarrow> \<not> x - s_vaddr s < s_memsz s" for x
    using out [of "x - s_vaddr s"] by fastforce
  then have xf: "unat (x - img) < length bs \<Longrightarrow> \<not> x - s_vaddr s < s_filesz s" for x
    using le(2) by (fastforce simp: word_less_nat_alt)
  show hc: "holds ?c img bs"
    by (rule holds_unchanged [OF assms(1) _ assms(2)]) (simp add: c xf)
  have "zero_bytes (img + of_nat k) (s_vaddr s) (s_filesz s) ?c =
      (\<lambda>x. if unat (s_filesz s) \<le> unat (x - s_vaddr s) \<and> x - s_vaddr s < s_memsz s then 0 else ?c x)"
    using zero_bytes_apart [OF hc assms(2) _ out, of "img + of_nat k"] segment_read(5) [OF _ assms(3)]
      assms(4) by simp
  also have "\<dots> = place bs s m"
    using le by (auto simp: c place_def Let_def word_less_nat_alt fun_eq_iff)
  finally show "zero_bytes (img + of_nat k) (s_vaddr s) (s_filesz s) ?c = place bs s m" .
  show "holds (place bs s m) img bs"
    by (rule holds_unchanged [OF assms(1) _ assms(2)])
      (use x xf in \<open>simp add: place_def Let_def word_less_nat_alt\<close>)
qed

lemma segment_ok_code:
  assumes "length bs = unat n"
  shows "\<not> (s_offset s > n \<or> s_filesz s > n - s_offset s) \<and> \<not> s_memsz s < s_filesz s \<longleftrightarrow>
    segment_ok (length bs) s"
proof (cases "s_offset s > n")
  case False
  then have "unat (n - s_offset s) = unat n - unat (s_offset s)"
    by (simp add: unat_sub not_less)
  with False show ?thesis
    unfolding segment_ok_def assms by (auto simp: word_less_nat_alt word_le_nat_alt not_less)
next
  case True
  then show ?thesis by (auto simp: segment_ok_def assms word_less_nat_alt)
qed

lemma load_segments_refines:
  assumes "holds m img bs" and n: "length bs = unat n" and phnum: "u16_at bs 44 = num"
    and ent: "32 \<le> unat (u16_at bs 42)"
    and tab: "unat (u32_at bs 28) + unat (u16_at bs 42) * unat num \<le> length bs" and "52 \<le> length bs"
    and apart: "\<And>i. i < unat num \<Longrightarrow> s_type (segment_at bs (unat (u32_at bs 28) + i * unat (u16_at bs 42))) = 1 \<Longrightarrow>
       apart img (length bs) (segment_at bs (unat (u32_at bs 28) + i * unat (u16_at bs 42)))"
  shows "load_segments img n i m =
      spec_segments bs (map (\<lambda>i. segment_at bs (unat (u32_at bs 28) + i * unat (u16_at bs 42))) [unat i..<unat num]) m"
    and "holds (snd (load_segments img n i m)) img bs"
proof -
  let ?k = "\<lambda>i. unat (u32_at bs 28) + i * unat (u16_at bs 42)"
  have len: "length bs \<le> 2 ^ 32" using n unsigned_less [of n, where ?'a = nat] by simp
  have "load_segments img n i m = spec_segments bs (map (\<lambda>i. segment_at bs (?k i)) [unat i..<unat num]) m \<and>
      holds (snd (load_segments img n i m)) img bs"
    using assms(1)
  proof (induction "unat num - unat i" arbitrary: i m)
    case 0
    note H = holds_read [OF 0(2)]
    have "e_phnum m img = num" using H(2) [of 44] assms(6) phnum by (simp add: e_phnum_def)
    with 0 show ?case by (subst (1 2) load_segments.simps) (simp add: word_less_nat_alt)
  next
    case (Suc d)
    note H = holds_read [OF Suc.prems]
    from Suc.hyps(2) have i: "i < num" by (simp add: word_less_nat_alt)
    have ui: "unat (i + 1) = Suc (unat i)" by (rule unat_Suc_below [OF i])
    have fields: "e_phnum m img = num" "e_phoff m img = u32_at bs 28" "e_phentsize m img = u16_at bs 42"
      using H(2) [of 44] H(3) [of 28] H(2) [of 42] assms(6) phnum
      by (simp_all add: e_phnum_def e_phoff_def e_phentsize_def)
    let ?s = "segment_at bs (?k (unat i))"
    have "Suc (unat i) * unat (u16_at bs 42) \<le> unat num * unat (u16_at bs 42)"
      using i by (intro mult_le_mono1) (simp add: word_less_nat_alt)
    then have "unat (u16_at bs 42) + unat i * unat (u16_at bs 42) \<le> unat (u16_at bs 42) * unat num"
      by (simp only: mult_Suc mult.commute [of "unat num"])
    then have k: "?k (unat i) + 32 \<le> length bs" using tab ent by linarith
    have ph: "img + u32_at bs 28 + ucast i * ucast (u16_at bs 42) = img + of_nat (?k (unat i))"
      using word_sum_of_nat [of "u32_at bs 28" i "u16_at bs 42"] by (simp only: add.assoc)
    note R = segment_read [OF Suc.prems k]
    have ups: "map (\<lambda>i. segment_at bs (?k i)) [unat i..<unat num]
        = ?s # map (\<lambda>i. segment_at bs (?k i)) [unat (i + 1)..<unat num]"
      using i by (simp add: ui upt_conv_Cons word_less_nat_alt)
    have IH: "load_segments img n (i + 1) m' =
        spec_segments bs (map (\<lambda>i. segment_at bs (?k i)) [unat (i + 1)..<unat num]) m' \<and>
        holds (snd (load_segments img n (i + 1) m')) img bs" if "holds m' img bs" for m'
      by (rule Suc.hyps(1) [OF _ that]) (use Suc.hyps(2) ui in simp)
    consider "s_type ?s \<noteq> 1" | "s_type ?s = 1" "\<not> segment_ok (length bs) ?s"
      | "s_type ?s = 1" "segment_ok (length bs) ?s" by blast
    then show ?case
    proof cases
      case 1
      then have "load_segments img n i m = load_segments img n (i + 1) m"
        by (subst load_segments.simps) (simp add: fields i ph R Let_def del: of_nat_add of_nat_mult)
      then show ?thesis
        unfolding ups using 1 IH [OF Suc.prems, THEN conjunct1] IH [OF Suc.prems, THEN conjunct2]
        by (intro conjI) (simp, simp only:)
    next
      case 2
      then have "load_segments img n i m = (False, m)"
        using segment_ok_code [OF n, of ?s]
        by (subst load_segments.simps) (auto simp add: fields i ph R Let_def simp del: of_nat_add of_nat_mult)
      with 2 Suc.prems show ?thesis unfolding ups by simp
    next
      case 3
      note A = segment_loops [OF Suc.prems len k refl 3(2) apart [OF _ 3(1)]]
      have i': "unat i < unat num" using i by (simp add: word_less_nat_alt)
      have "load_segments img n i m = load_segments img n (i + 1) (place bs ?s m)"
        using 3 segment_ok_code [OF n, of ?s] A [OF i'] segment_read(4) [OF A(3) [OF i'] k]
        by (subst load_segments.simps) (simp add: fields i ph R Let_def del: of_nat_add of_nat_mult)
      then show ?thesis
        unfolding ups using 3 IH [OF A(2) [OF i'], THEN conjunct1] IH [OF A(2) [OF i'], THEN conjunct2]
        by (intro conjI) (simp, simp only:)
    qed
  qed
  then show "load_segments img n i m =
      spec_segments bs (map (\<lambda>i. segment_at bs (?k i)) [unat i..<unat num]) m"
    and "holds (snd (load_segments img n i m)) img bs" by blast+
qed

section \<open>The header checks\<close>

lemma header_ok_code:
  assumes "holds m img bs" and "length bs = unat n" and "52 \<le> unat n"
  shows "header_ok bs \<longleftrightarrow>
     \<not> (e_ident m img 0 \<noteq> 0x7F \<or> e_ident m img 1 \<noteq> of_char CHR ''E'' \<or>
        e_ident m img 2 \<noteq> of_char CHR ''L'' \<or> e_ident m img 3 \<noteq> of_char CHR ''F'') \<and>
     e_ident m img 4 = ELFCLASS32 \<and> e_ident m img 5 = ELFDATA2LSB \<and> e_type m img = ET_EXEC \<and>
     e_machine m img = EM_386 \<and> e_phnum m img \<noteq> 0 \<and>
     \<not> (e_phoff m img > n \<or>
        ucast (e_phentsize m img) * ucast (e_phnum m img) > n - e_phoff m img)"
proof -
  note H = holds_read [OF assms(1)]
  have id: "e_ident m img 0 = bs ! 0" "e_ident m img 1 = bs ! 1" "e_ident m img 2 = bs ! 2"
    "e_ident m img 3 = bs ! 3" "e_ident m img 4 = bs ! 4" "e_ident m img 5 = bs ! 5"
    using H(1) [of 0] H(1) [of 1] H(1) [of 2] H(1) [of 3] H(1) [of 4] H(1) [of 5] assms(2,3)
    by (simp_all add: e_ident_def)
  have f: "e_type m img = u16_at bs 16" "e_machine m img = u16_at bs 18" "e_phnum m img = u16_at bs 44"
    "e_phoff m img = u32_at bs 28" "e_phentsize m img = u16_at bs 42"
    using H(2) [of 16] H(2) [of 18] H(2) [of 44] H(3) [of 28] H(2) [of 42] assms(2,3)
    by (simp_all add: e_type_def e_machine_def e_phnum_def e_phoff_def e_phentsize_def)
  have take: "take 4 bs = [bs ! 0, bs ! 1, bs ! 2, bs ! 3]"
    using assms(2,3) by (intro nth_equalityI) (auto simp: less_Suc_eq numeral_eq_Suc)
  have prod: "unat (ucast a * ucast b :: u32) = unat a * unat b" for a b :: u16
  proof -
    have "unat a * unat b \<le> 65535 * 65535"
      using unsigned_less [of a, where ?'a = nat] unsigned_less [of b, where ?'a = nat]
      by (intro mult_le_mono) simp_all
    then show ?thesis by (simp add: unat_word_ariths unat_ucast_widen)
  qed
  have tab: "\<not> (o' > n \<or> ucast a * ucast b > n - o') \<longleftrightarrow> unat o' + unat a * unat b \<le> unat n"
    for o' :: u32 and a b :: u16
  proof (cases "o' > n")
    case False
    then have "unat (n - o') = unat n - unat o'" by (simp add: unat_sub not_less)
    with False show ?thesis by (auto simp: word_less_nat_alt prod not_less)
  qed (auto simp: word_less_nat_alt)
  show ?thesis
    unfolding header_ok_def id f take tab assms(2) using assms(3) by auto
qed

lemma elf32_load_refines:
  assumes "img \<noteq> 0" and "out_entry \<noteq> 0" and bs: "bs = image_bytes m img n"
    and ent: "header_ok bs \<Longrightarrow> 32 \<le> unat (u16_at bs 42)"
    and apart: "\<And>s. s \<in> set (segments bs) \<Longrightarrow> s_type s = 1 \<Longrightarrow> apart img (unat n) s"
  shows "elf32_load img n out_entry m = spec_load bs out_entry m"
proof (cases "52 \<le> unat n")
  case False
  then show ?thesis
    by (simp add: elf32_load_def spec_load_def header_ok_def sizeof_ehdr_def bs word_less_nat_alt)
next
  case True
  have h: "holds m img bs" and len: "length bs = unat n" by (simp_all add: bs holds_image_bytes)
  note ok = header_ok_code [OF h len True]
  have small: "\<not> n < sizeof_ehdr" using True by (simp add: sizeof_ehdr_def word_less_nat_alt)
  show ?thesis
  proof (cases "header_ok bs")
    case False
    then show ?thesis unfolding elf32_load_def spec_load_def using ok assms(1,2) small by (auto simp: Let_def)
  next
    case hok: True
    then have "unat (u32_at bs 28) + unat (u16_at bs 42) * unat (u16_at bs 44) \<le> length bs"
      by (simp add: header_ok_def)
    note L = load_segments_refines [OF h len refl ent [OF hok] this, of 0]
    have ap: "apart img (length bs) (segment_at bs (unat (u32_at bs 28) + i * unat (u16_at bs 42)))"
      if "i < unat (u16_at bs 44)" "s_type (segment_at bs (unat (u32_at bs 28) + i * unat (u16_at bs 42))) = 1" for i
      using that by (intro apart [unfolded len [symmetric]]) (auto simp: segments_def)
    have load: "load_segments img n 0 m = spec_segments bs (segments bs) m"
      and hold: "holds (snd (load_segments img n 0 m)) img bs"
      using L ap True len by (simp_all add: segments_def)
    have "e_entry (snd (load_segments img n 0 m)) img = u32_at bs 24"
      using holds_read(3) [OF hold, of 24] True len by (simp add: e_entry_def)
    then show ?thesis
      unfolding elf32_load_def spec_load_def using ok assms(1,2) small hok load
      by (simp add: Let_def split_beta)
  qed
qed

section \<open>Concrete images\<close>

text \<open>Memory holding \<open>bs\<close> at \<open>img\<close> and \<open>fill\<close> elsewhere.\<close>

definition mem_of :: "u32 \<Rightarrow> u8 list \<Rightarrow> u8 \<Rightarrow> memory" where
  "mem_of img bs fill = (\<lambda>x. if unat (x - img) < length bs then bs ! unat (x - img) else fill)"

lemma image_bytes_mem_of:
  assumes "unat n \<le> length bs"
  shows "image_bytes (mem_of img bs fill) img n = take (unat n) bs"
proof (intro nth_equalityI)
  fix i assume "i < length (image_bytes (mem_of img bs fill) img n)"
  then have i: "i < unat n" by simp
  then have "unat (of_nat i :: u32) = i"
    using unsigned_less [of n, where ?'a = nat] by (simp add: unat_of_nat)
  with i assms show "image_bytes (mem_of img bs fill) img n ! i = take (unat n) bs ! i"
    by (simp add: image_bytes_def mem_of_def)
qed (use assms in simp)

text \<open>
  An executable with one segment: four bytes of code at \<^verbatim>\<open>0x400000\<close>, eight in memory, entered
  at its first byte; and one whose only program header would start where the file ends.
\<close>

definition elf_header :: "u8 \<Rightarrow> u8 list" where
  "elf_header phentsize =
     [0x7F, 0x45, 0x4C, 0x46, 1, 1, 1, 0, 0, 0, 0, 0, 0, 0, 0, 0, 2, 0, 3, 0, 1, 0, 0, 0,
      0, 0, 0x40, 0, 52, 0, 0, 0, 0, 0, 0, 0, 0, 0, 0, 0, 52, 0, phentsize, 0, 1, 0, 0, 0, 0, 0, 0, 0]"

definition demo_elf :: "u8 list" where
  "demo_elf = elf_header 32 @
     [1, 0, 0, 0, 84, 0, 0, 0, 0, 0, 0x40, 0, 0, 0, 0x40, 0, 4, 0, 0, 0, 8, 0, 0, 0, 5, 0, 0, 0, 0, 0x10, 0, 0] @
     [0x90, 0x90, 0x90, 0xC3]"

lemma demo_elf_facts:
  "length demo_elf = 88" "header_ok demo_elf" "unat (u16_at demo_elf 42) = 32" "u32_at demo_elf 24 = 0x400000"
  "segments demo_elf = [\<lparr>s_type = 1, s_offset = 84, s_vaddr = 0x400000, s_filesz = 4, s_memsz = 8\<rparr>]"
  by (simp_all add: demo_elf_def elf_header_def header_ok_def u16_at_def u32_at_def le16_def le32_def
      segments_def segment_at_def)

section \<open>Program headers of size 0\<close>

text \<open>
  With \<open>e_phentsize\<close> 0 the table takes no room, so it may start where the image ends, and every
  program header is the 32 bytes found there.
\<close>

definition behind :: "memory \<Rightarrow> u32 \<Rightarrow> u32 \<Rightarrow> segment" where
  "behind m img n = segment_at (image_bytes m (img + n) 32) 0"

lemma behind_code:
  "p_type m (img + n) = s_type (behind m img n)" "p_offset m (img + n) = s_offset (behind m img n)"
  "p_filesz m (img + n) = s_filesz (behind m img n)" "p_memsz m (img + n) = s_memsz (behind m img n)"
  using segment_read [OF holds_image_bytes [of m "img + n" 32], of 0] by (simp_all add: behind_def)

lemma load_segments_skip:
  "e_phentsize m img = 0 \<Longrightarrow> p_type m (img + e_phoff m img) \<noteq> PT_LOAD \<Longrightarrow> load_segments img n i m = (True, m)"
  by (induction img n i m rule: load_segments.induct) (subst load_segments.simps, simp add: Let_def)

lemma empty_headers_load:
  assumes "img \<noteq> 0" and "out_entry \<noteq> 0" and bs: "bs = image_bytes m img n"
    and hok: "header_ok bs" and size0: "u16_at bs 42 = 0" and off: "u32_at bs 28 = n"
  shows "s_type (behind m img n) \<noteq> 1 \<Longrightarrow> elf32_load img n out_entry m = (True, write_u32 m out_entry (u32_at bs 24))"
    and "s_type (behind m img n) = 1 \<Longrightarrow> \<not> segment_ok (unat n) (behind m img n) \<Longrightarrow>
      elf32_load img n out_entry m = (False, m)"
proof -
  have h: "holds m img bs" and len: "length bs = unat n" by (simp_all add: bs holds_image_bytes)
  have n: "52 \<le> unat n" using hok len by (simp add: header_ok_def)
  then have small: "\<not> n < sizeof_ehdr" by (simp add: sizeof_ehdr_def word_less_nat_alt)
  note ok = iffD1 [OF header_ok_code [OF h len n] hok]
  have f: "e_phentsize m img = 0" "e_phoff m img = n" "e_entry m img = u32_at bs 24"
    using holds_read(2) [OF h, of 42] holds_read(3) [OF h, of 28] holds_read(3) [OF h, of 24] n len size0 off
    by (simp_all add: e_phentsize_def e_phoff_def e_entry_def)
  have run: "elf32_load img n out_entry m =
      (case load_segments img n 0 m of (ok, m) \<Rightarrow> if ok then (True, write_u32 m out_entry (e_entry m img)) else (False, m))"
    unfolding elf32_load_def using ok assms(1,2) small by (simp add: Let_def split_beta)
  show "elf32_load img n out_entry m = (True, write_u32 m out_entry (u32_at bs 24))"
    if "s_type (behind m img n) \<noteq> 1"
    using load_segments_skip [of m img n 0] that by (simp add: run f behind_code)
  show "elf32_load img n out_entry m = (False, m)"
    if "s_type (behind m img n) = 1" "\<not> segment_ok (unat n) (behind m img n)"
  proof -
    have "0 < e_phnum m img" using ok by (simp add: word_neq_0_conv)
    then have "load_segments img n 0 m = (False, m)"
      using that segment_ok_code [OF len, of "behind m img n"]
      by (subst load_segments.simps) (auto simp: f behind_code Let_def len)
    then show ?thesis by (simp add: run)
  qed
qed

text \<open>Both verdicts are possible for one image.\<close>

lemma behind_mem_of:
  assumes "length bs = unat n" and "unat n + 32 \<le> 2 ^ 32" and "length tail = 8"
  shows "s_type (behind (mem_of img (bs @ tail) 0) img n) = u32_at tail 0"
    and "s_offset (behind (mem_of img (bs @ tail) 0) img n) = u32_at tail 4"
proof -
  have "mem_of img (bs @ tail) 0 (img + n + of_nat k) = tail ! k" if "k < 8" for k
  proof -
    have "unat (n + of_nat k) = unat n + k"
      using that assms(2) by (subst unat_add_nowrap) (simp_all add: unat_of_nat_small)
    then show ?thesis using that assms by (simp add: mem_of_def add.assoc nth_append)
  qed
  from this [of 0] this [of 1] this [of 2] this [of 3] this [of 4] this [of 5] this [of 6] this [of 7]
  show "s_type (behind (mem_of img (bs @ tail) 0) img n) = u32_at tail 0"
    "s_offset (behind (mem_of img (bs @ tail) 0) img n) = u32_at tail 4"
    by (simp_all add: behind_def segment_at_def u32_at_def image_bytes_def flip: numeral_2_eq_2)
qed

section \<open>Properties\<close>

text \<open>
  C34.  \<open>elf32_load\<close> does what the format says: it accepts exactly the images whose header is an
  i386 ELF32 executable with its program header table inside the file and whose loadable
  segments lie inside the file and are no larger there than in memory; it then puts each
  segment's bytes at its address, zeros behind them, stores the entry point, and changes no
  other byte.  A rejected header changes nothing.  This is under the two conditions the code
  does not check: program headers of at least 32 bytes, and no loadable segment on top of the
  image itself.
\<close>

theorem elf32_load_correct:
  assumes "img \<noteq> 0" and "out_entry \<noteq> 0" and "bs = image_bytes m img n"
    and "header_ok bs \<Longrightarrow> 32 \<le> unat (u16_at bs 42)"
    and "\<And>s. s \<in> set (segments bs) \<Longrightarrow> s_type s = 1 \<Longrightarrow> apart img (unat n) s"
  shows "elf32_load img n out_entry m = spec_load bs out_entry m"
  by (rule elf32_load_refines [OF assms])

theorem elf32_load_correct_witness:
  "\<exists>m'. elf32_load 0x200000 88 0x300000 (mem_of 0x200000 demo_elf 0xCC) = (True, m') \<and>
     m' 0x400000 = 0x90 \<and> m' 0x400003 = 0xC3 \<and> m' 0x400007 = 0 \<and> m' 0x400008 = 0xCC \<and>
     read_u32 m' 0x300000 = 0x400000"
proof -
  let ?m = "mem_of 0x200000 demo_elf 0xCC"
  let ?s = "\<lparr>s_type = 1, s_offset = 84, s_vaddr = 0x400000, s_filesz = 4, s_memsz = 8\<rparr> :: segment"
  have bs: "demo_elf = image_bytes ?m 0x200000 88"
    using image_bytes_mem_of [of 88 demo_elf "0x200000" "0xCC"] demo_elf_facts(1) by simp
  have apart: "apart 0x200000 (unat (88 :: u32)) ?s"
  proof -
    have "88 \<le> unat (x - 0x200000)" if "unat (x - 0x400000) < 8" for x :: u32
    proof -
      have "x - 0x200000 = (x - 0x400000) + 0x200000" by simp
      moreover have "unat ((x - 0x400000) + 0x200000) = unat (x - 0x400000) + 0x200000"
        using that by (subst unat_add_nowrap) simp_all
      ultimately show ?thesis by simp
    qed
    then show ?thesis by (simp add: apart_def)
  qed
  have "elf32_load 0x200000 88 0x300000 ?m = spec_load demo_elf 0x300000 ?m"
    by (rule elf32_load_correct) (use bs apart demo_elf_facts in auto)
  also have "\<dots> = (True, write_u32 (place demo_elf ?s ?m) 0x300000 0x400000)"
    by (simp add: spec_load_def demo_elf_facts segment_ok_def)
  finally show ?thesis
    by (intro exI conjI, assumption)
      (simp_all add: write_u32_def place_def mem_of_def demo_elf_facts(1), simp_all add: demo_elf_def elf_header_def
        read_u32_def byte_of_def le32_def)
qed

text \<open>
  C35.  The loader reads outside the image.  Take any image with an acceptable header whose
  program headers have size 0 and start where the image ends: the check of the program header
  table passes, and the verdict is decided by the 32 bytes behind the image.  If they are not a
  loadable header the image is accepted, if they are one that does not fit the image is
  refused; so there are memories with this same image in which it is accepted, and others in
  which it is refused.
\<close>

theorem elf_header_overread:
  assumes "img \<noteq> 0" and "out_entry \<noteq> 0" and "length bs = unat n" and "unat n + 32 \<le> 2 ^ 32"
    and "header_ok bs" and "u16_at bs 42 = 0" and "u32_at bs 28 = n"
  shows "(\<forall>m. image_bytes m img n = bs \<longrightarrow>
      (s_type (behind m img n) \<noteq> 1 \<longrightarrow>
         elf32_load img n out_entry m = (True, write_u32 m out_entry (u32_at bs 24))) \<and>
      (s_type (behind m img n) = 1 \<and> \<not> segment_ok (unat n) (behind m img n) \<longrightarrow>
         elf32_load img n out_entry m = (False, m))) \<and>
    (\<exists>m m'. image_bytes m img n = bs \<and> image_bytes m' img n = bs \<and>
      fst (elf32_load img n out_entry m) \<and> \<not> fst (elf32_load img n out_entry m'))"
proof -
  note L = empty_headers_load [OF assms(1,2) _ assms(5-7)]
  let ?m = "mem_of img (bs @ replicate 8 0) 0"
  let ?m' = "mem_of img (bs @ [1, 0, 0, 0, 0xFF, 0xFF, 0xFF, 0xFF]) 0"
  have img: "image_bytes ?m img n = bs" "image_bytes ?m' img n = bs"
    using image_bytes_mem_of [of n] assms(3) by simp_all
  have "s_type (behind ?m img n) = 0" "s_type (behind ?m' img n) = 1" "s_offset (behind ?m' img n) = 0xFFFFFFFF"
    using behind_mem_of [OF assms(3,4), of "replicate 8 0"]
      behind_mem_of [OF assms(3,4), of "[1, 0, 0, 0, 0xFF, 0xFF, 0xFF, 0xFF]"]
    by (simp_all add: u32_at_def le32_def)
  then have "fst (elf32_load img n out_entry ?m)" "\<not> fst (elf32_load img n out_entry ?m')"
    using L(1) [of ?m] L(2) [of ?m'] img assms(4) by (simp_all add: segment_ok_def)
  then show ?thesis using L img by blast
qed

theorem elf_header_overread_witness:
  "\<exists>m m'. image_bytes m 0x200000 52 = elf_header 0 \<and> image_bytes m' 0x200000 52 = elf_header 0 \<and>
     fst (elf32_load 0x200000 52 0x300000 m) \<and> \<not> fst (elf32_load 0x200000 52 0x300000 m')"
proof -
  have "length (elf_header 0) = unat (52 :: u32)" "header_ok (elf_header 0)" "u16_at (elf_header 0) 42 = 0"
    "u32_at (elf_header 0) 28 = 52"
    by (simp_all add: elf_header_def header_ok_def u16_at_def u32_at_def le16_def le32_def)
  from elf_header_overread [OF _ _ this(1) _ this(2-4), of "0x200000" "0x300000"] show ?thesis by simp
qed

end
