(* ===== verification/Vfs.thy ===== *)
theory Vfs
  imports HeapSpec Console
begin

text \<open>
  The in-RAM file system (\<^verbatim>\<open>kernel/fs/vfs.c\<close>).

  \<^item> Nodes live at the addresses \<open>kmalloc\<close> hands out, so the state is a store of nodes by
    address with the root and current-directory pointers; the heap is threaded alongside.
    Following a pointer to no node is \<open>None\<close> (undefined behaviour of the code).
  \<^item> \<open>vfs_ok\<close> is the invariant: a finite tree of well-formed nodes inside live allocations.
\<close>

section \<open>Nodes and state\<close>

datatype vfs_type = VFS_DIR | VFS_FILE

abbreviation (input) VFS_MAX_NAME :: nat where "VFS_MAX_NAME \<equiv> 32"
abbreviation (input) VFS_MAX_CHILDREN :: u32 where "VFS_MAX_CHILDREN \<equiv> 16"
abbreviation (input) VFS_MAX_FILE_SIZE :: nat where "VFS_MAX_FILE_SIZE \<equiv> 256"

record vfs_node =
  nd_name :: "u8 list"
  nd_type :: vfs_type
  nd_parent :: u32
  nd_children :: "u32 list"
  nd_child_count :: u32
  nd_content :: "u8 list"

text \<open>\<^verbatim>\<open>sizeof(vfs_node_t)\<close>: 32 + 4 + 4 + 16 * 4 + 4 + 256.\<close>

definition sizeof_vfs_node :: u32 where
  "sizeof_vfs_node = 364"

type_synonym node_store = "u32 \<rightharpoonup> vfs_node"

record vfs =
  nodes :: node_store
  vfs_root :: u32
  vfs_cwd :: u32

definition vfs_boot :: vfs where
  "vfs_boot = \<lparr>nodes = (\<lambda>_. None), vfs_root = 0, vfs_cwd = 0\<rparr>"

section \<open>Operations\<close>

function name_copy_from :: "u8 list \<Rightarrow> u8 list \<Rightarrow> nat \<Rightarrow> nat \<Rightarrow> u8 list" where
  "name_copy_from dst src lim i =
     (if cstr src i \<noteq> 0 \<and> i < lim - 1 then name_copy_from (dst[i := cstr src i]) src lim (i + 1)
      else dst[i := 0])"
  by pat_completeness auto
termination
  by (relation "measure (\<lambda>(dst, src, lim, i). length src - i)") (auto intro: cstr_measure)

declare name_copy_from.simps [simp del]

definition name_copy :: "u8 list \<Rightarrow> u8 list \<Rightarrow> nat \<Rightarrow> u8 list" where
  "name_copy dst src lim = name_copy_from dst src lim 0"

function str_eq_from :: "u8 list \<Rightarrow> u8 list \<Rightarrow> nat \<Rightarrow> bool" where
  "str_eq_from a b i =
     (if cstr a i \<noteq> 0 \<and> cstr b i \<noteq> 0
      then if cstr a i \<noteq> cstr b i then False else str_eq_from a b (i + 1)
      else cstr a i = cstr b i)"
  by pat_completeness auto
termination
  by (relation "measure (\<lambda>(a, b, i). length a - i)") (auto intro: cstr_measure)

declare str_eq_from.simps [simp del]

definition str_eq :: "u8 list \<Rightarrow> u8 list \<Rightarrow> bool" where
  "str_eq a b = str_eq_from a b 0"

text \<open>
  The result is the pointer, 0 when the heap is exhausted.  \<open>J\<close> says what the memory of a new
  node holds before it is filled in.
\<close>

definition vfs_alloc_node ::
    "(u32 \<Rightarrow> vfs_node) \<Rightarrow> u8 list \<Rightarrow> vfs_type \<Rightarrow> u32 \<Rightarrow> vfs \<times> heap \<Rightarrow> (u32 \<times> vfs \<times> heap) option" where
  "vfs_alloc_node J nm type parent s =
     (case s of (v, h) \<Rightarrow> do {
        (node, h) \<leftarrow> kmalloc sizeof_vfs_node h;
        if node = 0 then Some (0, v, h)
        else do {
          let n = J node;
          let n = n\<lparr>nd_name := name_copy (nd_name n) nm VFS_MAX_NAME, nd_type := type,
                     nd_parent := parent, nd_child_count := 0, nd_content := (nd_content n)[0 := 0]\<rparr>;
          let N = (nodes v)(node \<mapsto> n);
          N \<leftarrow> (if parent \<noteq> 0
                then do {
                  p \<leftarrow> N parent;
                  Some (if nd_child_count p < VFS_MAX_CHILDREN
                        then N(parent \<mapsto> p\<lparr>nd_children := (nd_children p)[unat (nd_child_count p) := node],
                                             nd_child_count := nd_child_count p + 1\<rparr>)
                        else N)
                }
                else Some N);
          Some (node, v\<lparr>nodes := N\<rparr>, h)
        }
      })"

definition vfs_mkdir ::
    "(u32 \<Rightarrow> vfs_node) \<Rightarrow> u32 \<Rightarrow> u8 list \<Rightarrow> vfs \<times> heap \<Rightarrow> (u32 \<times> vfs \<times> heap) option" where
  "vfs_mkdir J parent nm s = vfs_alloc_node J nm VFS_DIR parent s"

text \<open>\<open>content\<close> is \<open>None\<close> for a null pointer.\<close>

definition vfs_create_file ::
    "(u32 \<Rightarrow> vfs_node) \<Rightarrow> u32 \<Rightarrow> u8 list \<Rightarrow> u8 list option \<Rightarrow> vfs \<times> heap \<Rightarrow> (u32 \<times> vfs \<times> heap) option" where
  "vfs_create_file J parent nm content s =
     do {
       (node, v, h) \<leftarrow> vfs_alloc_node J nm VFS_FILE parent s;
       case content of
         None \<Rightarrow> Some (node, v, h)
       | Some c \<Rightarrow>
           if node \<noteq> 0
           then do {
             n \<leftarrow> nodes v node;
             Some (node, v\<lparr>nodes := (nodes v)(node \<mapsto> n\<lparr>nd_content := name_copy (nd_content n) c VFS_MAX_FILE_SIZE\<rparr>)\<rparr>, h)
           }
           else Some (node, v, h)
     }"

function find_child_from :: "node_store \<Rightarrow> vfs_node \<Rightarrow> u8 list \<Rightarrow> nat \<Rightarrow> u32 option" where
  "find_child_from N p nm i =
     (if i < unat (nd_child_count p)
      then do {
        let child = nd_children p ! i;
        c \<leftarrow> N child;
        if str_eq (nd_name c) nm then Some child else find_child_from N p nm (i + 1)
      }
      else Some 0)"
  by pat_completeness auto
termination
  by (relation "measure (\<lambda>(N, p, nm, i). unat (nd_child_count p) - i)") auto

declare find_child_from.simps [simp del]

definition vfs_find_child :: "vfs \<Rightarrow> u32 \<Rightarrow> u8 list \<Rightarrow> u32 option" where
  "vfs_find_child v parent nm = do { p \<leftarrow> nodes v parent; find_child_from (nodes v) p nm 0 }"

definition vfs_init :: "(u32 \<Rightarrow> vfs_node) \<Rightarrow> vfs \<times> heap \<Rightarrow> (vfs \<times> heap) option" where
  "vfs_init J s =
     do {
       (r, v, h) \<leftarrow> vfs_alloc_node J (chars ''/'') VFS_DIR 0 s;
       let v = v\<lparr>vfs_root := r\<rparr>;
       (kernel_dir, s) \<leftarrow> vfs_mkdir J (vfs_root v) (chars ''kernel'') (v, h);
       (shell_dir, s) \<leftarrow> vfs_mkdir J (vfs_root (fst s)) (chars ''shell'') s;
       (_, s) \<leftarrow> vfs_create_file J kernel_dir (chars ''README'')
         (Some (chars ''AlderKernel in-RAM VFS.\<newline>This directory represents kernel space.'')) s;
       (_, v, h) \<leftarrow> vfs_create_file J shell_dir (chars ''README'')
         (Some (chars ''zSlash shell space.\<newline>Add shell-related files here as they show up.'')) s;
       Some (v\<lparr>vfs_cwd := vfs_root v\<rparr>, h)
     }"

definition vfs_get_root :: "vfs \<Rightarrow> u32" where "vfs_get_root v = vfs_root v"
definition vfs_get_cwd :: "vfs \<Rightarrow> u32" where "vfs_get_cwd v = vfs_cwd v"
definition vfs_set_cwd :: "u32 \<Rightarrow> vfs \<Rightarrow> vfs" where "vfs_set_cwd node v = v\<lparr>vfs_cwd := node\<rparr>"

partial_function (option) print_path_recursive ::
    "'d ports \<Rightarrow> node_store \<Rightarrow> u32 \<Rightarrow> 'd console \<Rightarrow> 'd console option" where
  "print_path_recursive io N node c =
     do {
       n \<leftarrow> N node;
       if nd_parent n = 0 then Some c
       else do {
         c \<leftarrow> print_path_recursive io N (nd_parent n) c;
         Some (print_text io (nd_name n) (print_text io (chars ''/'') c))
       }
     }"

definition vfs_print_cwd_path :: "'d ports \<Rightarrow> vfs \<Rightarrow> 'd console \<Rightarrow> 'd console option" where
  "vfs_print_cwd_path io v c =
     (if vfs_cwd v = vfs_root v then Some (print_text io (chars ''/'') c)
      else print_path_recursive io (nodes v) (vfs_cwd v) c)"

section \<open>Strings\<close>

lemma name_copy_from_eq:
  assumes "i < lim" and "lim \<le> length dst"
  shows "name_copy_from dst src lim i = store_at i (take (lim - 1 - i) (c_string (drop i src)) @ [0]) dst"
  using assms
proof (induction dst src lim i rule: name_copy_from.induct)
  case (1 dst src lim i)
  show ?case
  proof (cases "cstr src i \<noteq> 0 \<and> i < lim - 1")
    case False
    then have T: "take (lim - 1 - i) (c_string (drop i src)) = []"
      by (subst c_string_drop) auto
    have "name_copy_from dst src lim i = dst[i := 0]"
      using False by (subst name_copy_from.simps) auto
    then show ?thesis unfolding T using 1(2,3) by (simp add: store_at_def upd_conv_take_nth_drop)
  next
    case True
    have d: "c_string (drop i src) = cstr src i # c_string (drop (Suc i) src)"
      using c_string_drop [of i src] True by simp
    let ?dst = "dst[i := cstr src i]"
    have "name_copy_from dst src lim i = name_copy_from ?dst src lim (i + 1)"
      using True by (subst name_copy_from.simps) simp
    also have "\<dots> = store_at (i + 1) (take (lim - 1 - (i + 1)) (c_string (drop (i + 1) src)) @ [0]) ?dst"
      by (rule "1.IH" [OF True]) (use True 1(3) in auto)
    also have "\<dots> = store_at i (take (lim - 1 - i) (c_string (drop i src)) @ [0]) dst"
    proof -
      have "i < lim - 1" using True by simp
      then have "lim - 1 - i = Suc (lim - 1 - (i + 1))" by arith
      then show ?thesis using 1(2,3) by (simp add: store_at_def d take_Suc_conv_app_nth)
    qed
    finally show ?thesis .
  qed
qed

lemma name_copy_eq:
  "0 < lim \<Longrightarrow> lim \<le> length dst \<Longrightarrow>
   name_copy dst src lim = store_at 0 (take (lim - 1) (c_string src) @ [0]) dst"
  using name_copy_from_eq [of 0 lim dst src] by (simp add: name_copy_def)

lemma length_name_copy [simp]:
  "0 < lim \<Longrightarrow> lim \<le> length dst \<Longrightarrow> length (name_copy dst src lim) = length dst"
  by (simp add: name_copy_eq)

lemma c_string_name_copy:
  assumes "0 < lim" and "lim \<le> length dst"
  shows "c_string (name_copy dst src lim) = take (lim - 1) (c_string src)"
proof -
  have "0 \<notin> set (take (lim - 1) (c_string src))" using c_string_no_zero in_set_takeD by metis
  with assms show ?thesis by (simp add: name_copy_eq store_at_def c_string_terminated)
qed

lemma str_eq_from_iff: "str_eq_from a b i \<longleftrightarrow> c_string (drop i a) = c_string (drop i b)"
proof (induction a b i rule: str_eq_from.induct)
  case (1 a b i)
  show ?case
    by (subst str_eq_from.simps, subst (1 2) c_string_drop) (use 1 in auto)
qed

lemma str_eq_iff [simp]: "str_eq a b \<longleftrightarrow> c_string a = c_string b"
  by (simp add: str_eq_def str_eq_from_iff)

section \<open>The invariant\<close>

definition node_ok :: "node_store \<Rightarrow> u32 \<Rightarrow> vfs_node \<Rightarrow> bool" where
  "node_ok N a n \<longleftrightarrow>
     length (nd_name n) = 32 \<and> length (nd_content n) = 256 \<and> length (nd_children n) = 16 \<and>
     length (c_string (nd_name n)) < 32 \<and> length (c_string (nd_content n)) < 256 \<and>
     unat (nd_child_count n) \<le> 16 \<and>
     (nd_parent n \<noteq> 0 \<longrightarrow> nd_parent n \<in> dom N) \<and>
     (\<forall>i < unat (nd_child_count n). \<exists>c. N (nd_children n ! i) = Some c \<and> nd_parent c = a)"

definition tree_ok :: "node_store \<Rightarrow> bool" where
  "tree_ok N \<longleftrightarrow>
     (\<exists>rank :: u32 \<Rightarrow> nat. \<forall>a n. N a = Some n \<longrightarrow> nd_parent n \<noteq> 0 \<longrightarrow> rank (nd_parent n) < rank a)"

definition store_ok :: "node_store \<Rightarrow> bool" where
  "store_ok N \<longleftrightarrow> N 0 = None \<and> (\<forall>a n. N a = Some n \<longrightarrow> node_ok N a n) \<and> tree_ok N"

definition vfs_ok :: "vfs \<times> heap \<Rightarrow> bool" where
  "vfs_ok s \<longleftrightarrow>
     (\<exists>L. heap_held (snd s) L \<and> dom (nodes (fst s)) \<subseteq> fst ` L) \<and> store_ok (nodes (fst s))"

text \<open>The memory of a new node has the arrays of its type, with any contents.\<close>

definition fresh_ok :: "(u32 \<Rightarrow> vfs_node) \<Rightarrow> bool" where
  "fresh_ok J \<longleftrightarrow>
     (\<forall>a. length (nd_name (J a)) = 32 \<and> length (nd_content (J a)) = 256 \<and> length (nd_children (J a)) = 16)"

definition new_node :: "vfs_node \<Rightarrow> u8 list \<Rightarrow> vfs_type \<Rightarrow> u32 \<Rightarrow> vfs_node" where
  "new_node n nm type parent =
     n\<lparr>nd_name := name_copy (nd_name n) nm 32, nd_type := type, nd_parent := parent,
       nd_child_count := 0, nd_content := (nd_content n)[0 := 0]\<rparr>"

definition add_child :: "u32 \<Rightarrow> vfs_node \<Rightarrow> vfs_node" where
  "add_child a p =
     (if nd_child_count p < 16
      then p\<lparr>nd_children := (nd_children p)[unat (nd_child_count p) := a], nd_child_count := nd_child_count p + 1\<rparr>
      else p)"

definition add_node :: "u32 \<Rightarrow> vfs_node \<Rightarrow> node_store \<Rightarrow> node_store" where
  "add_node a n N =
     (if nd_parent n = 0 then N(a \<mapsto> n)
      else N(a \<mapsto> n, nd_parent n \<mapsto> add_child a (the (N (nd_parent n)))))"

lemma new_node_simps [simp]:
  "nd_type (new_node n nm type parent) = type" "nd_parent (new_node n nm type parent) = parent"
  "nd_child_count (new_node n nm type parent) = 0" "nd_children (new_node n nm type parent) = nd_children n"
  by (simp_all add: new_node_def)

lemma add_child_simps [simp]:
  "nd_name (add_child a p) = nd_name p" "nd_type (add_child a p) = nd_type p"
  "nd_parent (add_child a p) = nd_parent p" "nd_content (add_child a p) = nd_content p"
  by (simp_all add: add_child_def)

lemma add_node_same [simp]:
  "nd_parent n \<noteq> a \<Longrightarrow> add_node a n N a = Some n"
  by (simp add: add_node_def)

lemma dom_add_node: "nd_parent n = 0 \<or> nd_parent n \<in> dom N \<Longrightarrow> dom (add_node a n N) = insert a (dom N)"
  by (auto simp: add_node_def)

lemma alloc_node_run:
  assumes ok: "vfs_ok (v, h)" and J: "fresh_ok J" and parent: "parent = 0 \<or> parent \<in> dom (nodes v)"
  shows "\<exists>a h'. if a = 0 then vfs_alloc_node J nm type parent (v, h) = Some (0, v, h') \<and> vfs_ok (v, h')
     else a \<notin> dom (nodes v) \<and>
       vfs_alloc_node J nm type parent (v, h) =
         Some (a, v\<lparr>nodes := add_node a (new_node (J a) nm type parent) (nodes v)\<rparr>, h') \<and>
       (\<exists>L. heap_held h' L \<and> insert a (dom (nodes v)) \<subseteq> fst ` L)"
proof -
  obtain L where L: "heap_held h L" "dom (nodes v) \<subseteq> fst ` L" using ok by (auto simp: vfs_ok_def)
  obtain a h' M where m: "kmalloc sizeof_vfs_node h = Some (a, h')" "heap_held h' M"
    "if a = 0 then M = L else \<exists>s. M = insert (a, s) L \<and> a \<notin> fst ` L \<and> unat sizeof_vfs_node \<le> unat s"
    using kheap.malloc_ok [OF L(1), of sizeof_vfs_node] by (auto simp: sizeof_vfs_node_def)
  show ?thesis
  proof (cases "a = 0")
    case True
    with m L ok show ?thesis
      by (intro exI [of _ 0] exI [of _ h']) (auto simp: vfs_alloc_node_def vfs_ok_def)
  next
    case False
    with m(3) obtain s where s: "M = insert (a, s) L" "a \<notin> fst ` L" by auto
    then have fresh: "a \<notin> dom (nodes v)" using L(2) by blast
    have "vfs_alloc_node J nm type parent (v, h) =
        Some (a, v\<lparr>nodes := add_node a (new_node (J a) nm type parent) (nodes v)\<rparr>, h')"
    proof (cases "parent = 0")
      case True
      with m(1) False show ?thesis by (simp add: vfs_alloc_node_def add_node_def new_node_def Let_def)
    next
      case par: False
      then obtain p where p: "nodes v parent = Some p" using parent by auto
      with fresh have "parent \<noteq> a" by auto
      moreover have "(nodes v)(parent \<mapsto> p) = nodes v" using p by (rule fun_upd_idem)
      ultimately show ?thesis
        using m(1) False par p
        by (simp add: vfs_alloc_node_def add_node_def new_node_def add_child_def Let_def fun_upd_twist)
    qed
    moreover have "insert a (dom (nodes v)) \<subseteq> fst ` M" using s L(2) by auto
    ultimately show ?thesis using False fresh m(2) by (intro exI [of _ a] exI [of _ h']) auto
  qed
qed

lemma node_ok_mono:
  assumes "node_ok N a n" and "\<And>b c. N b = Some c \<Longrightarrow> \<exists>c'. M b = Some c' \<and> nd_parent c' = nd_parent c"
  shows "node_ok M a n"
  using assms unfolding node_ok_def by (metis (no_types, lifting) domI domD)

lemma new_node_ok:
  assumes "fresh_ok J" and "parent = 0 \<or> parent \<in> dom N"
  shows "node_ok N a (new_node (J a) nm type parent)"
proof -
  have l: "length (nd_name (J a)) = 32" "length (nd_content (J a)) = 256" "length (nd_children (J a)) = 16"
    using assms(1) by (auto simp: fresh_ok_def)
  have "c_string ((nd_content (J a))[0 := 0]) = []" using l(2) by (cases "nd_content (J a)") auto
  moreover have "length (take (32 - 1) (c_string nm)) < 32" by simp
  ultimately show ?thesis
    using l assms(2) by (auto simp: node_ok_def new_node_def c_string_name_copy)
qed

lemma add_child_ok:
  assumes "node_ok N b p" and "N a = Some n" and "nd_parent n = b"
  shows "node_ok N b (add_child a p)"
proof (cases "nd_child_count p < 16")
  case True
  then have "unat (nd_child_count p) < 16" by (simp add: word_less_nat_alt)
  moreover have "unat (nd_child_count p + 1) = Suc (unat (nd_child_count p))" by (rule unat_Suc_below [OF True])
  ultimately show ?thesis
    using assms by (auto simp: node_ok_def add_child_def nth_list_update)
qed (use assms in \<open>simp add: add_child_def\<close>)

lemma store_ok_add_node:
  assumes "store_ok N" and "fresh_ok J" and "parent = 0 \<or> parent \<in> dom N" and "a \<noteq> 0" and "a \<notin> dom N"
  shows "store_ok (add_node a (new_node (J a) nm type parent) N)"
proof -
  let ?n = "new_node (J a) nm type parent" and ?M = "add_node a (new_node (J a) nm type parent) N"
  have ok: "N 0 = None" "\<And>b c. N b = Some c \<Longrightarrow> node_ok N b c" "tree_ok N" using assms(1) by (auto simp: store_ok_def)
  have pa: "parent \<noteq> a" using assms(3-5) by auto
  have M: "?M b = (if b = a then Some ?n else if b = parent \<and> parent \<noteq> 0 then Some (add_child a (the (N parent))) else N b)" for b
    using pa by (auto simp: add_node_def)
  have mono: "\<exists>c'. ?M b = Some c' \<and> nd_parent c' = nd_parent c" if "N b = Some c" for b c
    using that assms(5) by (auto simp: M)
  have "?M 0 = None" using assms(4) ok(1) by (simp add: M)
  moreover have "node_ok ?M b c" if b: "?M b = Some c" for b c
  proof -
    consider "b = a" "c = ?n" | "b \<noteq> a" "b = parent" "parent \<noteq> 0" "c = add_child a (the (N parent))"
      | "b \<noteq> a" "N b = Some c" using b unfolding M by (metis option.inject)
    then show ?thesis
    proof cases
      case 1
      have "parent = 0 \<or> parent \<in> dom ?M" using assms(3) mono by blast
      then show ?thesis unfolding 1 by (rule new_node_ok [OF assms(2)])
    next
      case 2
      then obtain p where p: "N parent = Some p" using assms(3) by auto
      have "node_ok ?M parent p" by (rule node_ok_mono [OF ok(2) [OF p] mono])
      with 2 p show ?thesis by (auto simp: M intro: add_child_ok)
    next
      case 3
      then show ?thesis by (intro node_ok_mono [OF ok(2) mono])
    qed
  qed
  moreover have "tree_ok ?M"
  proof -
    obtain rank :: "u32 \<Rightarrow> nat" where rank: "\<forall>b c. N b = Some c \<longrightarrow> nd_parent c \<noteq> 0 \<longrightarrow> rank (nd_parent c) < rank b"
      using ok(3) unfolding tree_ok_def by blast
    let ?rank = "rank(a := Suc (rank parent))"
    have "?rank (nd_parent c) < ?rank b" if "?M b = Some c" "nd_parent c \<noteq> 0" for b c
    proof (cases "b = a")
      case True
      with that(1) have "nd_parent c = parent" by (auto simp: M)
      with True pa show ?thesis by simp
    next
      case False
      with that obtain c' where c': "N b = Some c'" "nd_parent c' = nd_parent c"
        using assms(3) by (auto simp: M split: if_splits)
      then have "nd_parent c \<in> dom N" using ok(2) [OF c'(1)] that(2) by (auto simp: node_ok_def)
      then have "nd_parent c \<noteq> a" using assms(5) by auto
      with rank [rule_format, OF c'(1)] c'(2) that(2) False show ?thesis by simp
    qed
    then show ?thesis unfolding tree_ok_def by blast
  qed
  ultimately show ?thesis unfolding store_ok_def by blast
qed

text \<open>Filling in the contents of a file.\<close>

lemma store_ok_content:
  assumes "store_ok N" and "N a = Some n" and "length c = 256" and "length (c_string c) < 256"
  shows "store_ok (N(a \<mapsto> n\<lparr>nd_content := c\<rparr>))"
proof -
  let ?M = "N(a \<mapsto> n\<lparr>nd_content := c\<rparr>)"
  have mono: "\<exists>c'. ?M b = Some c' \<and> nd_parent c' = nd_parent d" if "N b = Some d" for b d
    using that assms(2) by auto
  have ok: "N 0 = None" "\<And>b d. N b = Some d \<Longrightarrow> node_ok N b d" "tree_ok N" using assms(1) by (auto simp: store_ok_def)
  have "node_ok ?M b d" if "?M b = Some d" for b d
  proof (cases "b = a")
    case True
    have "node_ok ?M a n" by (rule node_ok_mono [OF ok(2) [OF assms(2)] mono])
    with True that assms(3,4) show ?thesis by (auto simp: node_ok_def)
  next
    case False
    with that show ?thesis by (intro node_ok_mono [OF ok(2) mono]) auto
  qed
  moreover have "tree_ok ?M"
    using ok(3) assms(2) unfolding tree_ok_def by (auto split: if_splits)
  moreover have "?M 0 = None" using assms(2) ok(1) by auto
  ultimately show ?thesis unfolding store_ok_def by blast
qed

section \<open>Finding children\<close>

lemma find_child_from_eq:
  assumes "\<And>i. i < unat (nd_child_count p) \<Longrightarrow> \<exists>c. N (nd_children p ! i) = Some c"
  shows "find_child_from N p nm i = Some
    (case find (\<lambda>j. c_string (nd_name (the (N (nd_children p ! j)))) = c_string nm) [i..<unat (nd_child_count p)] of
       None \<Rightarrow> 0 | Some j \<Rightarrow> nd_children p ! j)"
  using assms
proof (induction N p nm i rule: find_child_from.induct)
  case (1 N p nm i)
  show ?case
  proof (cases "i < unat (nd_child_count p)")
    case True
    then obtain c where c: "N (nd_children p ! i) = Some c" using "1.prems" by blast
    have "[i..<unat (nd_child_count p)] = i # [Suc i..<unat (nd_child_count p)]"
      using True by (simp add: upt_conv_Cons)
    with 1 c True show ?thesis by (subst find_child_from.simps) auto
  qed (subst find_child_from.simps, simp)
qed

text \<open>The names in a directory, in order, with the children they belong to.\<close>

definition entries :: "node_store \<Rightarrow> u32 \<Rightarrow> (u8 list \<times> u32) list" where
  "entries N a =
     (case N a of None \<Rightarrow> []
      | Some p \<Rightarrow> map (\<lambda>c. (c_string (nd_name (the (N c))), c)) (take (unat (nd_child_count p)) (nd_children p)))"

lemma find_as_map_of:
  "(case find (\<lambda>j. f (xs ! j) = x) [0..<length xs] of None \<Rightarrow> None | Some j \<Rightarrow> Some (xs ! j))
     = map_of (map (\<lambda>c. (f c, c)) xs) x"
proof (induction xs)
  case (Cons y ys)
  have "find P (map Suc ks) = map_option Suc (find (\<lambda>k. P (Suc k)) ks)" for P ks
    by (induction ks) auto
  with Cons show ?case
    by (cases "f y = x") (simp_all add: upt_conv_Cons map_Suc_upt [symmetric] del: upt_Suc split: option.splits)
qed simp

lemma find_child_entries:
  assumes "store_ok (nodes v)" and "a \<in> dom (nodes v)"
  shows "vfs_find_child v a nm = Some (case map_of (entries (nodes v) a) (c_string nm) of None \<Rightarrow> 0 | Some c \<Rightarrow> c)"
proof -
  obtain p where p: "nodes v a = Some p" using assms(2) by auto
  then have ok: "node_ok (nodes v) a p" using assms(1) by (auto simp: store_ok_def)
  let ?xs = "take (unat (nd_child_count p)) (nd_children p)"
  have len: "length ?xs = unat (nd_child_count p)" using ok by (simp add: node_ok_def)
  have "find (\<lambda>j. c_string (nd_name (the (nodes v (nd_children p ! j)))) = c_string nm) [0..<unat (nd_child_count p)]
      = find (\<lambda>j. c_string (nd_name (the (nodes v (?xs ! j)))) = c_string nm) [0..<length ?xs]"
    unfolding len by (rule find_cong) (simp_all add: len)
  note same = this
  have "vfs_find_child v a nm = Some
    (case find (\<lambda>j. c_string (nd_name (the (nodes v (?xs ! j)))) = c_string nm) [0..<length ?xs] of
       None \<Rightarrow> 0 | Some j \<Rightarrow> nd_children p ! j)"
    unfolding vfs_find_child_def same [symmetric]
    using find_child_from_eq [of p "nodes v" nm 0] ok p by (auto simp: node_ok_def)
  moreover have "nd_children p ! j = ?xs ! j"
    if "find (\<lambda>j. c_string (nd_name (the (nodes v (?xs ! j)))) = c_string nm) [0..<length ?xs] = Some j" for j
    using that len by (auto simp: find_Some_iff)
  ultimately show ?thesis
    using find_as_map_of [where f = "\<lambda>c. c_string (nd_name (the (nodes v c)))" and xs = ?xs and x = "c_string nm"] p
    by (auto simp: entries_def split: option.splits)
qed

section \<open>Paths\<close>

text \<open>The names from the root down to a node, and walking down a list of names.\<close>

partial_function (option) path_names :: "node_store \<Rightarrow> u32 \<Rightarrow> u8 list list option" where
  "path_names N a =
     do {
       n \<leftarrow> N a;
       if nd_parent n = 0 then Some []
       else do { ps \<leftarrow> path_names N (nd_parent n); Some (ps @ [c_string (nd_name n)]) }
     }"

fun resolve :: "node_store \<Rightarrow> u32 \<Rightarrow> u8 list list \<Rightarrow> u32 option" where
  "resolve N a [] = Some a"
| "resolve N a (nm # nms) = do { c \<leftarrow> map_of (entries N a) nm; resolve N c nms }"

definition path_text :: "u8 list list \<Rightarrow> u8 list" where
  "path_text ps = concat (map (\<lambda>nm. chars ''/'' @ nm) ps)"

text \<open>Every node but the root is one of its parent's children, and siblings have different names.\<close>

definition linked :: "node_store \<Rightarrow> u32 \<Rightarrow> bool" where
  "linked N r \<longleftrightarrow>
     (\<forall>a n. N a = Some n \<longrightarrow> (if nd_parent n = 0 then a = r else a \<in> snd ` set (entries N (nd_parent n)))) \<and>
     (\<forall>a. distinct (map fst (entries N a)))"

lemma resolve_append: "resolve N a (xs @ ys) = do { b \<leftarrow> resolve N a xs; resolve N b ys }"
  by (induction xs arbitrary: a) (auto split: Option.bind_splits)

lemma tree_induct:
  assumes "store_ok N" and "N a = Some n"
    and "\<And>a n. N a = Some n \<Longrightarrow> nd_parent n = 0 \<Longrightarrow> P a"
    and "\<And>a n p. N a = Some n \<Longrightarrow> nd_parent n \<noteq> 0 \<Longrightarrow> N (nd_parent n) = Some p \<Longrightarrow> P (nd_parent n) \<Longrightarrow> P a"
  shows "P a"
proof -
  obtain rank :: "u32 \<Rightarrow> nat" where rank: "\<And>b c. N b = Some c \<Longrightarrow> nd_parent c \<noteq> 0 \<Longrightarrow> rank (nd_parent c) < rank b"
    using assms(1) unfolding store_ok_def tree_ok_def by blast
  show ?thesis using assms(2)
  proof (induction "rank a" arbitrary: a n rule: less_induct)
    case less
    show ?case
    proof (cases "nd_parent n = 0")
      case True
      then show ?thesis by (rule assms(3) [OF less.prems])
    next
      case False
      then obtain p where p: "N (nd_parent n) = Some p"
        using assms(1) less.prems unfolding store_ok_def node_ok_def by blast
      then show ?thesis using less.hyps [OF rank [OF less.prems False] p] by (rule assms(4) [OF less.prems False])
    qed
  qed
qed

lemma path_exists:
  assumes "store_ok N" and "N a = Some n"
  shows "\<exists>ps. path_names N a = Some ps \<and> (\<forall>nm \<in> set ps. 0 \<notin> set nm)"
proof (rule tree_induct [OF assms])
  fix a n assume "N a = Some n" "nd_parent n = 0"
  then show "\<exists>ps. path_names N a = Some ps \<and> (\<forall>nm \<in> set ps. 0 \<notin> set nm)"
    by (subst path_names.simps) simp
next
  fix a n p assume "N a = Some n" "nd_parent n \<noteq> 0"
    "\<exists>ps. path_names N (nd_parent n) = Some ps \<and> (\<forall>nm \<in> set ps. 0 \<notin> set nm)"
  then show "\<exists>ps. path_names N a = Some ps \<and> (\<forall>nm \<in> set ps. 0 \<notin> set nm)"
    by (subst path_names.simps) auto
qed

lemma path_resolves:
  assumes ok: "store_ok N" and lk: "linked N r" and a: "N a = Some n"
  shows "\<exists>ps. path_names N a = Some ps \<and> resolve N r ps = Some a"
proof (rule tree_induct [OF ok a])
  fix a n assume "N a = Some n" "nd_parent n = 0"
  with lk show "\<exists>ps. path_names N a = Some ps \<and> resolve N r ps = Some a"
    unfolding linked_def by (subst path_names.simps) force
next
  fix a n p
  assume n: "N a = Some n" "nd_parent n \<noteq> 0" and p: "N (nd_parent n) = Some p"
    and "\<exists>ps. path_names N (nd_parent n) = Some ps \<and> resolve N r ps = Some (nd_parent n)"
  then obtain ps where ps: "path_names N (nd_parent n) = Some ps" "resolve N r ps = Some (nd_parent n)"
    by blast
  have "a \<in> snd ` set (entries N (nd_parent n))" "distinct (map fst (entries N (nd_parent n)))"
    using lk n unfolding linked_def by (metis, blast)
  then have "map_of (entries N (nd_parent n)) (c_string (nd_name n)) = Some a"
    using n(1) p by (intro map_of_is_SomeI) (force simp: entries_def)+
  with n ps show "\<exists>ps. path_names N a = Some ps \<and> resolve N r ps = Some a"
    by (subst path_names.simps) (simp add: resolve_append)
qed

lemma entries_child:
  assumes "store_ok N" and "map_of (entries N a) nm = Some b"
  obtains n where "N b = Some n" "nd_parent n = a" "c_string (nd_name n) = nm" "a \<noteq> 0" "a \<in> dom N"
proof -
  have mem: "(nm, b) \<in> set (entries N a)" using assms(2) by (rule map_of_SomeD)
  then obtain p where p: "N a = Some p" by (cases "N a") (auto simp: entries_def)
  with mem have b: "b \<in> set (take (unat (nd_child_count p)) (nd_children p))"
    and nm: "nm = c_string (nd_name (the (N b)))"
    by (auto simp: entries_def)
  have "node_ok N a p" using assms(1) p by (simp add: store_ok_def)
  with b obtain n where "N b = Some n" "nd_parent n = a" by (auto simp: in_set_conv_nth node_ok_def)
  moreover have "a \<noteq> 0" using p assms(1) by (auto simp: store_ok_def)
  ultimately show ?thesis using nm p by (intro that [of n]) auto
qed

lemma resolve_path:
  assumes ok: "store_ok N" and r: "N r = Some n" "nd_parent n = 0"
  shows "resolve N r ps = Some a \<Longrightarrow> path_names N a = Some ps \<and> a \<in> dom N"
proof (induction ps arbitrary: a rule: rev_induct)
  case Nil
  with r show ?case by (subst path_names.simps) auto
next
  case (snoc nm ps)
  then obtain b where b: "resolve N r ps = Some b" "map_of (entries N b) nm = Some a"
    by (auto simp: resolve_append split: Option.bind_splits)
  from entries_child [OF ok b(2)] obtain m where "N a = Some m" "nd_parent m = b" "c_string (nd_name m) = nm" "b \<noteq> 0"
    by metis
  with snoc.IH [OF b(1)] show ?case by (subst path_names.simps) auto
qed

lemma print_path_shows:
  assumes ok: "store_ok N" and a: "N a = Some n" and "shows_roll c r"
  shows "\<exists>ps c'. path_names N a = Some ps \<and> print_path_recursive io N a c = Some c' \<and>
     shows_roll c' (roll_text (path_text ps) r)"
proof -
  have nz: "0 \<notin> set (path_text ps)" if "\<forall>nm \<in> set ps. 0 \<notin> set nm" for ps
    using that by (auto simp: path_text_def)
  have "\<forall>c r. shows_roll c r \<longrightarrow> (\<exists>ps c'. path_names N a = Some ps \<and> print_path_recursive io N a c = Some c' \<and>
     shows_roll c' (roll_text (path_text ps) r))"
  proof (rule tree_induct [OF ok a])
    fix a n assume n: "N a = Some n" "nd_parent n = 0"
    show "\<forall>c r. shows_roll c r \<longrightarrow> (\<exists>ps c'. path_names N a = Some ps \<and>
        print_path_recursive io N a c = Some c' \<and> shows_roll c' (roll_text (path_text ps) r))"
      by (subst path_names.simps, subst print_path_recursive.simps) (simp add: n path_text_def roll_text_def)
  next
    fix a n p assume n: "N a = Some n" "nd_parent n \<noteq> 0" and p: "N (nd_parent n) = Some p"
      and IH: "\<forall>c r. shows_roll c r \<longrightarrow> (\<exists>ps c'. path_names N (nd_parent n) = Some ps \<and>
        print_path_recursive io N (nd_parent n) c = Some c' \<and> shows_roll c' (roll_text (path_text ps) r))"
    show "\<forall>c r. shows_roll c r \<longrightarrow> (\<exists>ps c'. path_names N a = Some ps \<and>
        print_path_recursive io N a c = Some c' \<and> shows_roll c' (roll_text (path_text ps) r))"
    proof (intro allI impI)
      fix c :: "'a console" and r assume "shows_roll c r"
      then obtain ps c' where ps: "path_names N (nd_parent n) = Some ps"
        "print_path_recursive io N (nd_parent n) c = Some c'" "shows_roll c' (roll_text (path_text ps) r)"
        using IH by blast
      have "\<forall>nm \<in> set ps. 0 \<notin> set nm" using path_exists [OF ok p] ps(1) by auto
      then have "roll_text (path_text (ps @ [c_string (nd_name n)])) r
          = roll_text (c_string (nd_name n)) (roll_text (chars ''/'') (roll_text (path_text ps) r))"
      proof -
        have "path_text (ps @ [c_string (nd_name n)]) = path_text ps @ chars ''/'' @ c_string (nd_name n)"
          by (simp add: path_text_def)
        moreover have "0 \<notin> set (chars ''/'')" by simp
        ultimately show ?thesis
          using roll_text_append [OF nz [OF \<open>\<forall>nm \<in> set ps. 0 \<notin> set nm\<close>]] by (simp only: roll_text_append not_False_eq_True)
      qed
      also have "\<dots> = roll_text (nd_name n) (roll_text (chars ''/'') (roll_text (path_text ps) r))"
        by (simp only: roll_text_c_string)
      finally show "\<exists>ps c'. path_names N a = Some ps \<and> print_path_recursive io N a c = Some c' \<and>
          shows_roll c' (roll_text (path_text ps) r)"
        using n ps print_text_shows(1) [OF print_text_shows(1) [OF ps(3)], of io "nd_name n" io "chars ''/''"]
        by (subst path_names.simps, subst print_path_recursive.simps) simp
    qed
  qed
  with assms(3) show ?thesis by blast
qed

section \<open>Directories after an operation\<close>

lemma entries_cong:
  assumes "store_ok N" and "N a = Some p" and "M a = Some q"
    and "nd_children q = nd_children p" and "nd_child_count q = nd_child_count p"
    and "\<And>c n. N c = Some n \<Longrightarrow> \<exists>m. M c = Some m \<and> nd_name m = nd_name n"
  shows "entries M a = entries N a"
proof -
  have "\<forall>i < unat (nd_child_count p). \<exists>c. N (nd_children p ! i) = Some c"
    using assms(1,2) unfolding store_ok_def node_ok_def by blast
  moreover have "c \<in> set (take (unat (nd_child_count p)) (nd_children p)) \<Longrightarrow>
      \<exists>i < unat (nd_child_count p). c = nd_children p ! i" for c
    by (auto simp: in_set_conv_nth)
  ultimately have "nd_name (the (M c)) = nd_name (the (N c))"
    if "c \<in> set (take (unat (nd_child_count p)) (nd_children p))" for c
    using that assms(6) by fastforce
  with assms(2-5) show ?thesis by (simp add: entries_def)
qed

lemma entries_add_node:
  assumes ok: "store_ok N" and a: "a \<noteq> 0" "a \<notin> dom N" and n: "nd_child_count n = 0"
    and par: "nd_parent n = 0 \<or> N (nd_parent n) = Some p \<and> nd_child_count p < 16"
  shows "entries (add_node a n N) b =
    (if b = a then []
     else if b = nd_parent n \<and> b \<noteq> 0 then entries N b @ [(c_string (nd_name n), a)] else entries N b)"
proof -
  let ?M = "add_node a n N"
  have pa: "nd_parent n \<noteq> a" using par a by auto
  have M: "?M c = (if c = a then Some n else if c = nd_parent n \<and> nd_parent n \<noteq> 0 then Some (add_child a p) else N c)" for c
    using pa par by (auto simp: add_node_def)
  have names: "\<exists>m. ?M c = Some m \<and> nd_name m = nd_name k" if "N c = Some k" for c k
    using that a par by (auto simp: M)
  consider "b = a" | "b \<noteq> a" "N b = None" | k where "b \<noteq> a" "N b = Some k" "\<not> (b = nd_parent n \<and> b \<noteq> 0)"
    | "b \<noteq> a" "b = nd_parent n" "b \<noteq> 0" "N b = Some p" using par by (cases "N b") auto
  then show ?thesis
  proof cases
    case 1
    then show ?thesis by (simp add: entries_def M n)
  next
    case 2
    then have "\<not> (b = nd_parent n \<and> b \<noteq> 0)" using par by auto
    with 2 show ?thesis by (auto simp: entries_def M)
  next
    case (3 k)
    then have "entries ?M b = entries N b" by (intro entries_cong [OF ok 3(2) _ refl refl names]) (auto simp: M)
    with 3 show ?thesis by simp
  next
    case 4
    have ok_p: "node_ok N b p" using ok 4(4) by (auto simp: store_ok_def)
    then have len: "length (nd_children p) = 16" by (simp add: node_ok_def)
    have lt: "nd_child_count p < 16" using par 4 by auto
    then have u: "unat (nd_child_count p + 1) = Suc (unat (nd_child_count p))" "unat (nd_child_count p) < 16"
      using unat_Suc_below [OF lt] by (simp_all add: word_less_nat_alt)
    have "take (unat (nd_child_count (add_child a p))) (nd_children (add_child a p))
        = take (unat (nd_child_count p)) (nd_children p) @ [a]"
      using lt u len by (simp add: add_child_def take_Suc_conv_app_nth)
    moreover have "nd_name (the (?M c)) = nd_name (the (N c))"
      if "c \<in> set (take (unat (nd_child_count p)) (nd_children p))" for c
    proof -
      from that obtain i where "i < unat (nd_child_count p)" "c = nd_children p ! i"
        by (auto simp: in_set_conv_nth)
      then obtain k where "N c = Some k" using ok_p by (auto simp: node_ok_def)
      with names show ?thesis by fastforce
    qed
    ultimately show ?thesis using 4 by (simp add: entries_def M)
  qed
qed

text \<open>Creating a file: the node that is added, its contents included.\<close>

definition file_node :: "vfs_node \<Rightarrow> u8 list \<Rightarrow> u8 list \<Rightarrow> u32 \<Rightarrow> vfs_node" where
  "file_node n nm content parent =
     (let f = new_node n nm VFS_FILE parent in f\<lparr>nd_content := name_copy (nd_content f) content 256\<rparr>)"

lemma add_node_content:
  "nd_parent n \<noteq> a \<Longrightarrow> (add_node a n N)(a \<mapsto> n\<lparr>nd_content := c\<rparr>) = add_node a (n\<lparr>nd_content := c\<rparr>) N"
  by (auto simp: add_node_def fun_eq_iff)

lemma create_file_run:
  assumes ok: "vfs_ok (v, h)" and J: "fresh_ok J" and parent: "parent \<in> dom (nodes v)"
  shows "\<exists>a h'. if a = 0 then vfs_create_file J parent nm (Some content) (v, h) = Some (0, v, h') \<and> vfs_ok (v, h')
     else a \<notin> dom (nodes v) \<and>
       vfs_create_file J parent nm (Some content) (v, h) =
         Some (a, v\<lparr>nodes := add_node a (file_node (J a) nm content parent) (nodes v)\<rparr>, h') \<and>
       vfs_ok (v\<lparr>nodes := add_node a (file_node (J a) nm content parent) (nodes v)\<rparr>, h')"
proof -
  obtain a h' where r: "if a = 0 then vfs_alloc_node J nm VFS_FILE parent (v, h) = Some (0, v, h') \<and> vfs_ok (v, h')
     else a \<notin> dom (nodes v) \<and>
       vfs_alloc_node J nm VFS_FILE parent (v, h) =
         Some (a, v\<lparr>nodes := add_node a (new_node (J a) nm VFS_FILE parent) (nodes v)\<rparr>, h') \<and>
       (\<exists>L. heap_held h' L \<and> insert a (dom (nodes v)) \<subseteq> fst ` L)"
    using alloc_node_run [OF ok J disjI2 [OF parent], of nm VFS_FILE] by (elim exE) (rule that)
  show ?thesis
  proof (cases "a = 0")
    case True
    with r show ?thesis by (intro exI [of _ 0] exI [of _ h']) (simp add: vfs_create_file_def)
  next
    case False
    with r have fresh: "a \<notin> dom (nodes v)" by simp
    then have pa: "parent \<noteq> a" using parent by auto
    let ?n = "new_node (J a) nm VFS_FILE parent"
    have len: "length (nd_content ?n) = 256" using J by (simp add: new_node_def fresh_ok_def)
    have f: "file_node (J a) nm content parent = ?n\<lparr>nd_content := name_copy (nd_content ?n) content 256\<rparr>"
      by (simp add: file_node_def Let_def)
    have create: "vfs_create_file J parent nm (Some content) (v, h) =
        Some (a, v\<lparr>nodes := add_node a (file_node (J a) nm content parent) (nodes v)\<rparr>, h')"
      using r False pa by (simp add: vfs_create_file_def f add_node_content)
    have st: "store_ok (nodes v)" using ok by (simp add: vfs_ok_def)
    have "store_ok ((add_node a ?n (nodes v))(a \<mapsto> ?n\<lparr>nd_content := name_copy (nd_content ?n) content 256\<rparr>))"
      using store_ok_add_node [OF st J disjI2 [OF parent] False fresh] pa len
      by (intro store_ok_content) (simp_all add: c_string_name_copy)
    then have "store_ok (add_node a (file_node (J a) nm content parent) (nodes v))"
      using pa by (simp add: add_node_content f)
    moreover have "dom (add_node a (file_node (J a) nm content parent) (nodes v)) = insert a (dom (nodes v))"
      using parent by (intro dom_add_node) (simp add: f)
    ultimately show ?thesis
      using r False create by (intro exI [of _ a] exI [of _ h']) (auto simp: vfs_ok_def)
  qed
qed

end
