(* ===== verification/Util.thy ===== *)
theory Util
  imports Prelude
begin

text \<open>
  The shell's string functions (\<^verbatim>\<open>kernel/shell/util.c\<close>).  Strings are the bytes from the
  pointer on; reading past the last byte given reads the terminating zero (\<open>cstr\<close>).
\<close>

function strcmp_from :: "u8 list \<Rightarrow> u8 list \<Rightarrow> nat \<Rightarrow> int" where
  "strcmp_from a b i =
     (if cstr a i \<noteq> 0 \<and> cstr b i \<noteq> 0
      then if cstr a i \<noteq> cstr b i then 1 else strcmp_from a b (i + 1)
      else if cstr a i \<noteq> cstr b i then 1
      else 0)"
  by pat_completeness auto
termination
  by (relation "measure (\<lambda>(a, b, i). length a - i)") (auto intro: cstr_measure)

declare strcmp_from.simps [simp del]

definition strcmp :: "u8 list \<Rightarrow> u8 list \<Rightarrow> int" where
  "strcmp a b = strcmp_from a b 0"

fun str_to_uint_from :: "u32 \<Rightarrow> u8 list \<Rightarrow> u32" where
  "str_to_uint_from result [] = result"
| "str_to_uint_from result (c # s) =
     (if 0x30 \<le> c \<and> c \<le> 0x39 then str_to_uint_from (result * 10 + (ucast c - 0x30)) s else result)"

definition str_to_uint :: "u8 list \<Rightarrow> u32" where
  "str_to_uint s = str_to_uint_from 0 s"

text \<open>\<open>str_copy\<close> has no bound: writing past the destination array is \<open>None\<close>.\<close>

function str_copy_from :: "u8 list \<Rightarrow> u8 list \<Rightarrow> nat \<Rightarrow> u8 list option" where
  "str_copy_from dst src i =
     (if cstr src i \<noteq> 0
      then do { dst \<leftarrow> put_at dst i (cstr src i); str_copy_from dst src (i + 1) }
      else put_at dst i 0)"
  by pat_completeness auto
termination
  by (relation "measure (\<lambda>(dst, src, i). length src - i)") (auto intro: cstr_measure)

declare str_copy_from.simps [simp del]

definition str_copy :: "u8 list \<Rightarrow> u8 list \<Rightarrow> u8 list option" where
  "str_copy dst src = str_copy_from dst src 0"

function str_len_from :: "u8 list \<Rightarrow> nat \<Rightarrow> nat" where
  "str_len_from s len = (if cstr s len \<noteq> 0 then str_len_from s (len + 1) else len)"
  by pat_completeness auto
termination
  by (relation "measure (\<lambda>(s, len). length s - len)") (auto intro: cstr_measure)

declare str_len_from.simps [simp del]

definition str_len :: "u8 list \<Rightarrow> u32" where
  "str_len s = of_nat (str_len_from s 0)"

section \<open>Lemmas\<close>

lemma strcmp_from_eq: "strcmp_from a b i = (if c_string (drop i a) = c_string (drop i b) then 0 else 1)"
proof (induction a b i rule: strcmp_from.induct)
  case (1 a b i)
  show ?case
    by (subst strcmp_from.simps, subst (1 2) c_string_drop) (use 1 in auto)
qed

lemma strcmp_0 [simp]: "strcmp a b = 0 \<longleftrightarrow> c_string a = c_string b"
  by (simp add: strcmp_def strcmp_from_eq)

lemma str_copy_from_eq:
  assumes "i + length (c_string (drop i src)) < length dst"
  shows "str_copy_from dst src i = Some (store_at i (c_string (drop i src) @ [0]) dst)"
  using assms
proof (induction dst src i rule: str_copy_from.induct)
  case (1 dst src i)
  show ?case
  proof (cases "cstr src i = 0")
    case True
    with 1(2) show ?thesis
      by (subst str_copy_from.simps, subst c_string_drop) (simp add: store_at_def upd_conv_take_nth_drop)
  next
    case False
    have d: "c_string (drop i src) = cstr src i # c_string (drop (Suc i) src)"
      using c_string_drop [of i src] False by simp
    let ?dst = "dst[i := cstr src i]"
    have "i < length dst" using 1(2) by simp
    then have "str_copy_from dst src i = str_copy_from ?dst src (i + 1)"
      using False by (subst str_copy_from.simps) simp
    also have "\<dots> = Some (store_at (i + 1) (c_string (drop (i + 1) src) @ [0]) ?dst)"
      using 1(1) [OF False, of ?dst] 1(2) d by simp
    also have "store_at (i + 1) (c_string (drop (i + 1) src) @ [0]) ?dst
        = store_at i (c_string (drop i src) @ [0]) dst"
      using \<open>i < length dst\<close> by (simp add: store_at_def d take_Suc_conv_app_nth)
    finally show ?thesis .
  qed
qed

lemma str_copy_eq:
  "length (c_string src) < length dst \<Longrightarrow> str_copy dst src = Some (store_at 0 (c_string src @ [0]) dst)"
  using str_copy_from_eq [of 0 src dst] by (simp add: str_copy_def)

lemma c_string_store: "c_string (store_at 0 (c_string s @ [0]) dst) = c_string s"
  by (simp add: store_at_def c_string_terminated)

lemma str_len_from_eq: "str_len_from s i = i + length (c_string (drop i s))"
proof (induction s i rule: str_len_from.induct)
  case (1 s i)
  show ?case
    by (subst str_len_from.simps, subst c_string_drop) (use 1 in simp)
qed

lemma str_len_eq: "str_len s = of_nat (length (c_string s))"
  by (simp add: str_len_def str_len_from_eq)

end
