(* ===== verification/FsCommands.thy ===== *)
theory FsCommands
  imports Vfs Util
begin

text \<open>
  The shell's commands on the in-RAM file system (\<^verbatim>\<open>kernel/shell/fs_commands.c\<close>) and the
  tree \<open>vfs_init\<close> builds.

  \<^item> An argument is \<open>None\<close> for the null pointer.
  \<^item> The specification of the current directory is a path, a list of names; \<open>cd_spec\<close> is
    what \<open>cd\<close> does to it.  The commands on the pointer structure simulate it.
\<close>

section \<open>The commands\<close>

text \<open>The directory \<open>ls\<close> lists; \<open>Some None\<close> is the "not a directory" return.\<close>

definition ls_target :: "u8 list option \<Rightarrow> vfs \<Rightarrow> u32 option option" where
  "ls_target arg v =
     (let target = vfs_get_cwd v in
      case arg of
        None \<Rightarrow> Some (Some target)
      | Some a \<Rightarrow>
          if strcmp a (chars ''/'') = 0 then Some (Some (vfs_get_root v))
          else if strcmp a (chars ''..'') = 0 then do {
            t \<leftarrow> nodes v target;
            Some (Some (if nd_parent t \<noteq> 0 then nd_parent t else target))
          }
          else do {
            found \<leftarrow> vfs_find_child v target a;
            if found = 0 then Some None
            else do {
              n \<leftarrow> nodes v found;
              if nd_type n \<noteq> VFS_DIR then Some None else Some (Some found)
            }
          })"

function ls_loop :: "'d ports \<Rightarrow> node_store \<Rightarrow> vfs_node \<Rightarrow> nat \<Rightarrow> 'd console \<Rightarrow> 'd console option" where
  "ls_loop io N t i c =
     (if i < unat (nd_child_count t)
      then do {
        child \<leftarrow> N (nd_children t ! i);
        let c = print_text io (nd_name child) c;
        let c = (if nd_type child = VFS_DIR then print_text io (chars ''/'') c else c);
        ls_loop io N t (i + 1) (print_text io (chars ''\<newline>'') c)
      }
      else Some c)"
  by pat_completeness auto
termination
  by (relation "measure (\<lambda>(io, N, t, i, c). unat (nd_child_count t) - i)") auto

declare ls_loop.simps [simp del]

definition command_ls :: "'d ports \<Rightarrow> u8 list option \<Rightarrow> vfs \<Rightarrow> 'd console \<Rightarrow> 'd console option" where
  "command_ls io arg v c =
     do {
       target \<leftarrow> ls_target arg v;
       case target of
         None \<Rightarrow> Some (print_text io (chars ''\<newline>'') (print_text io (the arg)
                   (print_text io (chars ''ls: not a directory: '') c)))
       | Some target \<Rightarrow> do {
           t \<leftarrow> nodes v target;
           if nd_child_count t = 0 then Some (print_text io (chars ''(empty)\<newline>'') c)
           else ls_loop io (nodes v) t 0 c
         }
     }"

definition command_cd :: "'d ports \<Rightarrow> u8 list option \<Rightarrow> vfs \<Rightarrow> 'd console \<Rightarrow> (vfs \<times> 'd console) option" where
  "command_cd io arg v c =
     (case arg of
        None \<Rightarrow> Some (vfs_set_cwd (vfs_get_root v) v, c)
      | Some a \<Rightarrow>
          if strcmp a (chars ''/'') = 0 then Some (vfs_set_cwd (vfs_get_root v) v, c)
          else if strcmp a (chars ''..'') = 0 then do {
            let cwd = vfs_get_cwd v;
            n \<leftarrow> nodes v cwd;
            if nd_parent n \<noteq> 0 then Some (vfs_set_cwd (nd_parent n) v, c) else Some (v, c)
          }
          else do {
            found \<leftarrow> vfs_find_child v (vfs_get_cwd v) a;
            dir \<leftarrow> (if found = 0 then Some False else do { n \<leftarrow> nodes v found; Some (nd_type n = VFS_DIR) });
            if \<not> dir
            then Some (v, print_text io (chars ''\<newline>'') (print_text io a
                        (print_text io (chars ''cd: no such directory: '') c)))
            else Some (vfs_set_cwd found v, c)
          })"

definition command_pwd :: "'d ports \<Rightarrow> vfs \<Rightarrow> 'd console \<Rightarrow> 'd console option" where
  "command_pwd io v c = do { c \<leftarrow> vfs_print_cwd_path io v c; Some (print_text io (chars ''\<newline>'') c) }"

definition command_cat :: "'d ports \<Rightarrow> u8 list option \<Rightarrow> vfs \<Rightarrow> 'd console \<Rightarrow> 'd console option" where
  "command_cat io arg v c =
     (case arg of
        None \<Rightarrow> Some (print_text io (chars ''Usage: cat <file>\<newline>'') c)
      | Some a \<Rightarrow> do {
          found \<leftarrow> vfs_find_child v (vfs_get_cwd v) a;
          node \<leftarrow> (if found = 0 then Some None
                   else do { n \<leftarrow> nodes v found; Some (if nd_type n = VFS_FILE then Some n else None) });
          case node of
            None \<Rightarrow> Some (print_text io (chars ''\<newline>'') (print_text io a
                      (print_text io (chars ''cat: no such file: '') c)))
          | Some n \<Rightarrow> Some (print_text io (chars ''\<newline>'') (print_text io (nd_content n) c))
        })"

section \<open>The specification\<close>

text \<open>
  The file system as a user sees it: what there is at a path, a list of names from the root.
  The commands are functions of that view and of the path of the current directory.
\<close>

datatype fs_entry = Directory "u8 list list" | File "u8 list"

type_synonym fs_view = "u8 list list \<Rightarrow> fs_entry option"

definition is_directory :: "fs_view \<Rightarrow> u8 list list \<Rightarrow> bool" where
  "is_directory t ps \<longleftrightarrow> (case t ps of Some (Directory _) \<Rightarrow> True | _ \<Rightarrow> False)"

definition listing :: "fs_view \<Rightarrow> u8 list list \<Rightarrow> u8 list" where
  "listing t ps =
     (case t ps of
        Some (Directory ns) \<Rightarrow>
          if ns = [] then chars ''(empty)\<newline>''
          else concat (map (\<lambda>nm. nm @ (if is_directory t (ps @ [nm]) then chars ''/'' else []) @ chars ''\<newline>'') ns)
      | _ \<Rightarrow> [])"

datatype fs_op = Ls "u8 list option" | Cd "u8 list option" | Pwd | Cat "u8 list option"

fun fs_spec :: "fs_view \<Rightarrow> fs_op \<Rightarrow> u8 list list \<Rightarrow> u8 list \<times> u8 list list" where
  "fs_spec t (Ls None) ps = (listing t ps, ps)"
| "fs_spec t (Ls (Some a)) ps =
     (let nm = c_string a in
      (if nm = chars ''/'' then listing t []
       else if nm = chars ''..'' then listing t (butlast ps)
       else if is_directory t (ps @ [nm]) then listing t (ps @ [nm])
       else chars ''ls: not a directory: '' @ nm @ chars ''\<newline>'', ps))"
| "fs_spec t (Cd None) ps = ([], [])"
| "fs_spec t (Cd (Some a)) ps =
     (let nm = c_string a in
      if nm = chars ''/'' then ([], [])
      else if nm = chars ''..'' then ([], butlast ps)
      else if is_directory t (ps @ [nm]) then ([], ps @ [nm])
      else (chars ''cd: no such directory: '' @ nm @ chars ''\<newline>'', ps))"
| "fs_spec t Pwd ps = ((if ps = [] then chars ''/'' else path_text ps) @ chars ''\<newline>'', ps)"
| "fs_spec t (Cat None) ps = (chars ''Usage: cat <file>\<newline>'', ps)"
| "fs_spec t (Cat (Some a)) ps =
     (let nm = c_string a in
      (case t (ps @ [nm]) of
         Some (File content) \<Rightarrow> content @ chars ''\<newline>''
       | _ \<Rightarrow> chars ''cat: no such file: '' @ nm @ chars ''\<newline>'', ps))"

fun fs_step :: "'d ports \<Rightarrow> fs_op \<Rightarrow> vfs \<times> 'd console \<Rightarrow> (vfs \<times> 'd console) option" where
  "fs_step io (Ls a) (v, c) = map_option (Pair v) (command_ls io a v c)"
| "fs_step io (Cd a) (v, c) = command_cd io a v c"
| "fs_step io Pwd (v, c) = map_option (Pair v) (command_pwd io v c)"
| "fs_step io (Cat a) (v, c) = map_option (Pair v) (command_cat io a v c)"

text \<open>The view of a store of nodes.\<close>

definition view :: "vfs \<Rightarrow> fs_view" where
  "view v ps =
     do {
       a \<leftarrow> resolve (nodes v) (vfs_root v) ps;
       n \<leftarrow> nodes v a;
       Some (if nd_type n = VFS_DIR then Directory (map fst (entries (nodes v) a)) else File (c_string (nd_content n)))
     }"

definition fs_ok :: "vfs \<Rightarrow> bool" where
  "fs_ok v \<longleftrightarrow> store_ok (nodes v) \<and> linked (nodes v) (vfs_root v) \<and>
     (\<forall>a n. nodes v a = Some n \<longrightarrow> nd_parent n \<noteq> 0 \<longrightarrow> nd_type (the (nodes v (nd_parent n))) = VFS_DIR) \<and>
     (\<exists>r. nodes v (vfs_root v) = Some r \<and> nd_parent r = 0 \<and> nd_type r = VFS_DIR)"

definition at_path :: "vfs \<Rightarrow> u32 \<Rightarrow> vfs_node \<Rightarrow> u8 list list \<Rightarrow> bool" where
  "at_path v a n ps \<longleftrightarrow> nodes v a = Some n \<and> path_names (nodes v) a = Some ps"

definition in_directory :: "vfs \<Rightarrow> u8 list list \<Rightarrow> bool" where
  "in_directory v ps \<longleftrightarrow> (\<exists>n. at_path v (vfs_cwd v) n ps \<and> nd_type n = VFS_DIR)"

lemma view_cwd [simp]: "view (v\<lparr>vfs_cwd := x\<rparr>) = view v"
  by (auto simp: view_def fun_eq_iff cong: if_cong)

lemma fs_ok_cwd [simp]: "fs_ok (v\<lparr>vfs_cwd := x\<rparr>) = fs_ok v"
  by (simp add: fs_ok_def)

lemma fs_ok_store: "fs_ok v \<Longrightarrow> store_ok (nodes v)"
  by (simp add: fs_ok_def)

lemma at_path_cwd [simp]: "at_path (v\<lparr>vfs_cwd := x\<rparr>) a n ps = at_path v a n ps"
  by (simp add: at_path_def)

section \<open>Walking the tree\<close>

lemma at_path_resolves:
  assumes "fs_ok v" and "at_path v a n ps"
  shows "resolve (nodes v) (vfs_root v) ps = Some a"
  using path_resolves [of "nodes v" "vfs_root v" a n] assms by (auto simp: fs_ok_def at_path_def)

lemma at_path_view:
  assumes "fs_ok v" and "at_path v a n ps"
  shows "view v ps =
    Some (if nd_type n = VFS_DIR then Directory (map fst (entries (nodes v) a)) else File (c_string (nd_content n)))"
  using at_path_resolves [OF assms] assms(2) by (simp add: view_def at_path_def)

lemma at_path_directory: "fs_ok v \<Longrightarrow> at_path v a n ps \<Longrightarrow> is_directory (view v) ps \<longleftrightarrow> nd_type n = VFS_DIR"
  by (simp add: is_directory_def at_path_view)

lemma root_at_path:
  assumes "fs_ok v"
  obtains r where "at_path v (vfs_root v) r []" "nd_type r = VFS_DIR" "nd_parent r = 0"
proof -
  obtain r where r: "nodes v (vfs_root v) = Some r" "nd_parent r = 0" "nd_type r = VFS_DIR"
    using assms by (auto simp: fs_ok_def)
  have "path_names (nodes v) (vfs_root v) = Some []" using r by (subst path_names.simps) simp
  with r that show ?thesis by (auto simp: at_path_def)
qed

lemma parent_at_path:
  assumes ok: "fs_ok v" and a: "at_path v a n ps"
  shows "if nd_parent n = 0 then ps = [] \<and> a = vfs_root v
         else (\<exists>p. at_path v (nd_parent n) p (butlast ps) \<and> nd_type p = VFS_DIR \<and> ps \<noteq> [])"
proof (cases "nd_parent n = 0")
  case True
  then have "path_names (nodes v) a = Some []" using a by (subst path_names.simps) (simp add: at_path_def)
  with a have "ps = []" by (simp add: at_path_def)
  moreover have "a = vfs_root v" using ok a True unfolding fs_ok_def linked_def at_path_def by metis
  ultimately show ?thesis using True by simp
next
  case False
  then obtain p where p: "nodes v (nd_parent n) = Some p"
    using fs_ok_store [OF ok] a unfolding store_ok_def node_ok_def at_path_def by blast
  from path_exists [OF fs_ok_store [OF ok] p] obtain qs where "path_names (nodes v) (nd_parent n) = Some qs" by blast
  moreover from this have "path_names (nodes v) a = Some (qs @ [c_string (nd_name n)])"
    using a False by (subst path_names.simps) (simp add: at_path_def)
  moreover have "nd_type p = VFS_DIR" using ok a False p by (fastforce simp: fs_ok_def at_path_def)
  ultimately show ?thesis using False p a by (auto simp: at_path_def)
qed

lemma child_at_path:
  assumes ok: "fs_ok v" and a: "at_path v a n ps"
  obtains (missing) "vfs_find_child v a nm = Some 0" "view v (ps @ [c_string nm]) = None"
  | (found) b m where "vfs_find_child v a nm = Some b" "b \<noteq> 0" "at_path v b m (ps @ [c_string nm])"
proof -
  have dom: "a \<in> dom (nodes v)" using a by (auto simp: at_path_def)
  note f = find_child_entries [OF fs_ok_store [OF ok] dom]
  show thesis
  proof (cases "map_of (entries (nodes v) a) (c_string nm)")
    case None
    with f at_path_resolves [OF ok a] show thesis by (intro missing) (simp_all add: view_def resolve_append)
  next
    case (Some b)
    from entries_child [OF fs_ok_store [OF ok] this] obtain m where
      m: "nodes v b = Some m" "nd_parent m = a" "c_string (nd_name m) = c_string nm" "a \<noteq> 0" by metis
    then have "path_names (nodes v) b = Some (ps @ [c_string nm])"
      using a by (subst path_names.simps) (simp add: at_path_def)
    moreover have "b \<noteq> 0" using m(1) fs_ok_store [OF ok] by (auto simp: store_ok_def)
    ultimately show thesis using f Some m(1) by (intro found [of b m]) (simp_all add: at_path_def)
  qed
qed

lemma entry_at_path:
  assumes ok: "fs_ok v" and a: "at_path v a n ps" and i: "i < unat (nd_child_count n)"
  obtains m where "nodes v (nd_children n ! i) = Some m"
    "at_path v (nd_children n ! i) m (ps @ [c_string (nd_name m)])"
proof -
  have "node_ok (nodes v) a n" using fs_ok_store [OF ok] a by (simp add: store_ok_def at_path_def)
  with i obtain m where m: "nodes v (nd_children n ! i) = Some m" "nd_parent m = a" by (auto simp: node_ok_def)
  have "a \<noteq> 0" using a fs_ok_store [OF ok] by (auto simp: store_ok_def at_path_def)
  then have "path_names (nodes v) (nd_children n ! i) = Some (ps @ [c_string (nd_name m)])"
    using m a by (subst path_names.simps) (simp add: at_path_def)
  with m that show ?thesis by (simp add: at_path_def)
qed

section \<open>What the commands print\<close>

lemma shows_more:
  assumes "shows_roll c (roll_text s r)" and "0 \<notin> set s"
  shows "shows_roll (print_text io s' c) (roll_text (s @ c_string s') r)"
proof -
  have "roll_text (s @ c_string s') r = roll_text s' (roll_text s r)"
    using roll_text_append [OF assms(2)] by (simp only: roll_text_c_string)
  with print_text_shows(1) [OF assms(1)] show ?thesis by metis
qed

lemma shows_more_chars:
  assumes "shows_roll c (roll_text s r)" and "0 \<notin> set s" and "0 \<notin> set s'"
  shows "shows_roll (print_text io s' c) (roll_text (s @ s') r)"
  using shows_more [OF assms(1,2), of io s'] by (simp only: c_string_id [OF assms(3)])

lemma shows_none [simp]: "roll_text [] r = r"
  by (simp add: roll_text_def)

lemma message_shows:
  assumes "shows_roll c r" and "0 \<notin> set s"
  shows "shows_roll (print_text io (chars ''\<newline>'') (print_text io a (print_text io s c)))
    (roll_text (s @ c_string a @ chars ''\<newline>'') r)"
proof -
  have "shows_roll (print_text io s c) (roll_text s r)" using assms(1) by (rule print_text_shows(1))
  from shows_more [OF this assms(2)] have "shows_roll (print_text io a (print_text io s c)) (roll_text (s @ c_string a) r)" .
  then show ?thesis using assms(2) shows_more_chars [of _ "s @ c_string a" r "chars ''\<newline>''"] by simp
qed

lemma ls_loop_shows:
  assumes ok: "fs_ok v" and a: "at_path v a n ps"
    and "shows_roll c (roll_text s r)" and "0 \<notin> set s"
  shows "\<exists>c'. ls_loop io (nodes v) n i c = Some c' \<and> shows_roll c' (roll_text
    (s @ concat (map (\<lambda>nm. nm @ (if is_directory (view v) (ps @ [nm]) then chars ''/'' else []) @ chars ''\<newline>'')
       (map fst (drop i (entries (nodes v) a))))) r)"
  using assms(3,4)
proof (induction "unat (nd_child_count n) - i" arbitrary: i c s)
  case 0
  have "length (entries (nodes v) a) \<le> i" using 0(1) a by (simp add: entries_def at_path_def)
  with 0 show ?case by (subst ls_loop.simps) simp
next
  case (Suc k)
  then have i: "i < unat (nd_child_count n)" by simp
  obtain m where m: "nodes v (nd_children n ! i) = Some m"
    "at_path v (nd_children n ! i) m (ps @ [c_string (nd_name m)])" by (rule entry_at_path [OF ok a i])
  let ?nm = "c_string (nd_name m)" and ?d = "if nd_type m = VFS_DIR then chars ''/'' else []"
  have "unat (nd_child_count n) \<le> length (nd_children n)"
    using fs_ok_store [OF ok] a by (auto simp: store_ok_def node_ok_def at_path_def)
  then have "drop i (entries (nodes v) a) = (?nm, nd_children n ! i) # drop (Suc i) (entries (nodes v) a)"
    using a i m(1) by (subst Cons_nth_drop_Suc [symmetric]) (simp_all add: entries_def at_path_def)
  note next_entry = this at_path_directory [OF ok m(2)]
  define c1 where "c1 = print_text io (nd_name m) c"
  define c2 where "c2 = (if nd_type m = VFS_DIR then print_text io (chars ''/'') c1 else c1)"
  define c3 where "c3 = print_text io (chars ''\<newline>'') c2"
  have "shows_roll c1 (roll_text (s @ ?nm) r)" unfolding c1_def by (rule shows_more [OF Suc.prems])
  then have "shows_roll c2 (roll_text ((s @ ?nm) @ ?d) r)"
    unfolding c2_def using Suc.prems(2) shows_more_chars [of c1 "s @ ?nm" r "chars ''/''"] by simp
  moreover have "0 \<notin> set ((s @ ?nm) @ ?d)" using Suc.prems(2) by simp
  ultimately have "shows_roll c3 (roll_text (((s @ ?nm) @ ?d) @ chars ''\<newline>'') r)"
    unfolding c3_def by (rule shows_more_chars) simp
  moreover have "k = unat (nd_child_count n) - (i + 1)" using Suc.hyps(2) by simp
  ultimately obtain c' where
    "ls_loop io (nodes v) n (i + 1) c3 = Some c'"
    "shows_roll c' (roll_text ((((s @ ?nm) @ ?d) @ chars ''\<newline>'') @ concat (map (\<lambda>nm. nm @
       (if is_directory (view v) (ps @ [nm]) then chars ''/'' else []) @ chars ''\<newline>'')
       (map fst (drop (i + 1) (entries (nodes v) a))))) r)"
    using Suc.hyps(1) [of "i + 1" c3 "((s @ ?nm) @ ?d) @ chars ''\<newline>''"] Suc.prems(2) by force
  moreover have "ls_loop io (nodes v) n i c = ls_loop io (nodes v) n (i + 1) c3"
    using i m(1) by (subst ls_loop.simps) (simp add: c1_def c2_def c3_def Let_def)
  ultimately show ?case using next_entry by simp
qed

lemma listing_shows:
  assumes ok: "fs_ok v" and a: "at_path v a n ps" and dir: "nd_type n = VFS_DIR" and "shows_roll c r"
  shows "\<exists>c'. (if nd_child_count n = 0 then Some (print_text io (chars ''(empty)\<newline>'') c)
      else ls_loop io (nodes v) n 0 c) = Some c' \<and> shows_roll c' (roll_text (listing (view v) ps) r)"
proof -
  have "length (nd_children n) = 16" "unat (nd_child_count n) \<le> 16"
    using fs_ok_store [OF ok] a by (auto simp: store_ok_def node_ok_def at_path_def)
  then have "entries (nodes v) a = [] \<longleftrightarrow> nd_child_count n = 0"
    using a by (auto simp: entries_def at_path_def unat_eq_0)
  then have shown: "listing (view v) ps = (if nd_child_count n = 0 then chars ''(empty)\<newline>''
      else concat (map (\<lambda>nm. nm @ (if is_directory (view v) (ps @ [nm]) then chars ''/'' else []) @ chars ''\<newline>'')
        (map fst (entries (nodes v) a))))"
    using at_path_view [OF ok a] dir by (simp add: listing_def)
  show ?thesis
  proof (cases "nd_child_count n = 0")
    case True
    with shown show ?thesis by (auto intro: print_text_shows(1) [OF assms(4)] simp del: chars_simps)
  next
    case False
    with shown ls_loop_shows [OF ok a, of c "[]" r io 0] assms(4) show ?thesis by simp
  qed
qed

definition fs_rel :: "fs_view \<Rightarrow> vfs \<times> 'd console \<Rightarrow> u8 list list \<times> roll \<Rightarrow> bool" where
  "fs_rel t s a \<longleftrightarrow>
     fs_ok (fst s) \<and> view (fst s) = t \<and> in_directory (fst s) (fst a) \<and> shows_roll (snd s) (snd a)"
lemma fs_relD:
  assumes "fs_rel t (v, c) (ps, r)"
  obtains n where "fs_ok v" "view v = t" "at_path v (vfs_cwd v) n ps" "nd_type n = VFS_DIR" "shows_roll c r"
    "nodes v (vfs_cwd v) = Some n"
  using assms by (auto simp: fs_rel_def in_directory_def at_path_def)

lemma fs_relI:
  "fs_ok v \<Longrightarrow> view v = t \<Longrightarrow> at_path v a n ps \<Longrightarrow> nd_type n = VFS_DIR \<Longrightarrow> shows_roll c r \<Longrightarrow>
   fs_rel t (v\<lparr>vfs_cwd := a\<rparr>, c) (ps, r)"
  by (auto simp: fs_rel_def in_directory_def)

lemma ls_target_cases:
  assumes rel: "fs_rel t (v, c) (ps, r)"
  shows "case ls_target arg v of None \<Rightarrow> False
    | Some None \<Rightarrow> (\<exists>a. arg = Some a \<and> fst (fs_spec t (Ls arg) ps) = chars ''ls: not a directory: '' @ c_string a @ chars ''\<newline>'')
    | Some (Some b) \<Rightarrow> (\<exists>n qs. at_path v b n qs \<and> nd_type n = VFS_DIR \<and> fst (fs_spec t (Ls arg) ps) = listing t qs)"
proof -
  obtain n where ok: "fs_ok v" and t: "view v = t" and at: "at_path v (vfs_cwd v) n ps" "nd_type n = VFS_DIR"
    and n: "nodes v (vfs_cwd v) = Some n" by (rule fs_relD [OF rel])
  obtain r where root: "at_path v (vfs_root v) r []" "nd_type r = VFS_DIR" by (rule root_at_path [OF ok])
  show ?thesis
  proof (cases arg)
    case None
    with at show ?thesis by (auto simp: ls_target_def vfs_get_cwd_def)
  next
    case (Some a)
    consider "c_string a = chars ''/''" | "c_string a = chars ''..''"
      | "c_string a \<noteq> chars ''/''" "c_string a \<noteq> chars ''..''" by blast
    then show ?thesis
    proof cases
      case 1
      with root Some show ?thesis by (auto simp: ls_target_def vfs_get_root_def)
    next
      case 2
      then have ls: "fst (fs_spec t (Ls arg) ps) = listing t (butlast ps)" "strcmp a (chars ''/'') \<noteq> 0"
        using Some by simp_all
      with 2 parent_at_path [OF ok at(1)] at n Some show ?thesis
        by (cases "nd_parent n = 0") (auto simp: ls_target_def vfs_get_cwd_def)
    next
      case 3
      then have ls: "ls_target arg v = do {
          found \<leftarrow> vfs_find_child v (vfs_cwd v) a;
          if found = 0 then Some None
          else do { n \<leftarrow> nodes v found; if nd_type n \<noteq> VFS_DIR then Some None else Some (Some found) } }"
        using Some by (simp add: ls_target_def vfs_get_cwd_def)
      have spec: "fst (fs_spec t (Ls arg) ps) =
          (if is_directory t (ps @ [c_string a]) then listing t (ps @ [c_string a])
           else chars ''ls: not a directory: '' @ c_string a @ chars ''\<newline>'')"
        unfolding Some fs_spec.simps using 3 by (simp only: Let_def if_False fst_conv)
      from ok at(1) show ?thesis
      proof (cases rule: child_at_path [where nm = a])
        case missing
        then have "\<not> is_directory t (ps @ [c_string a])" using t by (simp add: is_directory_def)
        with missing spec show ?thesis unfolding ls by (simp add: Some)
      next
        case (found b m)
        note d = at_path_directory [OF ok found(3)]
        have "nodes v b = Some m" using found(3) by (simp add: at_path_def)
        with found spec d t show ?thesis unfolding ls by (cases "nd_type m = VFS_DIR") (auto simp: Some)
      qed
    qed
  qed
qed

lemma command_ls_refines:
  assumes rel: "fs_rel t (v, c) (ps, r)"
  shows "\<exists>c'. command_ls io arg v c = Some c' \<and> fs_rel t (v, c') (ps, roll_text (fst (fs_spec t (Ls arg) ps)) r)"
proof -
  obtain n where ok: "fs_ok v" "view v = t" and at: "at_path v (vfs_cwd v) n ps" "nd_type n = VFS_DIR"
    and c: "shows_roll c r" by (rule fs_relD [OF rel])
  have keep: "fs_rel t (v, c') (ps, r')" if "shows_roll c' r'" for c' :: "'a console" and r'
    using fs_relI [OF ok at that] by simp
  note tgt = ls_target_cases [OF rel, of arg]
  then consider a where "ls_target arg v = Some None" "arg = Some a"
      "fst (fs_spec t (Ls arg) ps) = chars ''ls: not a directory: '' @ c_string a @ chars ''\<newline>''"
    | b m qs where "ls_target arg v = Some (Some b)" "at_path v b m qs" "nd_type m = VFS_DIR"
      "fst (fs_spec t (Ls arg) ps) = listing t qs"
    by (auto split: option.splits)
  then show ?thesis
  proof cases
    case 1
    have "0 \<notin> set (chars ''ls: not a directory: '')" by simp
    from message_shows [OF c this] 1 show ?thesis
      by (auto simp: command_ls_def simp del: chars_simps fs_spec.simps intro: keep)
  next
    case 2
    from listing_shows [OF ok(1) 2(2,3) c] obtain c' where
      "(if nd_child_count m = 0 then Some (print_text io (chars ''(empty)\<newline>'') c)
        else ls_loop io (nodes v) m 0 c) = Some c'" "shows_roll c' (roll_text (listing (view v) qs) r)" by blast
    moreover from this(2) have "fs_rel t (v, c') (ps, roll_text (listing t qs) r)" unfolding ok(2) by (rule keep)
    ultimately show ?thesis
      using 2 by (intro exI [of _ c']) (simp add: command_ls_def at_path_def del: chars_simps fs_spec.simps)
  qed
qed

lemma command_cd_refines:
  assumes rel: "fs_rel t (v, c) (ps, r)"
  shows "\<exists>v' c'. command_cd io arg v c = Some (v', c') \<and>
    fs_rel t (v', c') (snd (fs_spec t (Cd arg) ps), roll_text (fst (fs_spec t (Cd arg) ps)) r)"
proof -
  obtain n where ok: "fs_ok v" "view v = t" and at: "at_path v (vfs_cwd v) n ps" "nd_type n = VFS_DIR"
    and c: "shows_roll c r" and n: "nodes v (vfs_cwd v) = Some n" by (rule fs_relD [OF rel])
  have keep: "fs_rel t (v, c') (ps, r')" if "shows_roll c' r'" for c' :: "'a console" and r'
    using fs_relI [OF ok at that] by simp
  obtain rt where root: "at_path v (vfs_root v) rt []" "nd_type rt = VFS_DIR" by (rule root_at_path [OF ok(1)])
  show ?thesis
  proof (cases arg)
    case None
    with fs_relI [OF ok root c] show ?thesis by (auto simp: command_cd_def vfs_set_cwd_def vfs_get_root_def)
  next
    case (Some a)
    consider "c_string a = chars ''/''" | "c_string a = chars ''..''"
      | "c_string a \<noteq> chars ''/''" "c_string a \<noteq> chars ''..''" by blast
    then show ?thesis
    proof cases
      case 1
      with fs_relI [OF ok root c] Some show ?thesis
        by (auto simp: command_cd_def vfs_set_cwd_def vfs_get_root_def)
    next
      case 2
      then have cd: "command_cd io arg v c =
          (if nd_parent n \<noteq> 0 then Some (v\<lparr>vfs_cwd := nd_parent n\<rparr>, c) else Some (v, c))"
        using Some n by (simp add: command_cd_def vfs_get_cwd_def vfs_set_cwd_def)
      have spec: "fs_spec t (Cd arg) ps = ([], butlast ps)" using 2 Some by simp
      show ?thesis
      proof (cases "nd_parent n = 0")
        case True
        with parent_at_path [OF ok(1) at(1)] have "butlast ps = ps" by simp
        with True keep [OF c] show ?thesis unfolding cd spec by simp
      next
        case False
        with parent_at_path [OF ok(1) at(1)] obtain p where
          "at_path v (nd_parent n) p (butlast ps)" "nd_type p = VFS_DIR" by auto
        from fs_relI [OF ok this c] False show ?thesis unfolding cd spec by simp
      qed
    next
      case 3
      then have cd: "command_cd io arg v c = do {
          found \<leftarrow> vfs_find_child v (vfs_cwd v) a;
          dir \<leftarrow> (if found = 0 then Some False else do { n \<leftarrow> nodes v found; Some (nd_type n = VFS_DIR) });
          if \<not> dir
          then Some (v, print_text io (chars ''\<newline>'') (print_text io a
                      (print_text io (chars ''cd: no such directory: '') c)))
          else Some (v\<lparr>vfs_cwd := found\<rparr>, c) }"
        unfolding command_cd_def vfs_get_cwd_def vfs_set_cwd_def using Some by simp
      have spec: "fs_spec t (Cd arg) ps =
          (if is_directory t (ps @ [c_string a]) then ([], ps @ [c_string a])
           else (chars ''cd: no such directory: '' @ c_string a @ chars ''\<newline>'', ps))"
        unfolding Some fs_spec.simps using 3 by (simp only: Let_def if_False)
      have "0 \<notin> set (chars ''cd: no such directory: '')" by simp
      note msg = message_shows [OF c this, of _ a]
      from ok(1) at(1) show ?thesis
      proof (cases rule: child_at_path [where nm = a])
        case missing
        then have "\<not> is_directory t (ps @ [c_string a])" using ok(2) by (simp add: is_directory_def)
        with missing spec msg show ?thesis unfolding cd by (auto simp del: chars_simps intro: keep)
      next
        case (found b m)
        note d = at_path_directory [OF ok(1) found(3), unfolded ok(2)]
        have m: "nodes v b = Some m" using found(3) by (simp add: at_path_def)
        show ?thesis
        proof (cases "nd_type m = VFS_DIR")
          case True
          with d have "fs_spec t (Cd arg) ps = ([], ps @ [c_string a])" unfolding spec by simp
          with True found m fs_relI [OF ok found(3) True c] show ?thesis unfolding cd by simp
        next
          case False
          with d have "fs_spec t (Cd arg) ps = (chars ''cd: no such directory: '' @ c_string a @ chars ''\<newline>'', ps)"
            unfolding spec by simp
          with False found m msg show ?thesis unfolding cd by (auto simp del: chars_simps intro: keep)
        qed
      qed
    qed
  qed
qed
lemma print_cwd_refines:
  assumes rel: "fs_rel t (v, c) (ps, r)"
  shows "\<exists>c1. vfs_print_cwd_path io v c = Some c1 \<and>
      shows_roll c1 (roll_text (if ps = [] then chars ''/'' else path_text ps) r)
      \<and> 0 \<notin> set (if ps = [] then chars ''/'' else path_text ps)"
proof -
  obtain n where ok: "fs_ok v" "view v = t" and at: "at_path v (vfs_cwd v) n ps" "nd_type n = VFS_DIR"
    and c: "shows_roll c r" and n: "nodes v (vfs_cwd v) = Some n" by (rule fs_relD [OF rel])
  obtain rt where root: "at_path v (vfs_root v) rt []" "nd_parent rt = 0" by (rule root_at_path [OF ok(1)])
  show ?thesis
  proof (cases "vfs_cwd v = vfs_root v")
    case True
    with root at have "ps = []" by (simp add: at_path_def)
    with True c show ?thesis
      by (simp add: vfs_print_cwd_path_def print_text_shows(1) [of c r] del: chars_simps) simp
  next
    case False
    have "nd_parent n \<noteq> 0" using parent_at_path [OF ok(1) at(1)] False by auto
    then have "ps \<noteq> []" using parent_at_path [OF ok(1) at(1)] by auto
    have path: "path_names (nodes v) (vfs_cwd v) = Some ps" using at by (simp add: at_path_def)
    have "\<forall>nm \<in> set ps. 0 \<notin> set nm" using path_exists [OF fs_ok_store [OF ok(1)] n] path by auto
    then have "0 \<notin> set (path_text ps)" by (auto simp: path_text_def)
    moreover obtain c1 where "print_path_recursive io (nodes v) (vfs_cwd v) c = Some c1"
      "shows_roll c1 (roll_text (path_text ps) r)"
      using print_path_shows [OF fs_ok_store [OF ok(1)] n c, of io] path by auto
    ultimately show ?thesis using False \<open>ps \<noteq> []\<close> by (simp add: vfs_print_cwd_path_def)
  qed
qed

lemma command_pwd_refines:
  assumes rel: "fs_rel t (v, c) (ps, r)"
  shows "\<exists>c'. command_pwd io v c = Some c' \<and> fs_rel t (v, c') (ps, roll_text (fst (fs_spec t Pwd ps)) r)"
proof -
  obtain n where ok: "fs_ok v" "view v = t" and at: "at_path v (vfs_cwd v) n ps" "nd_type n = VFS_DIR"
    and c: "shows_roll c r" and n: "nodes v (vfs_cwd v) = Some n" by (rule fs_relD [OF rel])
  have keep: "fs_rel t (v, c') (ps, r')" if "shows_roll c' r'" for c' :: "'a console" and r'
    using fs_relI [OF ok at that] by simp
  obtain c1 where c1: "vfs_print_cwd_path io v c = Some c1"
      "shows_roll c1 (roll_text (if ps = [] then chars ''/'' else path_text ps) r)"
      "0 \<notin> set (if ps = [] then chars ''/'' else path_text ps)" using print_cwd_refines [OF rel, of io] by (elim exE conjE)
  have "0 \<notin> set (chars ''\<newline>'')" by simp
  from keep [OF shows_more_chars [OF c1(2,3) this, of io]] c1(1) show ?thesis
    by (simp add: command_pwd_def del: chars_simps)
qed

lemma command_cat_refines:
  assumes rel: "fs_rel t (v, c) (ps, r)"
  shows "\<exists>c'. command_cat io arg v c = Some c' \<and> fs_rel t (v, c') (ps, roll_text (fst (fs_spec t (Cat arg) ps)) r)"
proof -
  obtain n where ok: "fs_ok v" "view v = t" and at: "at_path v (vfs_cwd v) n ps" "nd_type n = VFS_DIR"
    and c: "shows_roll c r" by (rule fs_relD [OF rel])
  have keep: "fs_rel t (v, c') (ps, r')" if "shows_roll c' r'" for c' :: "'a console" and r'
    using fs_relI [OF ok at that] by simp
  show ?thesis
  proof (cases arg)
    case None
    with print_text_shows(1) [OF c] show ?thesis
      by (auto simp: command_cat_def simp del: chars_simps intro: keep)
  next
    case (Some a)
    have "0 \<notin> set (chars ''cat: no such file: '')" by simp
    note msg = message_shows [OF c this, of _ a]
    have cat: "command_cat io arg v c = do {
        found \<leftarrow> vfs_find_child v (vfs_cwd v) a;
        node \<leftarrow> (if found = 0 then Some None
                 else do { n \<leftarrow> nodes v found; Some (if nd_type n = VFS_FILE then Some n else None) });
        case node of
          None \<Rightarrow> Some (print_text io (chars ''\<newline>'') (print_text io a
                    (print_text io (chars ''cat: no such file: '') c)))
        | Some n \<Rightarrow> Some (print_text io (chars ''\<newline>'') (print_text io (nd_content n) c)) }"
      unfolding command_cat_def vfs_get_cwd_def Some by (simp only: option.case)
    have spec: "fst (fs_spec t (Cat arg) ps) = (case t (ps @ [c_string a]) of
         Some (File content) \<Rightarrow> content @ chars ''\<newline>''
       | _ \<Rightarrow> chars ''cat: no such file: '' @ c_string a @ chars ''\<newline>'')"
      unfolding Some fs_spec.simps by (simp only: Let_def fst_conv)
    from ok(1) at(1) show ?thesis
    proof (cases rule: child_at_path [where nm = a])
      case missing
      with ok(2) have "fst (fs_spec t (Cat arg) ps) = chars ''cat: no such file: '' @ c_string a @ chars ''\<newline>''"
        unfolding spec by simp
      with missing msg show ?thesis unfolding cat by (auto simp del: chars_simps intro: keep)
    next
      case (found b m)
      note v = at_path_view [OF ok(1) found(3), unfolded ok(2)]
      have m: "nodes v b = Some m" using found(3) by (simp add: at_path_def)
      show ?thesis
      proof (cases "nd_type m")
        case VFS_DIR
        with v have "fst (fs_spec t (Cat arg) ps) = chars ''cat: no such file: '' @ c_string a @ chars ''\<newline>''"
          unfolding spec by simp
        with VFS_DIR found m msg show ?thesis unfolding cat by (auto simp del: chars_simps intro: keep)
      next
        case VFS_FILE
        with v have s: "fst (fs_spec t (Cat arg) ps) = c_string (nd_content m) @ chars ''\<newline>''"
          unfolding spec by simp
        have z: "0 \<notin> set (chars ''\<newline>'')" "0 \<notin> set (c_string (nd_content m))" by simp_all
        have "shows_roll (print_text io (nd_content m) c) (roll_text (c_string (nd_content m)) r)"
          unfolding roll_text_c_string by (rule print_text_shows(1) [OF c])
        from shows_more_chars [OF this z(2,1)] s VFS_FILE found m show ?thesis
          unfolding cat by (auto simp del: chars_simps intro: keep)
      qed
    qed
  qed
qed

text \<open>Every command returns, and does what its specification says.\<close>

definition fs_unit :: "'d ports \<Rightarrow> fs_op \<Rightarrow> vfs \<times> 'd console \<Rightarrow> (unit \<times> vfs \<times> 'd console) option" where
  "fs_unit io x s = map_option (Pair ()) (fs_step io x s)"

definition fs_print :: "fs_view \<Rightarrow> fs_op \<Rightarrow> u8 list list \<times> roll \<Rightarrow> unit \<times> u8 list list \<times> roll" where
  "fs_print t x a = (case fs_spec t x (fst a) of (s, ps) \<Rightarrow> ((), ps, roll_text s (snd a)))"

lemma fs_step_refines:
  assumes rel: "fs_rel t (v, c) (ps, r)"
  shows "\<exists>s'. fs_step io x (v, c) = Some s' \<and>
    fs_rel t s' (snd (fs_spec t x ps), roll_text (fst (fs_spec t x ps)) r)"
proof -
  have keep: "snd (fs_spec t (Ls arg) ps) = ps" "snd (fs_spec t (Cat arg) ps) = ps" for arg
    by (cases arg; simp add: Let_def)+
  show ?thesis
  proof (cases x)
    case (Ls a)
    with command_ls_refines [OF rel, of io a] keep(1) show ?thesis by (auto simp del: fs_spec.simps)
  next
    case (Cd a)
    with command_cd_refines [OF rel, of io a] show ?thesis by (auto simp del: fs_spec.simps)
  next
    case Pwd
    have "snd (fs_spec t Pwd ps) = ps" by simp
    with Pwd command_pwd_refines [OF rel, of io] show ?thesis by (auto simp del: fs_spec.simps)
  next
    case (Cat a)
    with command_cat_refines [OF rel, of io a] keep(2) show ?thesis by (auto simp del: fs_spec.simps)
  qed
qed

interpretation fs: total_simulation "fs_unit io" "fs_print t" "fs_rel t" for io :: "'d ports" and t
proof
  fix s :: "vfs \<times> 'd console" and a x assume rel: "fs_rel t s a"
  obtain v c ps r where "s = (v, c)" "a = (ps, r)" by (cases s, cases a)
  with rel fs_step_refines [of t v c ps r io x]
  show "\<exists>s'. fs_unit io x s = Some (fst (fs_print t x a), s') \<and> fs_rel t s' (snd (fs_print t x a))"
    by (auto simp: fs_unit_def fs_print_def split_beta simp del: fs_spec.simps)
qed
end
