(* ===== verification/VfsInit.thy ===== *)
theory VfsInit
  imports FsCommands
begin

text \<open>
  How the in-RAM file system comes about: what creating a node does to the view of the tree,
  and the tree \<open>vfs_init\<close> (\<^verbatim>\<open>kernel/fs/vfs.c\<close>) builds on a fresh heap.
\<close>

section \<open>Adding a node to the tree\<close>

lemma add_node_apply:
  assumes "a \<notin> dom N" and "N (nd_parent n) = Some p" and "nd_parent n \<noteq> 0"
  shows "add_node a n N b = (if b = a then Some n else if b = nd_parent n then Some (add_child a p) else N b)"
  using assms by (auto simp: add_node_def)

lemma resolve_add_node:
  assumes ok: "store_ok N" and root: "N r = Some rt" "nd_parent rt = 0"
    and a: "a \<noteq> 0" "a \<notin> dom N" and n: "nd_child_count n = 0"
    and p: "N (nd_parent n) = Some p" "nd_child_count p < 16"
    and at: "resolve N r ps = Some (nd_parent n)"
    and new: "map_of (entries N (nd_parent n)) (c_string (nd_name n)) = None"
  shows "resolve (add_node a n N) r qs = (if qs = ps @ [c_string (nd_name n)] then Some a else resolve N r qs)"
proof (induction qs rule: rev_induct)
  case (snoc x xs)
  have par: "nd_parent n \<noteq> 0" "nd_parent n \<noteq> a" using ok p a by (auto simp: store_ok_def)
  have ent: "entries (add_node a n N) b = (if b = a then []
      else if b = nd_parent n then entries N b @ [(c_string (nd_name n), a)] else entries N b)" for b
    using entries_add_node [OF ok a n disjI2, of p b] p par by auto
  show ?case
  proof (cases "xs = ps @ [c_string (nd_name n)]")
    case True
    with snoc have "resolve (add_node a n N) r xs = Some a" by simp
    then have "resolve (add_node a n N) r (xs @ [x]) = None" by (simp add: resolve_append ent)
    moreover have "resolve N r (xs @ [x]) = None" using True at new by (simp add: resolve_append)
    ultimately show ?thesis using True by simp
  next
    case other: False
    show ?thesis
    proof (cases "resolve N r xs")
      case None
      with at have "xs \<noteq> ps" by auto
      with None snoc other show ?thesis by (simp add: resolve_append)
    next
      case (Some b)
      from resolve_path [OF ok root this] have b: "path_names N b = Some xs" "b \<in> dom N" by auto
      then have "b \<noteq> a" using a by auto
      moreover have "b = nd_parent n \<longleftrightarrow> xs = ps"
        using b resolve_path [OF ok root at] at Some by auto
      ultimately show ?thesis
        using snoc other Some new by (auto simp: resolve_append ent map_add_def split: option.splits)
    qed
  qed
qed simp

lemma linked_add_node:
  assumes ok: "store_ok N" and lk: "linked N r"
    and a: "a \<noteq> 0" "a \<notin> dom N" and n: "nd_child_count n = 0"
    and p: "N (nd_parent n) = Some p" "nd_child_count p < 16"
    and new: "map_of (entries N (nd_parent n)) (c_string (nd_name n)) = None"
  shows "linked (add_node a n N) r"
proof -
  have par: "nd_parent n \<noteq> 0" "nd_parent n \<noteq> a" using ok p a by (auto simp: store_ok_def)
  note M = add_node_apply [OF a(2) p(1) par(1)]
  have ent: "entries (add_node a n N) b = (if b = a then []
      else if b = nd_parent n then entries N b @ [(c_string (nd_name n), a)] else entries N b)" for b
    using entries_add_node [OF ok a n disjI2, of p b] p par by auto
  have "if nd_parent m = 0 then b = r else b \<in> snd ` set (entries (add_node a n N) (nd_parent m))"
    if m: "add_node a n N b = Some m" for b m
  proof (cases "b = a")
    case True
    then have "m = n" using m by (simp add: M)
    then show ?thesis unfolding True using par by (simp add: ent)
  next
    case False
    then obtain k where k: "N b = Some k" "nd_parent m = nd_parent k"
      using m p(1) by (auto simp: M split: if_splits)
    have "nd_parent k \<noteq> 0 \<longrightarrow> nd_parent k \<in> dom N" using ok k(1) by (auto simp: store_ok_def node_ok_def)
    then have "nd_parent k \<noteq> a" using a by auto
    moreover have "if nd_parent k = 0 then b = r else b \<in> snd ` set (entries N (nd_parent k))"
      using lk k(1) unfolding linked_def by blast
    ultimately show ?thesis using k(2) by (simp add: ent) auto
  qed
  moreover have "distinct (map fst (entries (add_node a n N) b))" for b
  proof -
    have "distinct (map fst (entries N b))" using lk unfolding linked_def by blast
    moreover have "c_string (nd_name n) \<notin> fst ` set (entries N (nd_parent n))"
      using new by (simp add: map_of_eq_None_iff)
    ultimately show ?thesis by (auto simp: ent)
  qed
  ultimately show ?thesis unfolding linked_def by blast
qed

text \<open>Where the new entry goes, and what there is at its path.\<close>

definition node_entry :: "vfs_node \<Rightarrow> fs_entry" where
  "node_entry n = (if nd_type n = VFS_DIR then Directory [] else File (c_string (nd_content n)))"

lemma add_node_view:
  assumes ok: "fs_ok v" and at: "at_path v (nd_parent n) p ps" and dir: "nd_type p = VFS_DIR"
    and a: "a \<noteq> 0" "a \<notin> dom (nodes v)" and n: "nd_child_count n = 0"
    and room: "nd_child_count p < 16"
    and new: "view v (ps @ [c_string (nd_name n)]) = None"
    and st: "store_ok (add_node a n (nodes v))"
  shows "fs_ok (v\<lparr>nodes := add_node a n (nodes v)\<rparr>)"
    and "view (v\<lparr>nodes := add_node a n (nodes v)\<rparr>) = (view v)
      (ps \<mapsto> Directory (map fst (entries (nodes v) (nd_parent n)) @ [c_string (nd_name n)]),
       ps @ [c_string (nd_name n)] \<mapsto> node_entry n)"
proof -
  let ?N = "nodes v" and ?v = "v\<lparr>nodes := add_node a n (nodes v)\<rparr>" and ?nm = "c_string (nd_name n)"
  obtain r where r: "at_path v (vfs_root v) r []" "nd_type r = VFS_DIR" "nd_parent r = 0"
    by (rule root_at_path [OF ok])
  have root: "?N (vfs_root v) = Some r" using r by (simp add: at_path_def)
  have s: "store_ok ?N" "linked ?N (vfs_root v)" using ok by (auto simp: fs_ok_def)
  have p: "?N (nd_parent n) = Some p" using at by (simp add: at_path_def)
  have par: "nd_parent n \<noteq> 0" "nd_parent n \<noteq> a" using s p a by (auto simp: store_ok_def)
  note res = at_path_resolves [OF ok at]
  have none: "map_of (entries ?N (nd_parent n)) ?nm = None"
  proof (rule ccontr)
    assume "map_of (entries ?N (nd_parent n)) ?nm \<noteq> None"
    then obtain b where b: "map_of (entries ?N (nd_parent n)) ?nm = Some b" by blast
    from entries_child [OF s(1) b] obtain m where "?N b = Some m" by metis
    with b res new show False by (simp add: view_def resolve_append)
  qed
  note M = add_node_apply [OF a(2) p par(1)]
  have ent: "entries (add_node a n ?N) b = (if b = a then []
      else if b = nd_parent n then entries ?N b @ [(?nm, a)] else entries ?N b)" for b
    using entries_add_node [OF s(1) a n disjI2, of p b] p room par by auto
  have "linked (add_node a n ?N) (vfs_root v)" by (rule linked_add_node [OF s a n p room none])
  moreover have "nd_type (the (add_node a n ?N (nd_parent m))) = VFS_DIR"
    if m: "add_node a n ?N b = Some m" "nd_parent m \<noteq> 0" for b m
  proof -
    obtain k where k: "?N (nd_parent m) = Some k" "nd_type k = VFS_DIR"
    proof (cases "b = a")
      case True
      with m p dir that show ?thesis by (simp add: M)
    next
      case False
      then obtain k where k: "?N b = Some k" "nd_parent m = nd_parent k"
        using m p by (auto simp: M split: if_splits)
      then have "nd_parent k \<in> dom ?N" using s(1) m(2) by (auto simp: store_ok_def node_ok_def)
      moreover have "nd_type (the (?N (nd_parent k))) = VFS_DIR" using ok k m(2) by (auto simp: fs_ok_def)
      ultimately show ?thesis using that k(2) by auto
    qed
    then show ?thesis using a p by (auto simp: M)
  qed
  moreover have "vfs_root v \<noteq> a" using root a by auto
  then have "\<exists>r. add_node a n ?N (vfs_root v) = Some r \<and> nd_parent r = 0 \<and> nd_type r = VFS_DIR"
    using root r p by (auto simp: M)
  ultimately show "fs_ok ?v" using st by (simp add: fs_ok_def)
  have "view ?v qs = ((view v)(ps \<mapsto> Directory (map fst (entries ?N (nd_parent n)) @ [?nm]), ps @ [?nm] \<mapsto> node_entry n)) qs"
    for qs
  proof -
    have resn: "resolve (add_node a n ?N) (vfs_root v) qs = (if qs = ps @ [?nm] then Some a else resolve ?N (vfs_root v) qs)"
      by (rule resolve_add_node [OF s(1) root r(3) a n p room res none])
    show ?thesis
    proof (cases "qs = ps @ [?nm]")
      case True
      then have "resolve (add_node a n ?N) (vfs_root v) qs = Some a" by (subst resn) simp
      then have "view ?v qs = Some (node_entry n)" by (simp add: view_def M ent node_entry_def cong: if_cong)
      with True show ?thesis by simp
    next
      case False
      show ?thesis
      proof (cases "resolve ?N (vfs_root v) qs")
        case None
        with res have "qs \<noteq> ps" by auto
        with None False show ?thesis by (simp add: view_def resn)
      next
        case (Some b)
        from resolve_path [OF s(1) root r(3) this] have b: "path_names ?N b = Some qs" "b \<in> dom ?N" by auto
        have "b = nd_parent n \<longleftrightarrow> qs = ps" using b at Some res by (auto simp: at_path_def)
        moreover have "b \<noteq> a" using b(2) a by auto
        ultimately show ?thesis using False Some b(2) p dir by (auto simp: view_def resn M ent)
      qed
    qed
  qed
  then show "view ?v = (view v)(ps \<mapsto> Directory (map fst (entries ?N (nd_parent n)) @ [?nm]), ps @ [?nm] \<mapsto> node_entry n)"
    by blast
qed

section \<open>Creating files and directories\<close>

lemma new_node_name:
  assumes "fresh_ok J"
  shows "c_string (nd_name (new_node (J a) nm type parent)) = take 31 (c_string nm)"
    and "c_string (nd_name (file_node (J a) nm content parent)) = take 31 (c_string nm)"
    and "node_entry (new_node (J a) nm VFS_DIR parent) = Directory []"
    and "node_entry (file_node (J a) nm content parent) = File (take 255 (c_string content))"
  using assms
  by (simp_all add: new_node_def file_node_def Let_def c_string_name_copy fresh_ok_def node_entry_def)

lemma file_node_simps [simp]:
  "nd_parent (file_node n nm content parent) = parent" "nd_child_count (file_node n nm content parent) = 0"
  by (simp_all add: file_node_def Let_def)

text \<open>A heap in which the last block is free and has room for \<open>k\<close> more nodes.\<close>

definition room_for :: "nat \<Rightarrow> vfs \<times> heap \<Rightarrow> bool" where
  "room_for k s \<longleftrightarrow>
     (\<exists>e us b sz. heap_inv e (us @ [(b, sz, True)]) (snd s) \<and> (\<forall>(a, s, f) \<in> set us. \<not> f) \<and>
        dom (nodes (fst s)) \<subseteq> fst ` live us \<and> 384 * k + 32 \<le> unat sz)"

lemma alloc_room:
  assumes "room_for (Suc k) (v, h)"
  shows "\<exists>a h'. kmalloc sizeof_vfs_node h = Some (a, h') \<and> a \<noteq> 0 \<and>
    (\<forall>w. dom (nodes w) \<subseteq> insert a (dom (nodes v)) \<longrightarrow> room_for k (w, h'))"
proof -
  obtain e us b sz where r: "heap_inv e (us @ [(b, sz, True)]) h" "\<forall>(a, s, f) \<in> set us. \<not> f"
    "dom (nodes v) \<subseteq> fst ` live us" "384 * Suc k + 32 \<le> unat sz"
    using assms by (auto simp: room_for_def)
  have n: "sizeof_vfs_node \<noteq> 0" "368 = align_up sizeof_vfs_node 8" by (simp_all add: sizeof_vfs_node_def align_up_def)
  have "unat (368 :: u32) + 32 \<le> unat sz" using r(4) by simp
  from kmalloc_last_block [OF r(1,2) n this] obtain h' where
    h': "b + 16 \<noteq> 0" "kmalloc sizeof_vfs_node h = Some (b + 16, h')"
      "heap_inv e (us @ [(b, 368, False), (b + 16 + 368, sz - 368 - 16, True)]) h'" by blast
  have "unat (sz - 368 - 16) = unat sz - 384"
  proof -
    have "(384 :: u32) \<le> sz" using r(4) by (simp add: word_le_nat_alt)
    moreover have "sz - 368 - 16 = sz - 384" by simp
    ultimately show ?thesis by (simp only: unat_sub) simp
  qed
  then have sz: "384 * k + 32 \<le> unat (sz - 368 - 16)" using r(4) by simp
  have inv: "heap_inv e ((us @ [(b, 368, False)]) @ [(b + 16 + 368, sz - 368 - 16, True)]) h'" using h'(3) by simp
  have used: "\<forall>(a, s, f) \<in> set (us @ [(b, 368, False)]). \<not> f" using r(2) by auto
  have "room_for k (w, h')" if "dom (nodes w) \<subseteq> insert (b + 16) (dom (nodes v))" for w
  proof -
    have "dom (nodes w) \<subseteq> fst ` live (us @ [(b, 368, False)])" using that r(3) by auto
    then show ?thesis unfolding room_for_def using inv used sz by (simp only: fst_conv snd_conv) blast
  qed
  with h'(1,2) show ?thesis by blast
qed

lemma room_vfs_ok: "room_for k (v, h) \<Longrightarrow> store_ok (nodes v) \<Longrightarrow> vfs_ok (v, h)"
  unfolding room_for_def vfs_ok_def heap_held_def by fastforce

lemma alloc_pointer: "vfs_alloc_node J nm type parent (v, h) = Some (a, v', h') \<Longrightarrow> \<exists>h1. kmalloc sizeof_vfs_node h = Some (a, h1) \<and> h' = h1"
  by (auto simp: vfs_alloc_node_def Let_def split: Option.bind_splits if_splits)

lemma create_pointer:
  "vfs_create_file J parent nm (Some content) (v, h) = Some (a, v', h') \<Longrightarrow> \<exists>h1. kmalloc sizeof_vfs_node h = Some (a, h1) \<and> h' = h1"
  unfolding vfs_create_file_def by (auto dest!: alloc_pointer split: Option.bind_splits if_splits)

text \<open>\<open>v'\<close> is \<open>v\<close> with the node \<open>n\<close> added at \<open>a\<close>, below the directory \<open>p\<close> at \<open>ps\<close>.\<close>

definition grown :: "vfs \<Rightarrow> u8 list list \<Rightarrow> vfs_node \<Rightarrow> u32 \<Rightarrow> vfs_node \<Rightarrow> vfs \<Rightarrow> bool" where
  "grown v ps p a n v' \<longleftrightarrow>
     fs_ok v' \<and> v' = v\<lparr>nodes := nodes v'\<rparr> \<and>
     view v' = (view v)
       (ps \<mapsto> Directory (map fst (entries (nodes v) (nd_parent n)) @ [c_string (nd_name n)]),
        ps @ [c_string (nd_name n)] \<mapsto> node_entry n) \<and>
     at_path v' a n (ps @ [c_string (nd_name n)]) \<and> at_path v' (nd_parent n) (add_child a p) ps \<and>
     (\<forall>b m qs. at_path v b m qs \<longrightarrow> b \<noteq> nd_parent n \<longrightarrow> at_path v' b m qs) \<and>
     (\<forall>b. entries (nodes v') b =
       (if b = a then [] else if b = nd_parent n then entries (nodes v) b @ [(c_string (nd_name n), a)]
        else entries (nodes v) b))"

lemma add_node_grown:
  assumes ok: "fs_ok v" and at: "at_path v (nd_parent n) p ps" and dir: "nd_type p = VFS_DIR"
    and a: "a \<noteq> 0" "a \<notin> dom (nodes v)" and n: "nd_child_count n = 0"
    and room: "nd_child_count p < 16"
    and new: "view v (ps @ [c_string (nd_name n)]) = None"
    and st: "store_ok (add_node a n (nodes v))"
  shows "grown v ps p a n (v\<lparr>nodes := add_node a n (nodes v)\<rparr>)"
proof -
  let ?v = "v\<lparr>nodes := add_node a n (nodes v)\<rparr>"
  note ok' = add_node_view [OF assms]
  obtain r where r: "at_path v (vfs_root v) r []" "nd_parent r = 0" by (rule root_at_path [OF ok])
  obtain r' where r': "at_path ?v (vfs_root ?v) r' []" "nd_parent r' = 0" by (rule root_at_path [OF ok'(1)])
  have s: "store_ok (nodes v)" using ok by (rule fs_ok_store)
  have p: "nodes v (nd_parent n) = Some p" using at by (simp add: at_path_def)
  have par: "nd_parent n \<noteq> 0" "nd_parent n \<noteq> a" using s p a by (auto simp: store_ok_def)
  note res = at_path_resolves [OF ok at]
  note M = add_node_apply [OF a(2) p par(1)]
  have none: "map_of (entries (nodes v) (nd_parent n)) (c_string (nd_name n)) = None"
  proof (rule ccontr)
    assume "map_of (entries (nodes v) (nd_parent n)) (c_string (nd_name n)) \<noteq> None"
    then obtain b where b: "map_of (entries (nodes v) (nd_parent n)) (c_string (nd_name n)) = Some b" by blast
    from entries_child [OF s b] obtain m where "nodes v b = Some m" by metis
    with b res new show False by (simp add: view_def resolve_append)
  qed
  have "nodes v (vfs_root v) = Some r" using r(1) by (simp add: at_path_def)
  note resn = resolve_add_node [OF s this r(2) a n p room res none]
  have "nodes ?v (vfs_root ?v) = Some r'" using r'(1) by (simp add: at_path_def)
  note path = resolve_path [OF fs_ok_store [OF ok'(1)] this r'(2)]
  have "at_path ?v a n (ps @ [c_string (nd_name n)])"
    using path [of "ps @ [c_string (nd_name n)]" a] resn [of "ps @ [c_string (nd_name n)]"] par
    by (simp add: at_path_def)
  moreover have old: "path_names (add_node a n (nodes v)) b = Some qs" if "at_path v b m qs" for b m qs
  proof -
    have "qs \<noteq> ps @ [c_string (nd_name n)]"
      using at_path_view [OF ok that] new by auto
    with path [of qs b] resn [of qs] at_path_resolves [OF ok that] show ?thesis by simp
  qed
  then have "\<forall>b m qs. at_path v b m qs \<longrightarrow> b \<noteq> nd_parent n \<longrightarrow> at_path ?v b m qs"
    using a(2) by (auto simp: at_path_def M)
  moreover have "at_path ?v (nd_parent n) (add_child a p) ps"
    using old [OF at] par by (simp add: at_path_def M)
  moreover have "entries (nodes ?v) b =
       (if b = a then [] else if b = nd_parent n then entries (nodes v) b @ [(c_string (nd_name n), a)]
        else entries (nodes v) b)" for b
    using entries_add_node [OF s a n disjI2, of p b] p room par by auto
  ultimately show ?thesis using ok' unfolding grown_def by simp
qed

lemma mkdir_room:
  assumes room: "room_for (Suc k) (v, h)" and ok: "fs_ok v" and J: "fresh_ok J" and at: "at_path v q p ps"
    and dir: "nd_type p = VFS_DIR" "nd_child_count p < 16" and new: "view v (ps @ [take 31 (c_string nm)]) = None"
  shows "\<exists>a v' h'. vfs_mkdir J q nm (v, h) = Some (a, v', h') \<and> room_for k (v', h') \<and>
    grown v ps p a (new_node (J a) nm VFS_DIR q) v'"
proof -
  have st: "store_ok (nodes v)" using ok by (rule fs_ok_store)
  have q: "q \<in> dom (nodes v)" using at by (auto simp: at_path_def)
  obtain a h' where a: "kmalloc sizeof_vfs_node h = Some (a, h')" "a \<noteq> 0"
    "\<forall>w. dom (nodes w) \<subseteq> insert a (dom (nodes v)) \<longrightarrow> room_for k (w, h')"
    using alloc_room [OF room] by blast
  obtain a1 h1 where r: "if a1 = 0 then vfs_alloc_node J nm VFS_DIR q (v, h) = Some (0, v, h1) \<and> vfs_ok (v, h1)
     else a1 \<notin> dom (nodes v) \<and>
       vfs_alloc_node J nm VFS_DIR q (v, h) =
         Some (a1, v\<lparr>nodes := add_node a1 (new_node (J a1) nm VFS_DIR q) (nodes v)\<rparr>, h1) \<and>
       (\<exists>L. heap_held h1 L \<and> insert a1 (dom (nodes v)) \<subseteq> fst ` L)"
    using alloc_node_run [OF room_vfs_ok [OF room st] J disjI2 [OF q], of nm VFS_DIR] by (elim exE) (rule that)
  have "a1 = a \<and> h1 = h'" using r a(1) by (auto dest: alloc_pointer split: if_splits)
  with r a(2) have fresh: "a \<notin> dom (nodes v)"
    and run: "vfs_mkdir J q nm (v, h) = Some (a, v\<lparr>nodes := add_node a (new_node (J a) nm VFS_DIR q) (nodes v)\<rparr>, h')"
    by (simp_all add: vfs_mkdir_def)
  have "store_ok (add_node a (new_node (J a) nm VFS_DIR q) (nodes v))"
    by (rule store_ok_add_node [OF st J disjI2 [OF q] a(2) fresh])
  then have "grown v ps p a (new_node (J a) nm VFS_DIR q) (v\<lparr>nodes := add_node a (new_node (J a) nm VFS_DIR q) (nodes v)\<rparr>)"
    using assms a(2) fresh by (intro add_node_grown) (simp_all add: new_node_name [OF J])
  moreover have "dom (add_node a (new_node (J a) nm VFS_DIR q) (nodes v)) = insert a (dom (nodes v))"
    using q by (intro dom_add_node) simp
  then have "room_for k (v\<lparr>nodes := add_node a (new_node (J a) nm VFS_DIR q) (nodes v)\<rparr>, h')"
    by (intro a(3) [rule_format]) simp
  ultimately show ?thesis using run by blast
qed

lemma create_room:
  assumes room: "room_for (Suc k) (v, h)" and ok: "fs_ok v" and J: "fresh_ok J" and at: "at_path v q p ps"
    and dir: "nd_type p = VFS_DIR" "nd_child_count p < 16" and new: "view v (ps @ [take 31 (c_string nm)]) = None"
  shows "\<exists>a v' h'. vfs_create_file J q nm (Some content) (v, h) = Some (a, v', h') \<and> room_for k (v', h') \<and>
    grown v ps p a (file_node (J a) nm content q) v'"
proof -
  have st: "store_ok (nodes v)" using ok by (rule fs_ok_store)
  have q: "q \<in> dom (nodes v)" using at by (auto simp: at_path_def)
  obtain a h' where a: "kmalloc sizeof_vfs_node h = Some (a, h')" "a \<noteq> 0"
    "\<forall>w. dom (nodes w) \<subseteq> insert a (dom (nodes v)) \<longrightarrow> room_for k (w, h')"
    using alloc_room [OF room] by blast
  obtain a1 h1 where r: "if a1 = 0 then vfs_create_file J q nm (Some content) (v, h) = Some (0, v, h1) \<and> vfs_ok (v, h1)
     else a1 \<notin> dom (nodes v) \<and>
       vfs_create_file J q nm (Some content) (v, h) =
         Some (a1, v\<lparr>nodes := add_node a1 (file_node (J a1) nm content q) (nodes v)\<rparr>, h1) \<and>
       vfs_ok (v\<lparr>nodes := add_node a1 (file_node (J a1) nm content q) (nodes v)\<rparr>, h1)"
    using create_file_run [OF room_vfs_ok [OF room st] J q, of nm content] by (elim exE) (rule that)
  have "a1 = a \<and> h1 = h'" using r a(1) by (auto dest: create_pointer split: if_splits)
  with r a(2) have fresh: "a \<notin> dom (nodes v)"
    and run: "vfs_create_file J q nm (Some content) (v, h) =
      Some (a, v\<lparr>nodes := add_node a (file_node (J a) nm content q) (nodes v)\<rparr>, h')"
    and "store_ok (add_node a (file_node (J a) nm content q) (nodes v))"
    by (simp_all add: vfs_ok_def)
  then have "grown v ps p a (file_node (J a) nm content q) (v\<lparr>nodes := add_node a (file_node (J a) nm content q) (nodes v)\<rparr>)"
    using assms a(2) by (intro add_node_grown) (simp_all add: new_node_name [OF J])
  moreover have "dom (add_node a (file_node (J a) nm content q) (nodes v)) = insert a (dom (nodes v))"
    using q by (intro dom_add_node) simp
  then have "room_for k (v\<lparr>nodes := add_node a (file_node (J a) nm content q) (nodes v)\<rparr>, h')"
    by (intro a(3) [rule_format]) simp
  ultimately show ?thesis using run by blast
qed
section \<open>The initial tree\<close>

lemma alloc_root:
  assumes "room_for (Suc k) (v, h)" and "nodes v = Map.empty" and J: "fresh_ok J"
  shows "\<exists>a h'. vfs_alloc_node J nm VFS_DIR 0 (v, h) = Some (a, v\<lparr>nodes := [a \<mapsto> new_node (J a) nm VFS_DIR 0]\<rparr>, h') \<and>
    (let v' = v\<lparr>nodes := [a \<mapsto> new_node (J a) nm VFS_DIR 0], vfs_root := a\<rparr>
     in room_for k (v', h') \<and> fs_ok v' \<and> view v' = [[] \<mapsto> Directory []] \<and>
       at_path v' a (new_node (J a) nm VFS_DIR 0) [] \<and> entries (nodes v') a = [])"
proof -
  obtain a h' where a: "kmalloc sizeof_vfs_node h = Some (a, h')" "a \<noteq> 0"
    "\<forall>w. dom (nodes w) \<subseteq> insert a (dom (nodes v)) \<longrightarrow> room_for k (w, h')"
    using alloc_room [OF assms(1)] by blast
  let ?n = "new_node (J a) nm VFS_DIR 0"
  let ?v = "v\<lparr>nodes := [a \<mapsto> ?n], vfs_root := a\<rparr>"
  have empty: "store_ok Map.empty" by (simp add: store_ok_def tree_ok_def)
  have st: "store_ok [a \<mapsto> ?n]"
    using store_ok_add_node [OF empty J, of 0 a nm VFS_DIR] a(2) by (simp add: add_node_def)
  have ent: "entries [a \<mapsto> ?n] b = []" for b by (simp add: entries_def)
  then have lk: "linked [a \<mapsto> ?n] a" by (simp add: linked_def)
  have ok: "fs_ok ?v" using st lk by (simp add: fs_ok_def)
  have at: "at_path ?v a ?n []" by (simp add: at_path_def) (subst path_names.simps, simp)
  have "view ?v qs = [[] \<mapsto> Directory []] qs" for qs
    by (cases qs) (simp_all add: view_def ent)
  then have "view ?v = [[] \<mapsto> Directory []]" by blast
  moreover have "room_for k (?v, h')" by (intro a(3) [rule_format]) simp
  moreover have "vfs_alloc_node J nm VFS_DIR 0 (v, h) = Some (a, v\<lparr>nodes := [a \<mapsto> ?n]\<rparr>, h')"
    using a(1,2) assms(2) by (simp add: vfs_alloc_node_def new_node_def Let_def)
  ultimately show ?thesis using ok at ent by (auto simp: Let_def)
qed

abbreviation (input) "kernel_name \<equiv> chars ''kernel''"
abbreviation (input) "shell_name \<equiv> chars ''shell''"
abbreviation (input) "readme_name \<equiv> chars ''README''"

definition boot_view :: fs_view where
  "boot_view =
     [[] \<mapsto> Directory [kernel_name, shell_name],
      [kernel_name] \<mapsto> Directory [readme_name],
      [shell_name] \<mapsto> Directory [readme_name],
      [kernel_name, readme_name] \<mapsto>
        File (chars ''AlderKernel in-RAM VFS.\<newline>This directory represents kernel space.''),
      [shell_name, readme_name] \<mapsto>
        File (chars ''zSlash shell space.\<newline>Add shell-related files here as they show up.'')]"

lemma grownD:
  assumes "grown v ps p a n v'"
  shows "fs_ok v'" "vfs_root v' = vfs_root v" "vfs_cwd v' = vfs_cwd v"
    "view v' = (view v)
       (ps \<mapsto> Directory (map fst (entries (nodes v) (nd_parent n)) @ [c_string (nd_name n)]),
        ps @ [c_string (nd_name n)] \<mapsto> node_entry n)"
    "at_path v' a n (ps @ [c_string (nd_name n)])" "at_path v' (nd_parent n) (add_child a p) ps"
    "\<And>b m qs. at_path v b m qs \<Longrightarrow> b \<noteq> nd_parent n \<Longrightarrow> at_path v' b m qs"
    "\<And>b. entries (nodes v') b =
       (if b = a then [] else if b = nd_parent n then entries (nodes v) b @ [(c_string (nd_name n), a)]
        else entries (nodes v) b)"
proof -
  have "v' = v\<lparr>nodes := nodes v'\<rparr>" using assms by (simp add: grown_def)
  from arg_cong [OF this, of vfs_root] arg_cong [OF this, of vfs_cwd]
  show "vfs_root v' = vfs_root v" "vfs_cwd v' = vfs_cwd v" by simp_all
qed (use assms in \<open>simp_all add: grown_def\<close>)

lemma add_child_count: "nd_child_count p < 15 \<Longrightarrow> nd_child_count (add_child a p) = nd_child_count p + 1"
  by (simp add: add_child_def word_less_nat_alt)

lemma at_path_inj: "fs_ok v \<Longrightarrow> at_path v a n ps \<Longrightarrow> at_path v b m ps \<Longrightarrow> a = b"
  using at_path_resolves [of v a n ps] at_path_resolves [of v b m ps] by simp

lemma at_path_path_neq: "at_path v a n ps \<Longrightarrow> at_path v b m qs \<Longrightarrow> ps \<noteq> qs \<Longrightarrow> a \<noteq> b"
  by (auto simp: at_path_def)

lemma vfs_init_room:
  assumes room: "room_for (j + 5) (v, h)" and empty: "nodes v = Map.empty" and J: "fresh_ok J"
  shows "\<exists>v' h'. vfs_init J (v, h) = Some (v', h') \<and> room_for j (v', h') \<and> fs_ok v' \<and>
    view v' = boot_view \<and> in_directory v' []"
proof -
  have five: "j + 5 = Suc (Suc (Suc (Suc (Suc j))))" by simp
  have dir: "nd_type (new_node n nm VFS_DIR q) = VFS_DIR" "nd_type (add_child a p) = nd_type p" for n nm q a p
    by simp_all
  have count: "nd_child_count (new_node n nm type q) < 16"
    "nd_child_count (add_child a (new_node n nm type q)) < 16" for n nm type q a
    by (simp_all add: add_child_def)
  let ?root = "\<lambda>r. new_node (J r) (chars ''/'') VFS_DIR 0"
  from alloc_root [OF room [unfolded five] empty J, of "chars ''/''"] obtain r h0 v0 where
    v0: "v0 = v\<lparr>nodes := [r \<mapsto> ?root r], vfs_root := r\<rparr>"
    and run0: "vfs_alloc_node J (chars ''/'') VFS_DIR 0 (v, h) = Some (r, v\<lparr>nodes := [r \<mapsto> ?root r]\<rparr>, h0)"
    and r0: "room_for (Suc (Suc (Suc (Suc j)))) (v0, h0)" "fs_ok v0" "view v0 = [[] \<mapsto> Directory []]"
      "at_path v0 r (?root r) []" "entries (nodes v0) r = []"
    unfolding Let_def by blast
  have root0: "vfs_root v0 = r" by (simp add: v0)
  have names: "take 31 (c_string kernel_name) = kernel_name" "take 31 (c_string shell_name) = shell_name"
    "take 31 (c_string readme_name) = readme_name" by simp_all
  have distinct: "kernel_name \<noteq> shell_name" "[kernel_name, readme_name] \<noteq> [shell_name, readme_name]" by simp_all
  note facts = new_node_name [OF J] new_node_simps file_node_simps names append_Nil append_Cons
  have "view v0 ([] @ [take 31 (c_string kernel_name)]) = None" by (simp only: facts r0(3)) simp
  from mkdir_room [OF r0(1,2) J r0(4) dir(1) count(1) this] obtain k v1 h1 where
    run1: "vfs_mkdir J r kernel_name (v0, h0) = Some (k, v1, h1)" and r1: "room_for (Suc (Suc (Suc j))) (v1, h1)"
    and g1: "grown v0 [] (?root r) k (new_node (J k) kernel_name VFS_DIR r) v1" by blast
  note g1 = grownD [OF g1, unfolded facts r0(3,5)]
  have kr: "r \<noteq> k" using at_path_path_neq [OF g1(5,6)] by simp
  have root1: "vfs_root v1 = r" using g1(2) root0 by simp
  have e1: "entries (nodes v1) r = [(kernel_name, k)]" "entries (nodes v1) k = []"
    using kr by (simp_all only: g1(8) r0(5) if_True if_False append_Nil) simp_all
  have view1: "view v1 = [[] \<mapsto> Directory [kernel_name], [kernel_name] \<mapsto> Directory []]"
    using g1(4) by simp
  have "view v1 ([] @ [take 31 (c_string shell_name)]) = None" by (simp only: facts view1) simp
  from mkdir_room [OF r1 g1(1) J g1(6) _ count(2) this] obtain s v2 h2 where
    run2: "vfs_mkdir J r shell_name (v1, h1) = Some (s, v2, h2)" and r2: "room_for (Suc (Suc j)) (v2, h2)"
    and g2: "grown v1 [] (add_child k (?root r)) s (new_node (J s) shell_name VFS_DIR r) v2" by (auto simp only: dir)
  note g2 = grownD [OF g2, unfolded facts e1 list.map fst_conv]
  have root2: "vfs_root v2 = r" using g2(2) root1 by simp
  have k2: "at_path v2 k (new_node (J k) kernel_name VFS_DIR r) [kernel_name]"
    using g2(7) [OF g1(5)] kr by blast
  have neq: "k \<noteq> s" "r \<noteq> s"
    using at_path_path_neq [OF k2 g2(5)] at_path_path_neq [OF g2(6,5)] distinct(1) by simp_all
  have e2: "entries (nodes v2) k = []" "entries (nodes v2) s = []"
    using kr neq by (simp_all add: g2(8) e1)
  have view2: "view v2 = [[] \<mapsto> Directory [kernel_name, shell_name], [kernel_name] \<mapsto> Directory [],
      [shell_name] \<mapsto> Directory []]"
    using g2(4) by (auto simp: view1 fun_eq_iff)
  let ?kc = "chars ''AlderKernel in-RAM VFS.\<newline>This directory represents kernel space.''"
  let ?sc = "chars ''zSlash shell space.\<newline>Add shell-related files here as they show up.''"
  have contents: "take 255 (c_string ?kc) = ?kc" "take 255 (c_string ?sc) = ?sc" by simp_all
  have "view v2 ([kernel_name] @ [take 31 (c_string readme_name)]) = None" by (simp only: facts view2) simp
  from create_room [OF r2 g2(1) J k2 dir(1) count(1) this, of ?kc] obtain f1 v3 h3 where
    run3: "vfs_create_file J k readme_name (Some ?kc) (v2, h2) = Some (f1, v3, h3)" and r3: "room_for (Suc j) (v3, h3)"
    and g3: "grown v2 [kernel_name] (new_node (J k) kernel_name VFS_DIR r) f1 (file_node (J f1) readme_name ?kc k) v3"
    by blast
  note g3 = grownD [OF g3, unfolded facts e2 contents list.map]
  have s3: "at_path v3 s (new_node (J s) shell_name VFS_DIR r) [shell_name]"
    using g3(7) [OF g2(5)] neq by blast
  have "s \<noteq> f1" using at_path_path_neq [OF s3 g3(5)] by simp
  then have e3: "entries (nodes v3) s = []" using neq by (simp add: g3(8) e2)
  have view3: "view v3 = [[] \<mapsto> Directory [kernel_name, shell_name], [kernel_name] \<mapsto> Directory [readme_name],
      [shell_name] \<mapsto> Directory [], [kernel_name, readme_name] \<mapsto> File ?kc]"
    using g3(4) by (auto simp: view2 fun_eq_iff)
  have "view v3 ([shell_name] @ [take 31 (c_string readme_name)]) = None" by (simp only: facts view3) simp
  from create_room [OF r3 g3(1) J s3 dir(1) count(1) this, of ?sc] obtain f2 v4 h4 where
    run4: "vfs_create_file J s readme_name (Some ?sc) (v3, h3) = Some (f2, v4, h4)" and r4: "room_for j (v4, h4)"
    and g4: "grown v3 [shell_name] (new_node (J s) shell_name VFS_DIR r) f2 (file_node (J f2) readme_name ?sc s) v4"
    by blast
  note g4 = grownD [OF g4, unfolded facts e3 contents list.map]
  have root4: "vfs_root v4 = r" using g4(2) g3(2) root2 by simp
  have view4: "view v4 = boot_view"
    using g4(4) by (auto simp: view3 boot_view_def fun_eq_iff)
  let ?v = "v4\<lparr>vfs_cwd := vfs_root v4\<rparr>"
  have "vfs_init J (v, h) = Some (?v, h4)"
    unfolding vfs_init_def run0 Option.bind.simps split_conv Let_def
    using v0 run1 root0 run2 root1 run3 run4 by (simp del: chars_simps)
  moreover have "room_for j (?v, h4)" using r4 by (simp add: room_for_def)
  moreover obtain rt where "at_path v4 (vfs_root v4) rt []" "nd_type rt = VFS_DIR" by (rule root_at_path [OF g4(1)])
  then have "in_directory ?v []" by (auto simp: in_directory_def)
  ultimately show ?thesis using g4(1) view4 by auto
qed

lemma vfs_init_run:
  assumes "room_for 5 (v, h)" and "nodes v = Map.empty" and "fresh_ok J"
  shows "\<exists>v' h'. vfs_init J (v, h) = Some (v', h') \<and> room_for 0 (v', h') \<and> fs_ok v' \<and>
    view v' = boot_view \<and> in_directory v' []"
  using vfs_init_room [of 0] assms by simp

lemma heap_rooms:
  assumes "pmm_inv (pm h)" and "0 \<notin> avail (pm h)" and "avail (pm h) \<noteq> {}" and "heap_init h = Some h0"
    and "nodes v = Map.empty" and "k \<le> 10"
  shows "room_for k (v, h0)"
proof -
  obtain b s where "heap_inv 1 [(b, s, True)] h0" "4080 \<le> unat s"
    using heap_init_fresh [OF assms(1-4)] by blast
  then have "heap_inv 1 ([] @ [(b, s, True)]) h0" "384 * k + 32 \<le> unat s"
    using assms(6) by simp_all
  with assms(5) show ?thesis
    unfolding room_for_def by (intro exI [of _ 1] exI [of _ "[]"] exI [of _ b] exI [of _ s]) simp
qed

lemmas heap_room = heap_rooms [where k = 5, simplified]

section \<open>A full directory\<close>

text \<open>
  The 17th child of a directory gets its memory but no place among the children: it is in the
  store, where no path leads to it.
\<close>

lemma unreachable_entries:
  assumes "store_ok N" and "a \<notin> dom N" and "nd_child_count n = 0"
  shows "entries (N(a \<mapsto> n)) b = (if b = a then [] else entries N b)"
proof (cases "b = a \<or> N b = None")
  case True
  with assms(2,3) show ?thesis by (auto simp: entries_def)
next
  case False
  then obtain k where k: "N b = Some k" by auto
  have "c \<noteq> a" if "c \<in> set (take (unat (nd_child_count k)) (nd_children k))" for c
  proof -
    let ?cs = "take (unat (nd_child_count k)) (nd_children k)"
    have "\<exists>i < length ?cs. ?cs ! i = c" using that unfolding in_set_conv_nth by blast
    then obtain i where "i < length ?cs" "c = ?cs ! i" by blast
    then have "i < unat (nd_child_count k)" "c = nd_children k ! i" by simp_all
    moreover have "node_ok N b k" using assms(1) k by (simp add: store_ok_def)
    ultimately have "\<exists>d. N c = Some d" unfolding node_ok_def by blast
    with assms(2) show ?thesis by auto
  qed
  with False k show ?thesis by (simp add: entries_def)
qed

lemma unreachable_resolve:
  assumes "store_ok N" and "a \<notin> dom N" and "nd_child_count n = 0"
  shows "b \<noteq> a \<Longrightarrow> resolve (N(a \<mapsto> n)) b qs = resolve N b qs \<and> resolve N b qs \<noteq> Some a"
proof (induction qs arbitrary: b)
  case (Cons nm qs)
  show ?case
  proof (cases "map_of (entries N b) nm")
    case (Some c)
    from entries_child [OF assms(1) this] assms(2) have "c \<noteq> a" by auto
    with Cons Some show ?thesis by (simp add: unreachable_entries [OF assms] del: fun_upd_apply)
  qed (use Cons.prems in \<open>simp add: unreachable_entries [OF assms] del: fun_upd_apply\<close>)
qed simp

lemma unreachable_view:
  assumes "fs_ok v" and "a \<notin> dom (nodes v)" and "nd_child_count n = 0"
  shows "view (v\<lparr>nodes := (nodes v)(a \<mapsto> n)\<rparr>) = view v"
proof
  fix qs
  note st = fs_ok_store [OF assms(1)]
  obtain r where "at_path v (vfs_root v) r []" by (rule root_at_path [OF assms(1)])
  with assms(2) have "vfs_root v \<noteq> a" by (auto simp: at_path_def)
  from unreachable_resolve [where n = n, OF st assms(2,3) this, of qs]
  show "view (v\<lparr>nodes := (nodes v)(a \<mapsto> n)\<rparr>) qs = view v qs"
    by (cases "resolve (nodes v) (vfs_root v) qs")
      (simp_all add: view_def unreachable_entries [OF st assms(2,3)] fun_upd_other cong: if_cong del: fun_upd_apply)
qed

lemma add_node_full:
  "N (nd_parent n) = Some p \<Longrightarrow> nd_parent n \<noteq> 0 \<Longrightarrow> nd_parent n \<noteq> a \<Longrightarrow> \<not> nd_child_count p < 16 \<Longrightarrow>
   add_node a n N = N(a \<mapsto> n)"
  by (auto simp: add_node_def add_child_def fun_eq_iff)

section \<open>The properties\<close>

text \<open>
  C36. \<open>vfs_create_file\<close> in any directory of a well-formed tree.  The result is the pointer
  \<open>kmalloc\<close> returns for one node, and the heap is what \<open>kmalloc\<close> leaves.  If that pointer is
  null (the heap is exhausted) the tree is unchanged.  If not, and the directory has fewer than
  16 children and none of that name, the call is exactly an update of the tree as users see it:
  the directory gets one more name at its end, cut to 31 characters, at the new path there is a
  file with the contents cut to 255 characters, and the tree invariant is kept.  In a directory
  with 16 children the new node is in memory, but nothing changes for users: no path leads to it.
\<close>

theorem vfs_create_file_refines:
  assumes "vfs_ok (v, h)" and "fs_ok v" and "fresh_ok J"
    and "at_path v q p ps" and "nd_type p = VFS_DIR"
  shows "\<exists>a h' v'. kmalloc sizeof_vfs_node h = Some (a, h') \<and>
     vfs_create_file J q nm (Some content) (v, h) = Some (a, v', h') \<and> vfs_ok (v', h') \<and>
     (a = 0 \<longrightarrow> v' = v) \<and>
     (a \<noteq> 0 \<and> nd_child_count p < VFS_MAX_CHILDREN \<and> view v (ps @ [take 31 (c_string nm)]) = None \<longrightarrow>
        fs_ok v' \<and> (\<exists>names. view v ps = Some (Directory names) \<and>
          view v' = (view v)(ps \<mapsto> Directory (names @ [take 31 (c_string nm)]),
            ps @ [take 31 (c_string nm)] \<mapsto> File (take 255 (c_string content))))) \<and>
     (a \<noteq> 0 \<and> \<not> nd_child_count p < VFS_MAX_CHILDREN \<longrightarrow>
        view v' = view v \<and> dom (nodes v') = insert a (dom (nodes v)))"
proof -
  have q: "nodes v q = Some p" "q \<in> dom (nodes v)" using assms(4) by (auto simp: at_path_def)
  let ?n = "\<lambda>a. file_node (J a) nm content q"
  let ?w = "\<lambda>a. v\<lparr>nodes := add_node a (?n a) (nodes v)\<rparr>"
  obtain a h' where r: "if a = 0 then vfs_create_file J q nm (Some content) (v, h) = Some (0, v, h') \<and> vfs_ok (v, h')
     else a \<notin> dom (nodes v) \<and> vfs_create_file J q nm (Some content) (v, h) = Some (a, ?w a, h') \<and> vfs_ok (?w a, h')"
    using create_file_run [OF assms(1,3) q(2), of nm content] by (elim exE) (rule that)
  have alloc: "kmalloc sizeof_vfs_node h = Some (a, h')"
    using r by (auto dest: create_pointer split: if_splits)
  show ?thesis
  proof (cases "a = 0")
    case True
    with r alloc show ?thesis by (intro exI [of _ a] exI [of _ h'] exI [of _ v]) simp
  next
    case False
    with r have st: "store_ok (add_node a (?n a) (nodes v))" and a: "a \<notin> dom (nodes v)"
      by (simp_all add: vfs_ok_def)
    have "q \<noteq> 0" using fs_ok_store [OF assms(2)] q(1) by (auto simp: store_ok_def)
    have new: "fs_ok (?w a) \<and> (\<exists>names. view v ps = Some (Directory names) \<and>
        view (?w a) = (view v)(ps \<mapsto> Directory (names @ [take 31 (c_string nm)]),
          ps @ [take 31 (c_string nm)] \<mapsto> File (take 255 (c_string content))))"
      if "nd_child_count p < 16" "view v (ps @ [take 31 (c_string nm)]) = None"
    proof -
      have "grown v ps p a (?n a) (?w a)"
        using False assms a st that by (intro add_node_grown) (simp_all add: new_node_name [OF assms(3)])
      note g = grownD(1,4) [OF this]
      with at_path_view [OF assms(2,4)] assms(5) new_node_name [OF assms(3)] show ?thesis by simp
    qed
    have full: "view (?w a) = view v \<and> dom (nodes (?w a)) = insert a (dom (nodes v))" if "\<not> nd_child_count p < 16"
    proof -
      have "add_node a (?n a) (nodes v) = (nodes v)(a \<mapsto> ?n a)"
        using q \<open>q \<noteq> 0\<close> a that by (intro add_node_full) auto
      with unreachable_view [OF assms(2) a, of "?n a"] show ?thesis by simp
    qed
    from r False alloc new full show ?thesis
      by (intro exI [of _ a] exI [of _ h'] exI [of _ "?w a"]) simp
  qed
qed

text \<open>
  C37. After \<open>vfs_init\<close> on the heap of a machine with at least one page of memory, the tree is
  \<open>/kernel/README\<close> and \<open>/shell/README\<close> with the current directory at the root, and every
  sequence of \<open>ls\<close>, \<open>cd\<close>, \<open>pwd\<close> and \<open>cat\<close> commands with any arguments returns, leaves the
  tree alone, and prints and changes directory exactly as the path-based specification says.
\<close>

theorem vfs_session_refines:
  assumes "pmm_inv (pm h)" and "0 \<notin> avail (pm h)" and "avail (pm h) \<noteq> {}" and "heap_init h = Some h0"
    and "fresh_ok J" and "shows_roll c r"
  shows "\<exists>v h' s'. vfs_init J (vfs_boot, h0) = Some (v, h') \<and> vfs_ok (v, h') \<and>
     run_opt (fs_unit io) ops (v, c) = Some (fst (run_ops (fs_print boot_view) ops ([], r)), s') \<and>
     fs_rel boot_view s' (snd (run_ops (fs_print boot_view) ops ([], r)))"
proof -
  have "nodes vfs_boot = Map.empty" by (simp add: vfs_boot_def)
  from vfs_init_run [OF heap_room [OF assms(1-4) this] this assms(5)] obtain v h' where
    v: "vfs_init J (vfs_boot, h0) = Some (v, h')" "room_for 0 (v, h')" "fs_ok v" "view v = boot_view"
      "in_directory v []" by blast
  have "vfs_ok (v, h')" by (rule room_vfs_ok [OF v(2) fs_ok_store [OF v(3)]])
  moreover have "fs_rel boot_view (v, c) ([], r)" using v(3-5) assms(6) by (simp add: fs_rel_def)
  from fs.run_total [OF this, of io ops] v(1) calculation show ?thesis by blast
qed
section \<open>Witnesses\<close>

definition zero_node :: vfs_node where
  "zero_node = \<lparr>nd_name = replicate 32 0, nd_type = VFS_DIR, nd_parent = 0, nd_children = replicate 16 0,
     nd_child_count = 0, nd_content = replicate 256 0\<rparr>"

lemma fresh_zero: "fresh_ok (\<lambda>_. zero_node)"
  by (simp add: fresh_ok_def zero_node_def)

lemma cold_heap_pages: "avail (pm cold_heap) \<noteq> {}"
  using two_pages_avail by (auto simp: cold_heap_def)

lemma demo_tree:
  obtains v h r where "room_for 1 (v, h)" "vfs_ok (v, h)" "fs_ok v" "view v = boot_view" "at_path v (vfs_cwd v) r []"
    "nd_type r = VFS_DIR" "nd_child_count r < 16"
proof -
  obtain h0 h2 where "heap_init cold_heap = Some h0" by (rule cold_heap_trace)
  note h0 = heap_rooms [OF cold_heap_pm cold_heap_pages this, of vfs_boot "1 + 5", simplified]
  have e: "nodes vfs_boot = Map.empty" by (simp add: vfs_boot_def)
  from vfs_init_room [of 1, simplified, OF h0 [OF e] e fresh_zero] obtain v h where
    v: "room_for 1 (v, h)" "fs_ok v" "view v = boot_view" "in_directory v []" by auto
  then obtain r where r: "at_path v (vfs_cwd v) r []" "nd_type r = VFS_DIR" by (auto simp: in_directory_def)
  have "node_ok (nodes v) (vfs_cwd v) r" using fs_ok_store [OF v(2)] r(1) by (simp add: store_ok_def at_path_def)
  then have "unat (nd_child_count r) = length (entries (nodes v) (vfs_cwd v))"
    using r(1) by (simp add: entries_def at_path_def node_ok_def)
  also have "\<dots> = 2"
  proof -
    have "map fst (entries (nodes v) (vfs_cwd v)) = [kernel_name, shell_name]"
      using at_path_view [OF v(2) r(1)] r(2) v(3) by (simp add: boot_view_def)
    from arg_cong [OF this, of length] show ?thesis by simp
  qed
  finally have "nd_child_count r < 16" by (simp add: word_less_nat_alt)
  with r v room_vfs_ok [OF v(1) fs_ok_store [OF v(2)]] show ?thesis by (intro that) auto
qed

theorem vfs_create_file_refines_witness:
  "\<exists>v h a v' h'. view v = boot_view \<and> a \<noteq> 0 \<and>
     vfs_create_file (\<lambda>_. zero_node) (vfs_cwd v) (chars ''notes'') (Some (chars ''hi'')) (v, h) = Some (a, v', h') \<and>
     vfs_ok (v', h') \<and> fs_ok v' \<and> view v' [chars ''notes''] = Some (File (chars ''hi''))"
proof -
  obtain v h r where v: "room_for 1 (v, h)" "vfs_ok (v, h)" "fs_ok v" "view v = boot_view" "at_path v (vfs_cwd v) r []"
    "nd_type r = VFS_DIR" "nd_child_count r < 16" by (rule demo_tree)
  obtain a h' where a: "kmalloc sizeof_vfs_node h = Some (a, h')" "a \<noteq> 0"
    using alloc_room [of 0 v h] v(1) by auto
  have none: "view v ([] @ [take 31 (c_string (chars ''notes''))]) = None" using v(4) by (simp add: boot_view_def)
  from vfs_create_file_refines [OF v(2,3) fresh_zero v(5,6), of "chars ''notes''" "chars ''hi''"] a v(7) none
  obtain v' names where "vfs_create_file (\<lambda>_. zero_node) (vfs_cwd v) (chars ''notes'') (Some (chars ''hi'')) (v, h)
      = Some (a, v', h')" "vfs_ok (v', h')" "fs_ok v'"
    "view v' = (view v)([] \<mapsto> Directory (names @ [take 31 (c_string (chars ''notes''))]),
        [] @ [take 31 (c_string (chars ''notes''))] \<mapsto> File (take 255 (c_string (chars ''hi''))))"
    by (auto simp del: chars_simps)
  with a(2) v(4) show ?thesis
    by (intro exI [of _ v] exI [of _ h] exI [of _ a] exI [of _ v'] exI [of _ h']) simp
qed

theorem vfs_session_refines_witness:
  "\<exists>h0 v h' s'. heap_init cold_heap = Some h0 \<and>
     vfs_init (\<lambda>_. zero_node) (vfs_boot, h0) = Some (v, h') \<and>
     run_opt (fs_unit demo_vga) [Cd (Some kernel_name), Pwd, Cat (Some readme_name)]
       (v, clear_screen demo_vga BLACK demo_console) = Some ([(), (), ()], s') \<and>
     shows_roll (snd s') (roll_text (chars ''AlderKernel in-RAM VFS.\<newline>This directory represents kernel space.\<newline>'')
       (roll_text (chars ''/kernel\<newline>'') (fresh_roll 0x20)))"
proof -
  obtain h0 h2 where h0: "heap_init cold_heap = Some h0" by (rule cold_heap_trace)
  let ?ops = "[Cd (Some kernel_name), Pwd, Cat (Some readme_name)]"
  from vfs_session_refines [OF cold_heap_pm cold_heap_pages h0 fresh_zero demo_shows, of demo_vga ?ops]
  obtain v h' s' where v: "vfs_init (\<lambda>_. zero_node) (vfs_boot, h0) = Some (v, h')"
    "run_opt (fs_unit demo_vga) ?ops (v, clear_screen demo_vga BLACK demo_console) =
      Some (fst (run_ops (fs_print boot_view) ?ops ([], fresh_roll 0x20)), s')"
    "fs_rel boot_view s' (snd (run_ops (fs_print boot_view) ?ops ([], fresh_roll 0x20)))" by blast
  have d: "is_directory boot_view [kernel_name]"
    "boot_view [kernel_name, readme_name] =
      Some (File (chars ''AlderKernel in-RAM VFS.\<newline>This directory represents kernel space.''))"
    by (simp_all add: boot_view_def is_directory_def)
  have "run_ops (fs_print boot_view) ?ops ([], fresh_roll 0x20) = ([(), (), ()], [kernel_name],
      roll_text (chars ''AlderKernel in-RAM VFS.\<newline>This directory represents kernel space.\<newline>'')
       (roll_text (chars ''/kernel\<newline>'') (fresh_roll 0x20)))"
    using d by (simp add: fs_print_def Let_def path_text_def)
  note run = v(2,3) [unfolded this fst_conv snd_conv fs_rel_def]
  with v(1) h0 show ?thesis by blast
qed

end
