(* ===== verification/Kernel.thy ===== *)
theory Kernel
  imports VfsInit Keyboard Interrupts FatSpec Mbr Elf
begin

text \<open>
  The state the parts of the kernel share, and the machine around it.

  \<^item> The record \<open>platform\<close> collects what is not code of the repository: the port devices, what
    uninitialised memory holds, when keyboard interrupts arrive, the programs \<open>runelf\<close> starts,
    and the addresses the linker and the stack give.  Every definition below has it as a parameter.
  \<^item> The record \<open>kernel\<close> holds the static variables of every module beside the RAM.  The
    variables and the headers of the heap are not part of \<open>ram\<close>: a program that overwrites them
    is outside the model.
\<close>

record 'd platform =
  io :: "'d ports"
  stk :: "'d \<Rightarrow> u8 list"
  key_irqs :: "'d \<Rightarrow> nat"
  program :: "u32 \<Rightarrow> memory \<Rightarrow> memory option"
  entry_slot :: u32
  raw_node :: "memory \<Rightarrow> u32 \<Rightarrow> vfs_node"
  kernel_end :: u32
  stub_table :: "nat \<Rightarrow> u32"
  keyboard_stub_addr :: u32
  idt_addr :: u32
  page_tables :: u32
  page_directory :: u32

record 'd kernel =
  con :: "'d console"
  kbd :: keyboard
  files :: vfs
  hp :: heap
  fat :: fat16
  total_sectors_cache :: u32
  ram :: memory

text \<open>The device all ports lead to is the one the console holds.\<close>

abbreviation dev :: "'d kernel \<Rightarrow> 'd" where
  "dev k \<equiv> bus (con k)"

definition set_dev :: "'d \<Rightarrow> 'd kernel \<Rightarrow> 'd kernel" where
  "set_dev d k = k\<lparr>con := (con k)\<lparr>bus := d\<rparr>\<rparr>"

abbreviation disk_io :: "'d platform \<Rightarrow> 'd sector_io" where
  "disk_io M \<equiv> ata_io (io M) (stk M)"

section \<open>Printing\<close>

definition put :: "'d platform \<Rightarrow> u8 list \<Rightarrow> 'd kernel \<Rightarrow> 'd kernel" where
  "put M s k = k\<lparr>con := print_text (io M) s (con k)\<rparr>"

definition put_char :: "'d platform \<Rightarrow> u8 \<Rightarrow> 'd kernel \<Rightarrow> 'd kernel" where
  "put_char M ch k = k\<lparr>con := print_char (io M) ch (con k)\<rparr>"

definition put_uint :: "'d platform \<Rightarrow> u32 \<Rightarrow> 'd kernel \<Rightarrow> 'd kernel" where
  "put_uint M n k = k\<lparr>con := print_uint (io M) n (con k)\<rparr>"

definition put_hex :: "'d platform \<Rightarrow> u32 \<Rightarrow> 'd kernel \<Rightarrow> 'd kernel" where
  "put_hex M n k = k\<lparr>con := print_hex (io M) n (con k)\<rparr>"

text \<open>A string literal.\<close>

definition say :: "'d platform \<Rightarrow> string \<Rightarrow> 'd kernel \<Rightarrow> 'd kernel" where
  "say M s k = put M (chars s) k"

section \<open>Keyboard interrupts\<close>

text \<open>
  The handler changes only the key buffer and the modifiers, so the interrupts that arrived since
  the buffer was last read can be taken when it is next read.
\<close>

definition take_irq :: "'d platform \<Rightarrow> 'd kernel \<Rightarrow> 'd kernel" where
  "take_irq M k = (case keyboard_handler (io M) (kbd k) (dev k) of (keys, d) \<Rightarrow> set_dev d (k\<lparr>kbd := keys\<rparr>))"

definition take_irqs :: "'d platform \<Rightarrow> 'd kernel \<Rightarrow> 'd kernel" where
  "take_irqs M k = (take_irq M ^^ key_irqs M (dev k)) k"

definition read_key :: "'d platform \<Rightarrow> 'd kernel \<Rightarrow> u8 \<times> 'd kernel" where
  "read_key M k =
     (let k = take_irqs M k
      in case key_buffer_pop (kbd k) of (c, keys) \<Rightarrow> (c, k\<lparr>kbd := keys\<rparr>))"

section \<open>Commands that may halt the processor\<close>

fun and_then :: "'s control option \<Rightarrow> ('s \<Rightarrow> 's control option) \<Rightarrow> 's control option" where
  "and_then None f = None"
| "and_then (Some (Halts s)) f = Some (Halts s)"
| "and_then (Some (Returns s)) f = f s"

end
