(* ===== verification/Syscall.thy ===== *)
theory Syscall
  imports Kernel
begin

text \<open>
  The system calls (\<^verbatim>\<open>kernel/syscalls/syscall.c\<close>).  Dividing by zero raises exception 0; the
  processor pushes no error code for it and its stub pushes 0 (\<^verbatim>\<open>kernel/idt/idt_asm.asm\<close>).
\<close>

abbreviation (input) SYS_READ :: u32 where "SYS_READ \<equiv> 0x00"
abbreviation (input) SYS_WRITE :: u32 where "SYS_WRITE \<equiv> 0x01"
abbreviation (input) SYS_REQUEST_RAM :: u32 where "SYS_REQUEST_RAM \<equiv> 0x02"
abbreviation (input) SYS_UNKNOWN_03 :: u32 where "SYS_UNKNOWN_03 \<equiv> 0x03"
abbreviation (input) SYS_KERNEL_PANIC :: u32 where "SYS_KERNEL_PANIC \<equiv> 0x10"
abbreviation (input) SYS_TEST_DIVZERO :: u32 where "SYS_TEST_DIVZERO \<equiv> 0x11"
abbreviation (input) SYSCALL_TEST_ALLOC_SIZE :: u32 where "SYSCALL_TEST_ALLOC_SIZE \<equiv> 128"

definition sys_panic :: "'d platform \<Rightarrow> 'd kernel \<Rightarrow> 'd kernel control" where
  "sys_panic M k = Halts (say M ''\<newline>*** KERNEL PANIC (syscall 0x10) ***\<newline>'' k)"

definition sys_test_divzero :: "'d platform \<Rightarrow> 'd kernel \<Rightarrow> 'd kernel control" where
  "sys_test_divzero M k =
     (let k = say M ''Forcing a real divide-by-zero (#DE, vector 0)...\<newline>'' k
      in map_control (\<lambda>c. k\<lparr>con := c\<rparr>) (isr_exception_handler (io M) 0 0 (con k)))"

definition sys_request_ram :: "'d platform \<Rightarrow> 'd kernel \<Rightarrow> 'd kernel option" where
  "sys_request_ram M k =
     do {
       (ptr, h) \<leftarrow> kmalloc SYSCALL_TEST_ALLOC_SIZE (hp k);
       let k = k\<lparr>hp := h\<rparr>;
       if ptr = 0 then Some (say M ''sys_request_ram: kmalloc failed - out of heap memory.\<newline>'' k)
       else do {
         let k = say M ''sys_request_ram: allocated '' k;
         let k = put_uint M SYSCALL_TEST_ALLOC_SIZE k;
         let k = say M '' bytes at '' k;
         let k = put_hex M ptr k;
         let k = say M ''\<newline>heap now: '' k;
         let k = put_uint M (heap_get_free_bytes (hp k)) k;
         let k = say M '' bytes free, '' k;
         let k = put_uint M (heap_get_used_bytes (hp k)) k;
         Some (say M '' bytes used\<newline>'' k)
       }
     }"

definition syscall_dispatch :: "'d platform \<Rightarrow> u32 \<Rightarrow> 'd kernel \<Rightarrow> 'd kernel control option" where
  "syscall_dispatch M num k =
     (if num = SYS_READ then Some (Returns (say M ''sys_read: not implemented yet (no VFS-backed reads).\<newline>'' k))
      else if num = SYS_WRITE then Some (Returns (say M ''sys_write: not implemented yet (no VFS-backed writes).\<newline>'' k))
      else if num = SYS_REQUEST_RAM then map_option Returns (sys_request_ram M k)
      else if num = SYS_UNKNOWN_03 then Some (Returns (say M ''syscall 0x03: reserved, not defined yet.\<newline>'' k))
      else if num = SYS_KERNEL_PANIC then Some (sys_panic M k)
      else if num = SYS_TEST_DIVZERO then Some (sys_test_divzero M k)
      else Some (Returns (say M ''\<newline>'' (put_uint M num (say M ''Unknown syscall number: '' k)))))"

end
