(* ===== verification/SysInfo.thy ===== *)
theory SysInfo
  imports Syscall Util
begin

text \<open>
  The shell's commands on the machine (\<^verbatim>\<open>kernel/shell/sysinfo_commands.c\<close>): system
  information, memory and partitions.  The commands on files of the disk are in DiskCommands.
\<close>

definition command_uname :: "'d platform \<Rightarrow> u8 list option \<Rightarrow> 'd kernel \<Rightarrow> 'd kernel" where
  "command_uname M option k =
     (case option of
        None \<Rightarrow> say M ''AlderKernel\<newline>'' k
      | Some a \<Rightarrow>
          if strcmp a (chars ''-s'') = 0 then say M ''AlderKernel\<newline>'' k
          else if strcmp a (chars ''-r'') = 0 then say M ''0.3\<newline>'' k
          else if strcmp a (chars ''-m'') = 0 then say M ''i386\<newline>'' k
          else if strcmp a (chars ''-a'') = 0 then say M ''AlderKernel 0.3 i386 zSlash\<newline>'' k
          else say M ''\<newline>'' (put M a (say M ''uname: unrecognized option: '' k)))"

definition command_req_syscallop :: "'d platform \<Rightarrow> u8 list option \<Rightarrow> 'd kernel \<Rightarrow> 'd kernel control option" where
  "command_req_syscallop M arg k =
     (case arg of
        None \<Rightarrow> Some (Returns (say M ''Usage: req-syscallop <syscall number>\<newline>'' k))
      | Some a \<Rightarrow>
          let syscall_num = str_to_uint a;
              k = say M ''Syscall requested: #'' k;
              k = put_uint M syscall_num k;
              k = say M ''\<newline>'' k
          in syscall_dispatch M syscall_num k)"

section \<open>Memory\<close>

abbreviation (input) MEMTEST_BASE :: u32 where "MEMTEST_BASE \<equiv> 0x400000"
abbreviation (input) MEMTEST_WORDS :: nat where "MEMTEST_WORDS \<equiv> 4096"

definition fill_words :: "u32 \<Rightarrow> memory \<Rightarrow> memory" where
  "fill_words pattern m =
     fold (\<lambda>i m. write_u32 m (MEMTEST_BASE + 4 * of_nat i) pattern) [0..<MEMTEST_WORDS] m"

definition count_words :: "u32 \<Rightarrow> memory \<Rightarrow> u32 \<Rightarrow> u32" where
  "count_words pattern m failures =
     fold (\<lambda>i failures. if read_u32 m (MEMTEST_BASE + 4 * of_nat i) \<noteq> pattern then failures + 1 else failures)
       [0..<MEMTEST_WORDS] failures"

definition command_memtest :: "'d platform \<Rightarrow> 'd kernel \<Rightarrow> 'd kernel" where
  "command_memtest M k =
     (let k = say M ''Running memory test at '' k;
          k = put_hex M MEMTEST_BASE k;
          k = say M '' ('' k;
          k = put_uint M (of_nat MEMTEST_WORDS * 4) k;
          k = say M '' bytes)...\<newline>'' k;
          m = fill_words 0xAAAAAAAA (ram k);
          failures = count_words 0xAAAAAAAA m 0;
          m = fill_words 0x55555555 m;
          failures = count_words 0x55555555 m failures;
          k = k\<lparr>ram := m\<rparr>
      in if failures = 0 then say M ''Memory test PASSED.\<newline>'' k
         else say M '' word mismatches.\<newline>'' (put_uint M failures (say M ''Memory test FAILED - '' k)))"

definition command_meminfo :: "'d platform \<Rightarrow> 'd kernel \<Rightarrow> 'd kernel" where
  "command_meminfo M k =
     (let k = say M ''Physical memory: '' k;
          k = put_uint M (pmm_get_free_page_count (pm (hp k))) k;
          k = say M '' / '' k;
          k = put_uint M (pmm_get_total_page_count (pm (hp k))) k;
          k = say M '' pages free ('' k;
          k = put_uint M (pmm_get_free_page_count (pm (hp k)) * 4) k;
          k = say M '' KB)\<newline>'' k;
          k = say M ''Heap: '' k;
          k = put_uint M (heap_get_free_bytes (hp k)) k;
          k = say M '' bytes free, '' k;
          k = put_uint M (heap_get_used_bytes (hp k)) k
      in say M '' bytes used\<newline>'' k)"

section \<open>Disk and partitions\<close>

definition identify :: "'d platform \<Rightarrow> 'd kernel \<Rightarrow> bool \<times> 'd kernel" where
  "identify M k =
     (case ata_identify (io M) (total_sectors_cache k) (dev k) of (ok, sectors, d) \<Rightarrow>
        (ok, set_dev d (k\<lparr>total_sectors_cache := sectors\<rparr>)))"

definition command_diskinfo :: "'d platform \<Rightarrow> 'd kernel \<Rightarrow> 'd kernel" where
  "command_diskinfo M k =
     (let k = say M ''Probing primary ATA bus (master)...\<newline>'' k
      in case identify M k of (ok, k) \<Rightarrow>
        if \<not> ok then say M ''No drive detected.\<newline>'' k
        else
          let k = say M ''Drive detected. Reading sector 0 (MBR)...\<newline>'' k
          in case ata_read_sector (io M) 0 (stk M (dev k)) (dev k) of (ok, sector, d) \<Rightarrow>
            let k = set_dev d k
            in if \<not> ok then say M ''Read failed.\<newline>'' k
               else
                 let k = say M ''First 16 bytes: '' k;
                     k = fold (\<lambda>i k. say M '' '' (put_hex M (ucast (sector ! i)) k)) [0..<16] k;
                     k = say M ''\<newline>'' k;
                     k = say M ''Boot signature (should be 0xAA55 at offset 510): '' k;
                     k = put_hex M (le16 (sector ! 510) (sector ! 511)) k
                 in say M ''\<newline>'' k)"

definition read_partitions :: "'d platform \<Rightarrow> 'd kernel \<Rightarrow> nat \<times> mbr_partition list \<times> 'd kernel" where
  "read_partitions M k =
     (case mbr_read_partitions (disk_io M) (dev k) of (used, parts, d) \<Rightarrow> (used, parts, set_dev d k))"

definition print_partition :: "'d platform \<Rightarrow> mbr_partition list \<Rightarrow> nat \<Rightarrow> 'd kernel \<Rightarrow> 'd kernel" where
  "print_partition M parts i k =
     (if ptype (parts ! i) = 0 then k
      else
        let k = say M ''Partition '' k;
            k = put_uint M (of_nat i) k;
            k = say M '': type='' k;
            k = put_hex M (ucast (ptype (parts ! i))) k;
            k = say M '' bootable='' k;
            k = put_uint M (ucast (bootable (parts ! i))) k;
            k = say M '' start_lba='' k;
            k = put_uint M (lba_start (parts ! i)) k;
            k = say M '' sectors='' k;
            k = put_uint M (sector_count (parts ! i)) k
        in say M ''\<newline>'' k)"

definition command_partinfo :: "'d platform \<Rightarrow> 'd kernel \<Rightarrow> 'd kernel" where
  "command_partinfo M k =
     (case read_partitions M k of (used, parts, k) \<Rightarrow>
        if used = 0 then say M ''No valid MBR found (disk is unpartitioned).\<newline>'' k
        else fold (print_partition M parts) [0..<4] k)"

text \<open>The result is the start and the size of the partition, \<open>None\<close> when the code returns 0.\<close>

definition do_mkpart :: "'d platform \<Rightarrow> 'd kernel \<Rightarrow> (u32 \<times> u32) option \<times> 'd kernel" where
  "do_mkpart M k =
     (case identify M k of (ok, k) \<Rightarrow>
        if \<not> ok then (None, k)
        else
          let sectors = ata_get_total_sectors (total_sectors_cache k)
          in if sectors = 0 then (None, k)
             else
               let start = 2048
               in if sectors \<le> start then (None, k)
                  else
                    let cnt = sectors - start
                    in case mbr_write_partition (disk_io M) 0 1 0x06 start cnt (dev k) of (ok, d) \<Rightarrow>
                      (if ok then Some (start, cnt) else None, set_dev d k))"

definition format_partition :: "'d platform \<Rightarrow> u32 \<Rightarrow> u32 \<Rightarrow> 'd kernel \<Rightarrow> bool \<times> 'd kernel" where
  "format_partition M start cnt k =
     (case fat16_format (disk_io M) start cnt (dev k) of (ok, d) \<Rightarrow> (ok, set_dev d k))"

definition do_mkfs :: "'d platform \<Rightarrow> u32 \<Rightarrow> u32 \<Rightarrow> 'd kernel \<Rightarrow> bool \<times> 'd kernel" where
  "do_mkfs M start cnt k = format_partition M start cnt k"

definition command_mkpart :: "'d platform \<Rightarrow> 'd kernel \<Rightarrow> 'd kernel" where
  "command_mkpart M k =
     (case do_mkpart M k of
        (None, k) \<Rightarrow> say M ''Failed to write partition table (no drive, or drive too small).\<newline>'' k
      | (Some (start, cnt), k) \<Rightarrow>
          let k = say M ''Partition table written: type=0x06 (FAT16) start_lba='' k;
              k = put_uint M start k;
              k = say M '' sectors='' k;
              k = put_uint M cnt k
          in say M ''\<newline>'' k)"

text \<open>The loop that looks for the first partition of type 6.\<close>

fun first_fat16 :: "mbr_partition list \<Rightarrow> nat \<Rightarrow> nat \<Rightarrow> nat option" where
  "first_fat16 parts 0 i = None"
| "first_fat16 parts (Suc n) i = (if ptype (parts ! i) \<noteq> 0x06 then first_fat16 parts n (i + 1) else Some i)"

definition command_mkfs :: "'d platform \<Rightarrow> 'd kernel \<Rightarrow> 'd kernel" where
  "command_mkfs M k =
     (case read_partitions M k of (used, parts, k) \<Rightarrow>
        if used = 0 then say M ''No partition table found - run mkpart first.\<newline>'' k
        else case first_fat16 parts 4 0 of
          None \<Rightarrow> say M ''No FAT16 (type 0x06) partition found.\<newline>'' k
        | Some i \<Rightarrow>
            let k = say M ''Formatting partition '' k;
                k = put_uint M (of_nat i) k;
                k = say M '' as FAT16 ('' k;
                k = put_uint M (sector_count (parts ! i)) k;
                k = say M '' sectors)...\<newline>'' k
            in case format_partition M (lba_start (parts ! i)) (sector_count (parts ! i)) k of (ok, k) \<Rightarrow>
              if ok then say M ''Format complete.\<newline>'' k
              else say M ''Format failed (partition too small or invalid cluster count).\<newline>'' k)"

end
