(* ===== verification/DiskCommands.thy ===== *)
theory DiskCommands
  imports SysInfo
begin

text \<open>
  The shell's commands on the disk (\<^verbatim>\<open>kernel/shell/sysinfo_commands.c\<close>): the installer, listing
  and printing files, and running programs.

  \<^item> An argument is the part of the line buffer from its first character on.
  \<^item> Buffers from the heap are regions of \<open>ram\<close>; the arrays on the stack have the bytes of
    \<open>stk\<close> before they are written.
\<close>

section \<open>The installer\<close>

definition mount_volume :: "'d platform \<Rightarrow> u32 \<Rightarrow> 'd kernel \<Rightarrow> bool \<times> 'd kernel" where
  "mount_volume M start k =
     (case fat16_mount (disk_io M) start (fat k) (dev k) of (ok, F, d) \<Rightarrow> (ok, set_dev d (k\<lparr>fat := F\<rparr>)))"

text \<open>The result is the cluster of the new directory, \<open>None\<close> when the code returns 0.\<close>

definition make_directory :: "'d platform \<Rightarrow> string \<Rightarrow> 'd kernel \<Rightarrow> (u32 option \<times> 'd kernel) option" where
  "make_directory M nm k =
     do {
       (ok, cluster, d) \<leftarrow> fat16_mkdir_root (disk_io M) (fat k) (chars nm) [] (Some 0) (dev k);
       Some (if ok then cluster else None, set_dev d k)
     }"

definition install_placeholder_file ::
    "'d platform \<Rightarrow> u32 \<Rightarrow> string \<Rightarrow> string \<Rightarrow> string \<Rightarrow> 'd kernel \<Rightarrow> 'd kernel option" where
  "install_placeholder_file M dir_cluster nm ext content k =
     do {
       (_, d) \<leftarrow> fat16_create_file_in_dir (disk_io M) (fat k) dir_cluster (chars nm) (chars ext)
         (chars content) (str_len (chars content)) (dev k);
       Some (set_dev d k)
     }"

definition install_tree :: "'d platform \<Rightarrow> 'd kernel \<Rightarrow> 'd kernel option" where
  "install_tree M k =
     do {
       let k = say M ''[4/4] Creating directory structure...\<newline>'' k;
       (apps_cl, k) \<leftarrow> make_directory M ''APPS'' k;
       case apps_cl of None \<Rightarrow> Some (say M ''Failed to create /apps\<newline>'' k) | Some _ \<Rightarrow> do {
       let k = say M ''      /apps\<newline>'' k;
       (kernel_cl, k) \<leftarrow> make_directory M ''KERNEL'' k;
       case kernel_cl of None \<Rightarrow> Some (say M ''Failed to create /kernel\<newline>'' k) | Some kernel_cl \<Rightarrow> do {
       k \<leftarrow> install_placeholder_file M kernel_cl ''KERNEL'' ''ELF''
         ''AlderKernel kernel.elf placeholder - no ELF loader yet.\<newline>'' k;
       let k = say M ''      /kernel/kernel.elf\<newline>'' k;
       (shell_cl, k) \<leftarrow> make_directory M ''SHELL'' k;
       case shell_cl of None \<Rightarrow> Some (say M ''Failed to create /shell\<newline>'' k) | Some shell_cl \<Rightarrow> do {
       k \<leftarrow> install_placeholder_file M shell_cl ''ZSLASH'' ''ELF''
         ''zSlash zslash.elf placeholder - no ELF loader yet.\<newline>'' k;
       let k = say M ''      /shell/zslash.elf\<newline>'' k;
       (system_cl, k) \<leftarrow> make_directory M ''SYSTEM'' k;
       case system_cl of None \<Rightarrow> Some (say M ''Failed to create /system\<newline>'' k) | Some system_cl \<Rightarrow> do {
       k \<leftarrow> install_placeholder_file M system_cl ''README'' ''TXT''
         ''AlderKernel FAT16 disk - installed via 'install'.\<newline>'' k;
       let k = say M ''      /system/readme.txt\<newline>'' k;
       let k = say M ''=== Install complete. ===\<newline>'' k;
       let k = say M ''Next: on the HOST, run tools/install_to_disk.sh to install\<newline>'' k;
       Some (say M ''GRUB and copy kernel.bin, making this disk directly bootable.\<newline>'' k)
       }}}}
     }"

definition command_install :: "'d platform \<Rightarrow> 'd kernel \<Rightarrow> 'd kernel option" where
  "command_install M k =
     (let k = say M ''=== AlderKernel Installer ===\<newline>'' k;
          k = say M ''WARNING: this ERASES the attached disk.\<newline>'' k;
          k = say M ''[1/4] Partitioning disk...\<newline>'' k
      in case do_mkpart M k of
           (None, k) \<Rightarrow> Some (say M ''Install failed: could not partition disk (no drive, or too small).\<newline>'' k)
         | (Some (part_start, part_count), k) \<Rightarrow>
             let k = say M ''      start_lba='' k;
                 k = put_uint M part_start k;
                 k = say M '' sectors='' k;
                 k = put_uint M part_count k;
                 k = say M ''\<newline>'' k;
                 k = say M ''[2/4] Formatting as FAT16...\<newline>'' k
             in case do_mkfs M part_start part_count k of (ok, k) \<Rightarrow>
               if \<not> ok then Some (say M ''Install failed: FAT16 format failed.\<newline>'' k)
               else
                 let k = say M ''[3/4] Mounting filesystem...\<newline>'' k
                 in case mount_volume M part_start k of (ok, k) \<Rightarrow>
                   if \<not> ok
                   then Some (say M ''Install failed: mount failed right after formatting (unexpected).\<newline>'' k)
                   else install_tree M k)"

section \<open>Listing a directory\<close>

definition print_dirent :: "'d platform \<Rightarrow> fat16_dirent \<Rightarrow> 'd kernel \<Rightarrow> 'd kernel" where
  "print_dirent M d k =
     (let k = (if de_attr d AND 0x10 \<noteq> 0 then say M ''  DIR   '' k else say M ''  FILE  '' k);
          k = put M (de_name d) k;
          k = (if de_ext d ! 0 \<noteq> 0 then put M (de_ext d) (say M ''.'' k) else k);
          k = (if de_attr d AND 0x10 = 0 then say M '' bytes)'' (put_uint M (de_size d) (say M ''  ('' k)) else k)
      in say M ''\<newline>'' k)"

definition mount_fat16_partition :: "'d platform \<Rightarrow> 'd kernel \<Rightarrow> bool \<times> 'd kernel" where
  "mount_fat16_partition M k =
     (case read_partitions M k of (used, parts, k) \<Rightarrow>
        if used = 0 then (False, k)
        else case first_fat16 parts 4 0 of
          None \<Rightarrow> (False, k)
        | Some i \<Rightarrow> mount_volume M (lba_start (parts ! i)) k)"

text \<open>A directory entry on the stack, before anything is stored in it.\<close>

definition raw_dirent :: "'d platform \<Rightarrow> 'd \<Rightarrow> fat16_dirent" where
  "raw_dirent M d =
     (let s = stk M d
      in \<lparr>de_name = take 9 s, de_ext = take 4 (drop 9 s), de_attr = s ! 13,
          de_cluster = le32 (s ! 16) (s ! 17) (s ! 18) (s ! 19),
          de_size = le32 (s ! 20) (s ! 21) (s ! 22) (s ! 23)\<rparr>)"

definition find_in_root ::
    "'d platform \<Rightarrow> u8 list \<Rightarrow> u8 list \<Rightarrow> fat16_dirent \<Rightarrow> 'd kernel \<Rightarrow> bool \<times> fat16_dirent \<times> 'd kernel" where
  "find_in_root M nm ext out k =
     (case fat16_find_in_root (disk_io M) (fat k) nm ext out (dev k) of (ok, ent, d) \<Rightarrow> (ok, ent, set_dev d k))"

definition find_in_dir ::
    "'d platform \<Rightarrow> u32 \<Rightarrow> u8 list \<Rightarrow> u8 list \<Rightarrow> fat16_dirent \<Rightarrow> 'd kernel \<Rightarrow> bool \<times> fat16_dirent \<times> 'd kernel" where
  "find_in_dir M cluster nm ext out k =
     (case fat16_find_in_dir (disk_io M) (fat k) cluster nm ext out (dev k) of (ok, ent, d) \<Rightarrow>
        (ok, ent, set_dev d k))"

definition command_lsdisk :: "'d platform \<Rightarrow> u8 list option \<Rightarrow> 'd kernel \<Rightarrow> 'd kernel option" where
  "command_lsdisk M arg k =
     (case mount_fat16_partition M k of (ok, k) \<Rightarrow>
        if \<not> ok then Some (say M ''No FAT16 partition mounted - run mkpart/mkfs first.\<newline>'' k)
        else do {
          let entries = replicate 32 (raw_dirent M (dev k));
          (listed, k) \<leftarrow>
            (case arg of
               None \<Rightarrow> do {
                 (cnt, entries, d) \<leftarrow> fat16_list_root (disk_io M) (fat k) entries 32 (dev k);
                 Some (Some (cnt, entries), set_dev d k)
               }
             | Some a \<Rightarrow>
                 (case find_in_root M a [] (raw_dirent M (dev k)) k of (ok, dir, k) \<Rightarrow>
                    if \<not> ok \<or> de_attr dir AND 0x10 = 0
                    then Some (None, say M ''\<newline>'' (put M a (say M ''No such directory: '' k)))
                    else do {
                      (cnt, entries, d) \<leftarrow> fat16_list_dir (disk_io M) (fat k) (de_cluster dir) entries 32 (dev k);
                      Some (Some (cnt, entries), set_dev d k)
                    }));
          case listed of
            None \<Rightarrow> Some k
          | Some (cnt, entries) \<Rightarrow>
              if cnt = 0 then Some (say M ''(empty)\<newline>'' k)
              else
                let shown = (if cnt < 32 then cnt else 32)
                in Some (fold (\<lambda>i k. print_dirent M (entries ! i) k) [0..<nat shown] k)
        })"

section \<open>File names\<close>

text \<open>The index of the first \<open>ch\<close> of the string from \<open>i\<close> on, \<open>None\<close> for -1.\<close>

function find_char :: "u8 \<Rightarrow> u8 list \<Rightarrow> nat \<Rightarrow> nat option" where
  "find_char ch s i = (if cstr s i \<noteq> 0 then if cstr s i = ch then Some i else find_char ch s (i + 1) else None)"
  by pat_completeness auto
termination
  by (relation "measure (\<lambda>(ch, s, i). length s - i)") (auto intro: cstr_measure)

function copy_base :: "u8 list \<Rightarrow> u8 list \<Rightarrow> nat \<Rightarrow> nat \<Rightarrow> u8 list" where
  "copy_base name s dot i =
     (if i < dot \<and> i < 8 then copy_base (name[i := cstr s i]) s dot (i + 1) else name[i := 0])"
  by pat_completeness auto
termination
  by (relation "measure (\<lambda>(name, s, dot, i). dot - i)") auto

function copy_ext :: "u8 list \<Rightarrow> u8 list \<Rightarrow> nat \<Rightarrow> nat \<Rightarrow> u8 list" where
  "copy_ext ext s i ei =
     (if cstr s i \<noteq> 0 \<and> ei < 3 then copy_ext (ext[ei := cstr s i]) s (i + 1) (ei + 1) else ext[ei := 0])"
  by pat_completeness auto
termination
  by (relation "measure (\<lambda>(ext, s, i, ei). length s - i)") (auto intro: cstr_measure)

declare find_char.simps [simp del] copy_base.simps [simp del] copy_ext.simps [simp del]

definition split_name :: "'d platform \<Rightarrow> 'd \<Rightarrow> u8 list \<Rightarrow> nat \<Rightarrow> u8 list \<times> u8 list" where
  "split_name M d s dot =
     (copy_base (take 9 (stk M d)) s dot 0, copy_ext (take 4 (stk M d)) s (dot + 1) 0)"

text \<open>The part of a path behind the slash, looked up in the directory before it.\<close>

definition find_below ::
    "'d platform \<Rightarrow> u8 list \<Rightarrow> nat \<Rightarrow> fat16_dirent \<Rightarrow> 'd kernel \<Rightarrow> bool \<times> fat16_dirent \<times> 'd kernel" where
  "find_below M arg slash out k =
     (let dirname = arg[slash := 0];
          rest = drop (slash + 1) arg
      in case find_in_root M dirname [] (raw_dirent M (dev k)) k of (ok, dir, k) \<Rightarrow>
        if ok \<and> de_attr dir AND 0x10 \<noteq> 0
        then (case find_char 0x2E rest 0 of
                Some dot \<Rightarrow>
                  (case split_name M (dev k) rest dot of (nm, ext) \<Rightarrow> find_in_dir M (de_cluster dir) nm ext out k)
              | None \<Rightarrow> find_in_dir M (de_cluster dir) rest [] out k)
        else (False, out, k))"

section \<open>Printing a file\<close>

definition read_bytes :: "memory \<Rightarrow> u32 \<Rightarrow> u32 \<Rightarrow> u8 list" where
  "read_bytes m a n = map (\<lambda>i. m (a + of_nat i)) [0..<unat n]"

definition write_bytes :: "memory \<Rightarrow> u32 \<Rightarrow> u8 list \<Rightarrow> memory" where
  "write_bytes m a bs = fold (\<lambda>i m. m(a + of_nat i := bs ! i)) [0..<length bs] m"

text \<open>\<open>kfree\<close> on the kernel state.\<close>

definition release :: "u32 \<Rightarrow> 'd kernel \<Rightarrow> 'd kernel option" where
  "release p k = do { h \<leftarrow> kfree p (hp k); Some (k\<lparr>hp := h\<rparr>) }"

definition catdisk_find :: "'d platform \<Rightarrow> u8 list \<Rightarrow> 'd kernel \<Rightarrow> bool \<times> fat16_dirent \<times> 'd kernel" where
  "catdisk_find M arg k =
     (let file = raw_dirent M (dev k)
      in case find_char 0x2F arg 0 of
        None \<Rightarrow>
          (case find_in_root M arg [] file k of (found, file, k) \<Rightarrow>
             if found then (True, file, k)
             else case find_char 0x2E arg 0 of
               None \<Rightarrow> (False, file, k)
             | Some dot \<Rightarrow>
                 (case split_name M (dev k) arg dot of (nm, ext) \<Rightarrow> find_in_root M nm ext file k))
      | Some slash \<Rightarrow> find_below M arg slash file k)"

definition command_catdisk :: "'d platform \<Rightarrow> u8 list option \<Rightarrow> 'd kernel \<Rightarrow> 'd kernel option" where
  "command_catdisk M arg k =
     (case arg of
        None \<Rightarrow> Some (say M ''Usage: catdisk <file> or catdisk <dir>/<file>\<newline>'' k)
      | Some a \<Rightarrow>
          (case mount_fat16_partition M k of (ok, k) \<Rightarrow>
             if \<not> ok then Some (say M ''No FAT16 partition mounted - run mkpart/mkfs first.\<newline>'' k)
             else case catdisk_find M a k of (found, file, k) \<Rightarrow>
               if \<not> found then Some (say M ''File not found.\<newline>'' k)
               else if de_size file = 0 then Some (say M ''(empty file)\<newline>'' k)
               else do {
                 (buf, h) \<leftarrow> kmalloc (de_size file + 1) (hp k);
                 let k = k\<lparr>hp := h\<rparr>;
                 if buf = 0 then Some (say M ''Out of heap memory.\<newline>'' k)
                 else do {
                   (ok, bytes, d) \<leftarrow> fat16_read_file (disk_io M) (fat k) (de_cluster file) (de_size file)
                     (read_bytes (ram k) buf (de_size file)) (de_size file) (dev k);
                   let k = set_dev d (k\<lparr>ram := write_bytes (ram k) buf bytes\<rparr>);
                   if \<not> ok then release buf (say M ''Read failed.\<newline>'' k)
                   else do {
                     let k = k\<lparr>ram := (ram k)(buf + de_size file := 0)\<rparr>;
                     let k = put M (read_bytes (ram k) buf (de_size file)) k;
                     let k = say M ''\<newline>'' k;
                     release buf k
                   }
                 }
               }))"

section \<open>Running a program\<close>

definition runelf_find :: "'d platform \<Rightarrow> u8 list \<Rightarrow> 'd kernel \<Rightarrow> bool \<times> fat16_dirent \<times> 'd kernel" where
  "runelf_find M arg k =
     (let file = raw_dirent M (dev k)
      in case find_char 0x2F arg 0 of
        None \<Rightarrow>
          (case find_char 0x2E arg 0 of
             Some dot \<Rightarrow> (case split_name M (dev k) arg dot of (nm, ext) \<Rightarrow> find_in_root M nm ext file k)
           | None \<Rightarrow> find_in_root M arg [] file k)
      | Some slash \<Rightarrow> find_below M arg slash file k)"

definition command_runelf :: "'d platform \<Rightarrow> u8 list option \<Rightarrow> 'd kernel \<Rightarrow> 'd kernel option" where
  "command_runelf M arg k =
     (case arg of
        None \<Rightarrow> Some (say M ''Usage: runelf <file> or runelf <dir>/<file>\<newline>'' k)
      | Some a \<Rightarrow>
          (case mount_fat16_partition M k of (ok, k) \<Rightarrow>
             if \<not> ok then Some (say M ''No FAT16 partition mounted - run mkpart/mkfs first.\<newline>'' k)
             else case runelf_find M a k of (found, file, k) \<Rightarrow>
               if \<not> found then Some (say M ''File not found.\<newline>'' k)
               else if de_size file = 0 then Some (say M ''Empty file - not a valid ELF.\<newline>'' k)
               else do {
                 (buf, h) \<leftarrow> kmalloc (de_size file) (hp k);
                 let k = k\<lparr>hp := h\<rparr>;
                 if buf = 0 then Some (say M ''Out of heap memory.\<newline>'' k)
                 else do {
                   (ok, bytes, d) \<leftarrow> fat16_read_file (disk_io M) (fat k) (de_cluster file) (de_size file)
                     (read_bytes (ram k) buf (de_size file)) (de_size file) (dev k);
                   let k = set_dev d (k\<lparr>ram := write_bytes (ram k) buf bytes\<rparr>);
                   if \<not> ok then release buf (say M ''Read failed.\<newline>'' k)
                   else do {
                     let k = say M ''Loading ELF32 ('' k;
                     let k = put_uint M (de_size file) k;
                     let k = say M '' bytes)...\<newline>'' k;
                     (ok, m) \<leftarrow> elf32_load_and_run (program M) (entry_slot M) buf (de_size file) (ram k);
                     let k = k\<lparr>ram := m\<rparr>;
                     if \<not> ok
                     then release buf (say M ''ELF load failed: invalid header, unsupported format, or corrupt program headers.\<newline>'' k)
                     else release buf (say M ''Program returned.\<newline>'' k)
                   }
                 }
               }))"

end
