(* ===== verification/Interpreter.thy ===== *)
theory Interpreter
  imports DiskCommands
begin

text \<open>
  The command interpreter (\<^verbatim>\<open>kernel/shell/interpreter.c\<close>) and the commands of
  \<^verbatim>\<open>kernel/shell/shell.c\<close>.

  \<^item> \<open>interpret_command\<close> and \<open>command_loop\<close> call each other.  The model counts the calls of
    \<open>interpret_command\<close> that may be nested; \<open>None\<close> is the result when they run out, when a loop
    never ends, and when the code's behaviour is undefined.  A nested call gets a shorter
    line, so more nesting than the line has characters never happens.
\<close>

abbreviation (input) SHELL_BUFFER_SIZE :: nat where "SHELL_BUFFER_SIZE \<equiv> 128"

section \<open>Splitting the line\<close>

function skip_word :: "u8 list \<Rightarrow> nat \<Rightarrow> nat" where
  "skip_word input p = (if cstr input p \<noteq> 0 \<and> cstr input p \<noteq> 0x20 then skip_word input (p + 1) else p)"
  by pat_completeness auto
termination
  by (relation "measure (\<lambda>(input, p). length input - p)") (auto intro: cstr_measure)

function skip_spaces :: "u8 list \<Rightarrow> nat \<Rightarrow> nat" where
  "skip_spaces input p = (if cstr input p = 0x20 then skip_spaces input (p + 1) else p)"
  by pat_completeness auto
termination
  by (relation "measure (\<lambda>(input, p). length input - p)") (auto intro: cstr_measure)

declare skip_word.simps [simp del] skip_spaces.simps [simp del]

text \<open>The changed line, and the index of the argument in it.\<close>

definition split_args :: "u8 list \<Rightarrow> nat option \<times> u8 list" where
  "split_args input =
     (let p = skip_word input 0
      in if cstr input p \<noteq> 0x20 then (None, input)
         else
           let input = input[p := 0];
               p = skip_spaces input (p + 1)
           in if cstr input p = 0 then (None, input) else (Some p, input))"

section \<open>Commands of the shell\<close>

definition command_help :: "'d platform \<Rightarrow> 'd kernel \<Rightarrow> 'd kernel" where
  "command_help M k = say M (
     ''Available commands:\<newline>'' @
     ''help                       - show this list\<newline>'' @
     ''clear                      - clear the screen\<newline>'' @
     ''about                      - information about AlderKernel\<newline>'' @
     ''echo <text>                - print text\<newline>'' @
     ''uname [-a|-s|-r|-m]        - show system info\<newline>'' @
     ''req-syscallop <number>     - request a syscall operation (stub)\<newline>'' @
     ''memtest                    - run a simple memory test\<newline>'' @
     ''meminfo                    - show physical + heap memory stats\<newline>'' @
     ''ls [path]                  - list a directory\<newline>'' @
     ''cd [path]                  - change directory\<newline>'' @
     ''pwd                        - print working directory\<newline>'' @
     ''cat <file>                 - print a file's contents\<newline>'' @
     ''halt                       - stop the CPU\<newline>'' @
     ''loop <command>             - repeat a command at max speed until a key is pressed\<newline>'' @
     ''diskinfo                   - probe primary ATA disk and dump MBR\<newline>'' @
     ''partinfo                   - list MBR partition table entries\<newline>'' @
     ''runelf <file>              - load and run a trusted ELF32 binary (ring 0, no isolation)\<newline>'' @
     ''\<newline>'' @
     ''Press Up/Down to recall previous commands.\<newline>'') k"

definition command_clear :: "'d platform \<Rightarrow> 'd kernel \<Rightarrow> 'd kernel" where
  "command_clear M k = k\<lparr>con := clear_screen (io M) 0 (con k)\<rparr>"

definition command_about :: "'d platform \<Rightarrow> 'd kernel \<Rightarrow> 'd kernel" where
  "command_about M k = say M (
     ''AlderKernel\<newline>'' @
     ''A small hobby operating system kernel.\<newline>'' @
     ''Shell: zSlash\<newline>'' @
     ''Made by loren-wastaken\<newline>'') k"

definition command_echo :: "'d platform \<Rightarrow> u8 list \<Rightarrow> 'd kernel \<Rightarrow> 'd kernel" where
  "command_echo M args k = say M ''\<newline>'' (put M args k)"

definition command_halt :: "'d platform \<Rightarrow> 'd kernel \<Rightarrow> 'd kernel control" where
  "command_halt M k = Halts (say M ''CPU halted.\<newline>'' k)"

text \<open>
  \<open>command_loop\<close>: first the keys already typed are read, then the command runs until the
  next key.  \<open>run\<close> interprets a line; \<open>stack\<close> is what the two local arrays hold at first.
\<close>

partial_function (option) drain_keys :: "'d platform \<Rightarrow> 'd kernel \<Rightarrow> 'd kernel option" where
  "drain_keys M k = (case read_key M k of (c, k) \<Rightarrow> if c \<noteq> 0 then drain_keys M k else Some k)"

partial_function (option) loop_command ::
    "(u8 list \<Rightarrow> 'd kernel \<Rightarrow> 'd kernel control option) \<Rightarrow> 'd platform \<Rightarrow> u8 list \<Rightarrow> u8 list \<Rightarrow> u32 \<Rightarrow>
     'd kernel \<Rightarrow> (u32 \<times> 'd kernel) control option" where
  "loop_command run M saved working iterations k =
     (case read_key M k of (c, k) \<Rightarrow>
        if c \<noteq> 0 then Some (Returns (iterations, k))
        else do {
          working \<leftarrow> str_copy working saved;
          r \<leftarrow> run working k;
          case r of
            Halts k \<Rightarrow> Some (Halts (iterations, k))
          | Returns k \<Rightarrow> loop_command run M saved working (iterations + 1) k
        })"

definition command_loop ::
    "(u8 list \<Rightarrow> 'd kernel \<Rightarrow> 'd kernel control option) \<Rightarrow> 'd platform \<Rightarrow> u8 list option \<Rightarrow> 'd kernel \<Rightarrow>
     'd kernel control option" where
  "command_loop run M arg k =
     (case arg of
        None \<Rightarrow> Some (Returns (say M ''Usage: loop <command>\<newline>'' k))
      | Some a \<Rightarrow> do {
          saved \<leftarrow> str_copy (take SHELL_BUFFER_SIZE (stk M (dev k))) a;
          let k = say M (''Looping '' @ [CHR 0x27]) k;
          let k = put M saved k;
          let k = say M (CHR 0x27 # '' at max speed - press any key to stop.\<newline>'') k;
          k \<leftarrow> drain_keys M k;
          r \<leftarrow> loop_command run M saved (take SHELL_BUFFER_SIZE (stk M (dev k))) 0 k;
          case r of
            Halts (_, k) \<Rightarrow> Some (Halts k)
          | Returns (iterations, k) \<Rightarrow>
              Some (Returns (say M '' iterations.\<newline>'' (put_uint M iterations (say M ''\<newline>Loop stopped after '' k))))
        })"

section \<open>The interpreter\<close>

definition commands :: "'d platform \<Rightarrow> u8 list \<Rightarrow> u8 list option \<Rightarrow> 'd kernel \<Rightarrow> 'd kernel control option" where
  "commands M cmd args k =
     (if strcmp cmd (chars ''uname'') = 0 then Some (Returns (command_uname M args k))
      else if strcmp cmd (chars ''req-syscallop'') = 0 then command_req_syscallop M args k
      else if strcmp cmd (chars ''memtest'') = 0 then Some (Returns (command_memtest M k))
      else if strcmp cmd (chars ''ls'') = 0
      then do { c \<leftarrow> command_ls (io M) args (files k) (con k); Some (Returns (k\<lparr>con := c\<rparr>)) }
      else if strcmp cmd (chars ''cd'') = 0
      then do { (v, c) \<leftarrow> command_cd (io M) args (files k) (con k); Some (Returns (k\<lparr>files := v, con := c\<rparr>)) }
      else if strcmp cmd (chars ''pwd'') = 0
      then do { c \<leftarrow> command_pwd (io M) (files k) (con k); Some (Returns (k\<lparr>con := c\<rparr>)) }
      else if strcmp cmd (chars ''cat'') = 0
      then do { c \<leftarrow> command_cat (io M) args (files k) (con k); Some (Returns (k\<lparr>con := c\<rparr>)) }
      else if strcmp cmd (chars ''meminfo'') = 0 then Some (Returns (command_meminfo M k))
      else if strcmp cmd (chars ''diskinfo'') = 0 then Some (Returns (command_diskinfo M k))
      else if strcmp cmd (chars ''partinfo'') = 0 then Some (Returns (command_partinfo M k))
      else if strcmp cmd (chars ''mkpart'') = 0 then Some (Returns (command_mkpart M k))
      else if strcmp cmd (chars ''mkfs'') = 0 then Some (Returns (command_mkfs M k))
      else if strcmp cmd (chars ''install'') = 0 then map_option Returns (command_install M k)
      else if strcmp cmd (chars ''lsdisk'') = 0 then map_option Returns (command_lsdisk M args k)
      else if strcmp cmd (chars ''catdisk'') = 0 then map_option Returns (command_catdisk M args k)
      else if strcmp cmd (chars ''runelf'') = 0 then map_option Returns (command_runelf M args k)
      else Some (Returns (say M ''\<newline>'' (put M cmd (say M ''Unknown command: '' k)))))"

text \<open>
  The dispatch of \<open>interpret_command\<close>; the tests for \<open>loop\<close> and the others are on different
  words, so their order does not matter.  \<open>depth\<close> is the number of nested calls left.
\<close>

fun interpret_command :: "nat \<Rightarrow> 'd platform \<Rightarrow> u8 list \<Rightarrow> 'd kernel \<Rightarrow> 'd kernel control option" where
  "interpret_command 0 M input k = None"
| "interpret_command (Suc depth) M input k =
     (case split_args input of (p, input) \<Rightarrow>
        let args = map_option (\<lambda>p. drop p input) p
        in if cstr input 0 = 0 then Some (Returns k)
           else if strcmp input (chars ''help'') = 0 then Some (Returns (command_help M k))
           else if strcmp input (chars ''clear'') = 0 then Some (Returns (command_clear M k))
           else if strcmp input (chars ''about'') = 0 then Some (Returns (command_about M k))
           else if strcmp input (chars ''halt'') = 0 then Some (command_halt M k)
           else if strcmp input (chars ''echo'') = 0
           then Some (Returns (command_echo M (case args of None \<Rightarrow> [] | Some a \<Rightarrow> a) k))
           else if strcmp input (chars ''loop'') = 0
           then command_loop (interpret_command depth M) M args k
           else commands M input args k)"

end
