(* ===== verification/Shell.thy ===== *)
theory Shell
  imports Interpreter
begin

text \<open>
  The line editor and the main loop of the shell (\<^verbatim>\<open>kernel/shell/shell.c\<close>).

  \<^item> An access outside one of the static arrays, and one through a null pointer, is \<open>None\<close>.
  \<^item> \<open>shell_start\<close> never returns: \<open>shell_iteration\<close> is one round of its loop, \<open>shell_run n\<close> the
    first \<open>n\<close> rounds.  In a round with no key the processor sleeps until the next interrupt.
  \<^item> The specification is an editor on a line, a list of at most 16 lines, and a position in it.
\<close>

abbreviation (input) HISTORY_SIZE :: u32 where "HISTORY_SIZE \<equiv> 16"

record shell =
  shell_buffer :: "u8 list"
  history :: "u8 list list"
  history_count :: u32
  history_next :: u32
  history_browse_index :: int
  saved_current :: "u8 list"
  idx :: u32

definition shell_boot :: shell where
  "shell_boot = \<lparr>shell_buffer = replicate SHELL_BUFFER_SIZE 0,
     history = replicate (unat HISTORY_SIZE) (replicate SHELL_BUFFER_SIZE 0), history_count = 0,
     history_next = 0, history_browse_index = -1, saved_current = replicate SHELL_BUFFER_SIZE 0, idx = 0\<rparr>"

definition history_add :: "u8 list \<Rightarrow> shell \<Rightarrow> shell option" where
  "history_add cmd s =
     (if cstr cmd 0 = 0 then Some s
      else do {
        slot \<leftarrow> get_at (history s) (unat (history_next s));
        slot \<leftarrow> str_copy slot cmd;
        let s = s\<lparr>history := (history s)[unat (history_next s) := slot]\<rparr>;
        let s = s\<lparr>history_next := (history_next s + 1) mod HISTORY_SIZE\<rparr>;
        Some (if history_count s < HISTORY_SIZE then s\<lparr>history_count := history_count s + 1\<rparr> else s)
      })"

text \<open>The index of the entry, \<open>None\<close> for a null pointer.\<close>

definition history_get :: "u32 \<Rightarrow> shell \<Rightarrow> u32 option" where
  "history_get back s =
     (if back \<ge> history_count s then None
      else Some ((history_next s + HISTORY_SIZE - 1 - back) mod HISTORY_SIZE))"

function redraw_loop :: "'d platform \<Rightarrow> u8 list \<Rightarrow> nat \<Rightarrow> u8 list \<Rightarrow> 'd kernel \<Rightarrow> (nat \<times> u8 list \<times> 'd kernel) option" where
  "redraw_loop M new_content i buf k =
     (if cstr new_content i \<noteq> 0 \<and> i < SHELL_BUFFER_SIZE - 1
      then do {
        buf \<leftarrow> put_at buf i (cstr new_content i);
        redraw_loop M new_content (i + 1) buf (put_char M (cstr new_content i) k)
      }
      else do { buf \<leftarrow> put_at buf i 0; Some (i, buf, k) })"
  by pat_completeness auto
termination
  by (relation "measure (\<lambda>(M, new_content, i, buf, k). length new_content - i)") (auto intro: cstr_measure)

declare redraw_loop.simps [simp del]

text \<open>The result is stored in \<open>idx\<close>, as at every call.\<close>

definition redraw_line :: "'d platform \<Rightarrow> u32 \<Rightarrow> u8 list \<Rightarrow> shell \<times> 'd kernel \<Rightarrow> (shell \<times> 'd kernel) option" where
  "redraw_line M old_len new_content sk =
     (case sk of (s, k) \<Rightarrow> do {
        let k = (put_char M 0x08 ^^ unat old_len) k;
        (i, buf, k) \<leftarrow> redraw_loop M new_content 0 (shell_buffer s) k;
        Some (s\<lparr>shell_buffer := buf, idx := of_nat i\<rparr>, k)
      })"

definition print_prompt :: "'d platform \<Rightarrow> 'd kernel \<Rightarrow> 'd kernel option" where
  "print_prompt M k =
     do {
       let k = say M ''\<newline>zSlash '' k;
       c \<leftarrow> vfs_print_cwd_path (io M) (files k) (con k);
       Some (say M ''> '' (k\<lparr>con := c\<rparr>))
     }"

text \<open>The branches of the loop.  \<open>recall\<close> redraws the line with a history entry.\<close>

definition recall :: "'d platform \<Rightarrow> shell \<times> 'd kernel \<Rightarrow> (shell \<times> 'd kernel) option" where
  "recall M sk =
     do {
       entry \<leftarrow> history_get (word_of_int (history_browse_index (fst sk))) (fst sk);
       line \<leftarrow> get_at (history (fst sk)) (unat entry);
       redraw_line M (idx (fst sk)) line sk
     }"

definition key_up :: "'d platform \<Rightarrow> shell \<times> 'd kernel \<Rightarrow> (shell \<times> 'd kernel) option" where
  "key_up M sk =
     (case sk of (s, k) \<Rightarrow> do {
        s \<leftarrow> (if history_browse_index s = -1
              then do {
                buf \<leftarrow> put_at (shell_buffer s) (unat (idx s)) 0;
                saved \<leftarrow> str_copy (saved_current s) buf;
                Some (s\<lparr>shell_buffer := buf, saved_current := saved\<rparr>)
              }
              else Some s);
        if (word_of_int (history_browse_index s + 1) :: u32) < history_count s
        then recall M (s\<lparr>history_browse_index := history_browse_index s + 1\<rparr>, k)
        else Some (s, k)
      })"

definition key_down :: "'d platform \<Rightarrow> shell \<times> 'd kernel \<Rightarrow> (shell \<times> 'd kernel) option" where
  "key_down M sk =
     (case sk of (s, k) \<Rightarrow>
        if history_browse_index s > 0
        then recall M (s\<lparr>history_browse_index := history_browse_index s - 1\<rparr>, k)
        else if history_browse_index s = 0
        then redraw_line M (idx s) (saved_current s) (s\<lparr>history_browse_index := -1\<rparr>, k)
        else Some (s, k))"

definition key_backspace :: "'d platform \<Rightarrow> shell \<times> 'd kernel \<Rightarrow> shell \<times> 'd kernel" where
  "key_backspace M sk =
     (case sk of (s, k) \<Rightarrow>
        if idx s > 0 then (s\<lparr>idx := idx s - 1\<rparr>, put_char M 0x08 k) else (s, k))"

definition key_char :: "'d platform \<Rightarrow> u8 \<Rightarrow> shell \<times> 'd kernel \<Rightarrow> (shell \<times> 'd kernel) option" where
  "key_char M c sk =
     (case sk of (s, k) \<Rightarrow>
        if unat (idx s) < SHELL_BUFFER_SIZE - 1
        then do {
          buf \<leftarrow> put_at (shell_buffer s) (unat (idx s)) c;
          Some (s\<lparr>shell_buffer := buf, idx := idx s + 1\<rparr>, put_char M c k)
        }
        else Some (s, k))"

text \<open>Up to the call of the interpreter, and from its return on.\<close>

definition key_enter :: "'d platform \<Rightarrow> shell \<times> 'd kernel \<Rightarrow> (shell \<times> 'd kernel) option" where
  "key_enter M sk =
     (case sk of (s, k) \<Rightarrow> do {
        let k = put_char M 0x0A k;
        buf \<leftarrow> put_at (shell_buffer s) (unat (idx s)) 0;
        s \<leftarrow> history_add buf (s\<lparr>shell_buffer := buf\<rparr>);
        Some (s\<lparr>history_browse_index := -1\<rparr>, k)
      })"

definition run_line :: "'d platform \<Rightarrow> shell \<times> 'd kernel \<Rightarrow> (shell \<times> 'd kernel) control option" where
  "run_line M sk =
     (case sk of (s, k) \<Rightarrow> do {
        r \<leftarrow> interpret_command SHELL_BUFFER_SIZE M (shell_buffer s) k;
        case r of
          Halts k \<Rightarrow> Some (Halts (s, k))
        | Returns k \<Rightarrow> do {
            k \<leftarrow> print_prompt M k;
            Some (Returns (s\<lparr>shell_buffer := snd (split_args (shell_buffer s)), idx := 0\<rparr>, k))
          }
      })"

definition shell_key :: "'d platform \<Rightarrow> u8 \<Rightarrow> shell \<times> 'd kernel \<Rightarrow> (shell \<times> 'd kernel) control option" where
  "shell_key M c sk =
     (if c = 0 then Some (Returns sk)
      else if c = KEY_ARROW_UP then map_option Returns (key_up M sk)
      else if c = KEY_ARROW_DOWN then map_option Returns (key_down M sk)
      else if c = 0x0A then do { sk \<leftarrow> key_enter M sk; run_line M sk }
      else if c = 0x08 then Some (Returns (key_backspace M sk))
      else map_option Returns (key_char M c sk))"

definition shell_iteration :: "'d platform \<Rightarrow> shell \<times> 'd kernel \<Rightarrow> (shell \<times> 'd kernel) control option" where
  "shell_iteration M sk =
     (case sk of (s, k) \<Rightarrow> case read_key M k of (c, k) \<Rightarrow> shell_key M c (s, k))"

definition shell_welcome :: "'d platform \<Rightarrow> shell \<times> 'd kernel \<Rightarrow> (shell \<times> 'd kernel) option" where
  "shell_welcome M sk =
     (case sk of (s, k) \<Rightarrow> do {
        let s = s\<lparr>idx := 0\<rparr>;
        let k = say M ''\<newline>Welcome to zSlash.\<newline>Type 'help' for a list of commands.\<newline>'' k;
        k \<leftarrow> print_prompt M k;
        Some (s, k)
      })"

fun shell_run :: "nat \<Rightarrow> 'd platform \<Rightarrow> shell \<times> 'd kernel \<Rightarrow> (shell \<times> 'd kernel) control option" where
  "shell_run 0 M sk = Some (Returns sk)"
| "shell_run (Suc n) M sk = and_then (shell_iteration M sk) (shell_run n M)"

definition shell_start :: "nat \<Rightarrow> 'd platform \<Rightarrow> shell \<times> 'd kernel \<Rightarrow> (shell \<times> 'd kernel) control option" where
  "shell_start n M sk = do { sk \<leftarrow> shell_welcome M sk; shell_run n M sk }"

end
