(* ===== verification/InterpreterSpec.thy ===== *)
theory InterpreterSpec
  imports Interpreter
begin

text \<open>
  What the interpreter does with a line: how it reads it (\<open>split_args_spec\<close>), which command it runs
  (\<open>command_table\<close>, \<open>interpret_dispatch\<close>), and that nested calls do not run out: \<open>loop\<close> passes a
  shorter line on, so \<open>interpret_command\<close> with more depth than the line has characters does
  not depend on the depth.
\<close>

section \<open>The words of a line\<close>

definition word_of :: "u8 list \<Rightarrow> u8 list" where
  "word_of s = takeWhile (\<lambda>c. c \<noteq> 0x20) s"

definition rest_of :: "u8 list \<Rightarrow> u8 list" where
  "rest_of s = dropWhile (\<lambda>c. c = 0x20) (dropWhile (\<lambda>c. c \<noteq> 0x20) s)"

lemma skip_word_eq: "skip_word s p = p + length (word_of (c_string (drop p s)))"
proof (induction s p rule: skip_word.induct)
  case (1 s p)
  show ?case
    by (subst skip_word.simps, subst c_string_drop) (use 1 in \<open>auto simp: word_of_def\<close>)
qed

lemma skip_spaces_eq: "skip_spaces s p = p + length (takeWhile (\<lambda>c. c = 0x20) (c_string (drop p s)))"
proof (induction s p rule: skip_spaces.induct)
  case (1 s p)
  show ?case
    by (subst skip_spaces.simps, subst c_string_drop) (use 1 in auto)
qed

lemma c_string_drop_in: "n \<le> length (c_string s) \<Longrightarrow> c_string (drop n s) = drop n (c_string s)"
proof (induction s arbitrary: n)
  case (Cons x s)
  then show ?case by (cases n) (auto split: if_splits)
qed simp

lemma cstr_in: "n < length (c_string s) \<Longrightarrow> cstr s n = c_string s ! n"
  using length_c_string [of s] by (simp add: c_string_def cstr_def takeWhile_nth)

lemma cstr_end: "cstr s (length (c_string s)) = 0"
  using nth_length_takeWhile [of "\<lambda>ch. ch \<noteq> 0" s] by (auto simp: cstr_def c_string_def)

lemma c_string_terminate: "n < length s \<Longrightarrow> n \<le> length (c_string s) \<Longrightarrow> c_string (s[n := 0]) = take n (c_string s)"
proof (induction s arbitrary: n)
  case (Cons x s)
  then show ?case by (cases n) (auto split: if_splits)
qed simp

lemma split_args_spec:
  assumes "split_args s = (p, s')"
  shows "c_string s' = word_of (c_string s) \<and> length s' = length s \<and>
    (case p of None \<Rightarrow> rest_of (c_string s) = []
     | Some i \<Rightarrow> c_string (drop i s') = rest_of (c_string s) \<and> rest_of (c_string s) \<noteq> [])"
proof -
  let ?cs = "c_string s"
  define n where "n = length (word_of ?cs)"
  have skip: "skip_word s 0 = n" by (simp add: skip_word_eq n_def)
  have word: "word_of ?cs = take n ?cs" by (simp add: n_def word_of_def takeWhile_eq_take [symmetric])
  have drop_n: "dropWhile (\<lambda>c. c \<noteq> 0x20) ?cs = drop n ?cs" by (simp add: n_def word_of_def dropWhile_eq_drop)
  have n: "n \<le> length ?cs" by (simp add: n_def word_of_def length_takeWhile_le)
  show ?thesis
  proof (cases "n = length ?cs")
    case True
    then have "cstr s n \<noteq> 0x20" using cstr_end [of s] by simp
    moreover have "rest_of ?cs = []" by (simp add: rest_of_def drop_n True)
    ultimately show ?thesis using assms skip True word by (simp add: split_args_def Let_def split: if_splits)
  next
    case False
    then have lt: "n < length ?cs" using n by simp
    then have at_n: "?cs ! n = 0x20"
      using nth_length_takeWhile [of "\<lambda>c. c \<noteq> 0x20" ?cs] by (simp add: n_def word_of_def)
    define s1 where "s1 = s[n := 0]"
    define p1 where "p1 = skip_spaces s1 (n + 1)"
    let ?tl = "drop (n + 1) ?cs"
    have tl: "c_string (drop (n + 1) s1) = ?tl" using lt by (simp add: s1_def c_string_drop_in)
    then have p1: "p1 = n + 1 + length (takeWhile (\<lambda>c. c = 0x20) ?tl)" by (simp add: p1_def skip_spaces_eq)
    have "drop n ?cs = 0x20 # ?tl" using lt at_n by (simp flip: Cons_nth_drop_Suc)
    then have rest: "rest_of ?cs = dropWhile (\<lambda>c. c = 0x20) ?tl" by (simp add: rest_of_def drop_n)
    then have rest': "rest_of ?cs = drop p1 ?cs" by (simp add: p1 dropWhile_eq_drop add.commute)
    have "length (takeWhile (\<lambda>c. c = 0x20) ?tl) \<le> length ?tl" by (rule length_takeWhile_le)
    then have p1_le: "p1 \<le> length ?cs" using lt p1 by simp
    have behind: "c_string (drop p1 s1) = rest_of ?cs"
      using p1 p1_le by (simp add: s1_def c_string_drop_in rest')
    have "cstr s1 p1 = 0 \<longleftrightarrow> c_string (drop p1 s1) = []" by (subst c_string_drop) simp
    then have zero: "cstr s1 p1 = 0 \<longleftrightarrow> rest_of ?cs = []" by (simp add: behind)
    have "length ?cs \<le> length s" by (rule length_c_string)
    then have "c_string s1 = take n ?cs" using lt by (simp add: s1_def c_string_terminate)
    moreover have "split_args s = (if rest_of ?cs = [] then None else Some p1, s1)"
      using at_n cstr_in [OF lt] zero unfolding split_args_def skip Let_def s1_def [symmetric] p1_def [symmetric] by simp
    ultimately show ?thesis using assms behind word by (auto simp: s1_def)
  qed
qed

section \<open>Nesting\<close>

lemma str_copy_from_fits:
  "str_copy_from dst src i = Some d \<Longrightarrow> i + length (c_string (drop i src)) < length dst"
proof (induction dst src i rule: str_copy_from.induct)
  case (1 dst src i)
  show ?case
  proof (cases "cstr src i = 0")
    case True
    then have "c_string (drop i src) = []" by (subst c_string_drop) simp
    with 1(2) True show ?thesis
      by (subst (asm) str_copy_from.simps) (simp add: put_at_def split: if_splits)
  next
    case False
    then have "c_string (drop i src) = cstr src i # c_string (drop (Suc i) src)" by (subst c_string_drop) simp
    with 1 False show ?thesis
      by (subst (asm) (2) str_copy_from.simps) (auto simp: put_at_def split: if_splits)
  qed
qed

lemma str_copy_some:
  assumes "str_copy dst src = Some d"
  shows "d = store_at 0 (c_string src @ [0]) dst" and "c_string d = c_string src"
proof -
  have "length (c_string src) < length dst" using str_copy_from_fits [of dst src 0 d] assms by (simp add: str_copy_def)
  from str_copy_eq [OF this] assms show d: "d = store_at 0 (c_string src @ [0]) dst" by simp
  then show "c_string d = c_string src" by (simp add: c_string_store)
qed

text \<open>\<open>loop\<close> interprets only copies of its argument.\<close>

lemma loop_command_mono:
  assumes r: "loop_command run M saved working it k = Some r"
    and same: "\<And>w k. c_string w = c_string saved \<Longrightarrow> run w k = run' w k"
  shows "loop_command run' M saved working it k = Some r"
proof -
  have "\<forall>run'. (\<forall>w k. c_string w = c_string saved \<longrightarrow> run w k = run' w k) \<longrightarrow>
      loop_command run' M saved working it k = Some r"
  proof (rule loop_command.raw_induct [OF _ r, where P = "\<lambda>run M saved working it k r.
      \<forall>run'. (\<forall>w k. c_string w = c_string saved \<longrightarrow> run w k = run' w k) \<longrightarrow>
        loop_command run' M saved working it k = Some r"], intro allI impI)
    fix f and run run' :: "u8 list \<Rightarrow> 'a kernel \<Rightarrow> 'a kernel control option" and M saved working it k r
    assume IH: "\<And>run M saved working it k r. f run M saved working it k = Some r \<Longrightarrow>
        \<forall>run'. (\<forall>w k. c_string w = c_string saved \<longrightarrow> run w k = run' w k) \<longrightarrow>
          loop_command run' M saved working it k = Some r"
      and run: "(case read_key M k of (c, k) \<Rightarrow>
        if c \<noteq> 0 then Some (Returns (it, k))
        else do {
          working \<leftarrow> str_copy working saved;
          r \<leftarrow> run working k;
          case r of
            Halts k \<Rightarrow> Some (Halts (it, k))
          | Returns k \<Rightarrow> f run M saved working (it + 1) k
        }) = Some r"
      and same: "\<forall>w k. c_string w = c_string saved \<longrightarrow> run w k = run' w k"
    obtain c k1 where key: "read_key M k = (c, k1)" by (cases "read_key M k")
    show "loop_command run' M saved working it k = Some r"
    proof (cases "c = 0")
      case False
      with key run show ?thesis by (subst loop_command.simps) simp
    next
      case True
      with key run obtain w r1 where w: "str_copy working saved = Some w" "run w k1 = Some r1"
        "(case r1 of Halts k \<Rightarrow> Some (Halts (it, k)) | Returns k \<Rightarrow> f run M saved w (it + 1) k) = Some r"
        by (auto split: Option.bind_splits)
      have "run' w k1 = Some r1" using same str_copy_some(2) [OF w(1)] w(2) by auto
      moreover have "(case r1 of Halts k \<Rightarrow> Some (Halts (it, k))
          | Returns k \<Rightarrow> loop_command run' M saved w (it + 1) k) = Some r"
        using w(3) IH [THEN spec, THEN mp, OF _ same] by (cases r1) auto
      ultimately show ?thesis using key True w(1) by (subst loop_command.simps) simp
    qed
  qed
  with same show ?thesis by blast
qed

lemma loop_command_cong:
  assumes "\<And>w k. c_string w = c_string saved \<Longrightarrow> run w k = run' w k"
  shows "loop_command run M saved working it k = loop_command run' M saved working it k"
proof (cases "loop_command run M saved working it k")
  case (Some r)
  from loop_command_mono [OF this assms] Some show ?thesis by simp
next
  case None
  show ?thesis
  proof (cases "loop_command run' M saved working it k")
    case (Some r)
    have "run' w k = run w k" if "c_string w = c_string saved" for w k using assms that by simp
    from loop_command_mono [OF Some this] None show ?thesis by simp
  qed (use None in simp)
qed

lemma command_loop_cong:
  assumes "\<And>w k. c_string w = c_string a \<Longrightarrow> run w k = run' w k"
  shows "command_loop run M (Some a) k = command_loop run' M (Some a) k"
proof (cases "str_copy (take 128 (stk M (dev k))) a")
  case (Some saved)
  then have "c_string saved = c_string a" by (rule str_copy_some(2))
  then have "loop_command run M saved w it k = loop_command run' M saved w it k" for w it k
    by (intro loop_command_cong assms) simp
  with Some show ?thesis by (simp add: command_loop_def)
qed (simp add: command_loop_def)

lemma word_of_append: "s = word_of s @ dropWhile (\<lambda>c. c \<noteq> 0x20) s"
  by (simp add: word_of_def)

lemma rest_shorter: "word_of s \<noteq> [] \<Longrightarrow> length (rest_of s) < length s"
proof -
  assume "word_of s \<noteq> []"
  then have "0 < length (word_of s)" by simp
  moreover have "length s = length (word_of s) + length (dropWhile (\<lambda>c. c \<noteq> 0x20) s)"
    using arg_cong [OF word_of_append, of length s] by (simp only: length_append)
  moreover have "length (rest_of s) \<le> length (dropWhile (\<lambda>c. c \<noteq> 0x20) s)"
    unfolding rest_of_def by (rule length_dropWhile_le)
  ultimately show ?thesis by linarith
qed

lemma interpret_depth:
  "length (c_string input) < n \<Longrightarrow> length (c_string input) < m \<Longrightarrow>
   interpret_command n M input k = interpret_command m M input k"
proof (induction n arbitrary: m input k)
  case (Suc n)
  then obtain m' where m: "m = Suc m'" by (cases m) auto
  obtain p s where split: "split_args input = (p, s)" by (cases "split_args input")
  note sp = split_args_spec [OF split]
  have nested: "command_loop (interpret_command n M) M (map_option (\<lambda>p. drop p s) p) k =
      command_loop (interpret_command m' M) M (map_option (\<lambda>p. drop p s) p) k"
    if "c_string s = c_string (chars ''loop'')"
  proof (cases p)
    case None
    then show ?thesis by (simp add: command_loop_def)
  next
    case (Some i)
    with sp have rest: "c_string (drop i s) = rest_of (c_string input)" by simp
    have "word_of (c_string input) \<noteq> []" using sp that by auto
    then have "length (rest_of (c_string input)) < length (c_string input)" by (rule rest_shorter)
    with Suc.prems m have "interpret_command n M w k = interpret_command m' M w k"
      if "c_string w = c_string (drop i s)" for w k
      using Suc.IH [of w m' k] that rest by simp
    then show ?thesis unfolding Some option.map by (rule command_loop_cong)
  qed
  show ?case unfolding m interpret_command.simps split split_conv Let_def strcmp_0
    using nested by (simp del: chars_simps)
qed simp

section \<open>The commands\<close>

text \<open>
  The commands by name, in alphabetical order, each with what it does with the argument string;
  \<open>run\<close> is how \<open>loop\<close> interprets a line.
\<close>

definition command_table ::
    "(u8 list \<Rightarrow> 'd kernel \<Rightarrow> 'd kernel control option) \<Rightarrow> 'd platform \<Rightarrow>
     (u8 list \<times> (u8 list option \<Rightarrow> 'd kernel \<Rightarrow> 'd kernel control option)) list" where
  "command_table run M =
     [(chars ''about'', \<lambda>arg k. Some (Returns (command_about M k))),
      (chars ''cat'', \<lambda>arg k. do { c \<leftarrow> command_cat (io M) arg (files k) (con k); Some (Returns (k\<lparr>con := c\<rparr>)) }),
      (chars ''catdisk'', \<lambda>arg k. map_option Returns (command_catdisk M arg k)),
      (chars ''cd'', \<lambda>arg k. do { (v, c) \<leftarrow> command_cd (io M) arg (files k) (con k);
                                 Some (Returns (k\<lparr>files := v, con := c\<rparr>)) }),
      (chars ''clear'', \<lambda>arg k. Some (Returns (command_clear M k))),
      (chars ''diskinfo'', \<lambda>arg k. Some (Returns (command_diskinfo M k))),
      (chars ''echo'', \<lambda>arg k. Some (Returns (command_echo M (case arg of None \<Rightarrow> [] | Some a \<Rightarrow> a) k))),
      (chars ''halt'', \<lambda>arg k. Some (command_halt M k)),
      (chars ''help'', \<lambda>arg k. Some (Returns (command_help M k))),
      (chars ''install'', \<lambda>arg k. map_option Returns (command_install M k)),
      (chars ''loop'', \<lambda>arg k. command_loop run M arg k),
      (chars ''ls'', \<lambda>arg k. do { c \<leftarrow> command_ls (io M) arg (files k) (con k); Some (Returns (k\<lparr>con := c\<rparr>)) }),
      (chars ''lsdisk'', \<lambda>arg k. map_option Returns (command_lsdisk M arg k)),
      (chars ''meminfo'', \<lambda>arg k. Some (Returns (command_meminfo M k))),
      (chars ''memtest'', \<lambda>arg k. Some (Returns (command_memtest M k))),
      (chars ''mkfs'', \<lambda>arg k. Some (Returns (command_mkfs M k))),
      (chars ''mkpart'', \<lambda>arg k. Some (Returns (command_mkpart M k))),
      (chars ''partinfo'', \<lambda>arg k. Some (Returns (command_partinfo M k))),
      (chars ''pwd'', \<lambda>arg k. do { c \<leftarrow> command_pwd (io M) (files k) (con k); Some (Returns (k\<lparr>con := c\<rparr>)) }),
      (chars ''req-syscallop'', \<lambda>arg k. command_req_syscallop M arg k),
      (chars ''runelf'', \<lambda>arg k. map_option Returns (command_runelf M arg k)),
      (chars ''uname'', \<lambda>arg k. Some (Returns (command_uname M arg k)))]"

text \<open>An empty line does nothing; an unknown command is reported by its name.\<close>

definition run_word ::
    "(u8 list \<Rightarrow> 'd kernel \<Rightarrow> 'd kernel control option) \<Rightarrow> 'd platform \<Rightarrow> u8 list \<Rightarrow> u8 list option \<Rightarrow> 'd kernel \<Rightarrow>
     'd kernel control option" where
  "run_word run M word arg k =
     (if word = [] then Some (Returns k)
      else case map_of (command_table run M) word of
        Some command \<Rightarrow> command arg k
      | None \<Rightarrow> Some (Returns (say M ''\<newline>'' (put M word (say M ''Unknown command: '' k)))))"

lemma chars_eq_iff: "chars a = chars b \<longleftrightarrow> a = b"
proof -
  have u: "unat (of_char c :: u8) = of_char c" for c
  proof -
    have "(of_char c :: u8) = of_nat (of_char c)" by (rule of_nat_of_char [symmetric])
    then show ?thesis using nat_of_char_less_256 [of c] by (simp only: unat_of_nat) simp
  qed
  have "(of_char c :: u8) = of_char d \<Longrightarrow> c = d" for c d
    using u [of c] u [of d] by (metis of_char_eq_iff)
  then have "inj (of_char :: char \<Rightarrow> u8)" by (rule injI)
  then show ?thesis by (simp add: chars_def inj_map_eq_map)
qed

lemma text_loop_c_string: "text_loop (c_string s) c = text_loop s c"
  by (induction s arbitrary: c) auto

lemma put_c_string: "put M s k = put M (c_string s) k"
  by (simp add: put_def print_text_def text_loop_c_string)

lemma c_string_chars_words:
  "c_string (chars ''uname'') = chars ''uname''" "c_string (chars ''req-syscallop'') = chars ''req-syscallop''"
  "c_string (chars ''memtest'') = chars ''memtest''" "c_string (chars ''ls'') = chars ''ls''"
  "c_string (chars ''cd'') = chars ''cd''" "c_string (chars ''pwd'') = chars ''pwd''"
  "c_string (chars ''cat'') = chars ''cat''" "c_string (chars ''meminfo'') = chars ''meminfo''"
  "c_string (chars ''diskinfo'') = chars ''diskinfo''" "c_string (chars ''partinfo'') = chars ''partinfo''"
  "c_string (chars ''mkpart'') = chars ''mkpart''" "c_string (chars ''mkfs'') = chars ''mkfs''"
  "c_string (chars ''install'') = chars ''install''" "c_string (chars ''lsdisk'') = chars ''lsdisk''"
  "c_string (chars ''catdisk'') = chars ''catdisk''" "c_string (chars ''runelf'') = chars ''runelf''"
  "c_string (chars ''help'') = chars ''help''" "c_string (chars ''clear'') = chars ''clear''"
  "c_string (chars ''about'') = chars ''about''" "c_string (chars ''halt'') = chars ''halt''"
  "c_string (chars ''echo'') = chars ''echo''" "c_string (chars ''loop'') = chars ''loop''"
  by simp_all

lemma interpret_dispatch:
  assumes "split_args input = (p, line)"
  shows "interpret_command (Suc n) M input k =
    run_word (interpret_command n M) M (c_string line) (map_option (\<lambda>i. drop i line) p) k"
proof -
  define w where "w = c_string line"
  have empty: "cstr line 0 = 0 \<longleftrightarrow> w = []" unfolding w_def by (cases line) (auto simp: cstr_def)
  have unknown: "put M line k = put M w k" for k unfolding w_def by (rule put_c_string)
  show ?thesis
    unfolding interpret_command.simps assms split_conv Let_def strcmp_0 commands_def run_word_def command_table_def
      c_string_chars_words unknown empty w_def [symmetric]
    by (auto simp: chars_eq_iff simp del: chars_simps)
qed

section \<open>The property\<close>

text \<open>
  C38. What the interpreter does with a line.  It cuts it into its first word and, behind the
  spaces after it, the argument (none when nothing follows).  An empty word does nothing; each of
  the 22 command words runs its command, with the argument where the command takes one; any
  other word is reported as an unknown command.  Nesting is bounded by the line: with more nested
  calls allowed than the line has characters, the result does not depend on how many.
\<close>

theorem interpreter_reads_line:
  assumes "split_args input = (p, line)"
  shows "c_string line = word_of (c_string input) \<and>
    map_option (\<lambda>i. c_string (drop i line)) p =
      (if rest_of (c_string input) = [] then None else Some (rest_of (c_string input))) \<and>
    interpret_command (Suc n) M input k =
      run_word (interpret_command n M) M (word_of (c_string input)) (map_option (\<lambda>i. drop i line) p) k \<and>
    (length (c_string input) < n \<and> length (c_string input) < m \<longrightarrow>
       interpret_command n M input k = interpret_command m M input k)"
  using split_args_spec [OF assms] interpret_dispatch [OF assms, of n M k] interpret_depth by (cases p) auto

theorem interpreter_reads_line_witness:
  "\<forall>(M :: unit platform) k.
     c_string (snd (split_args (chars ''echo  a b'' @ [0]))) = chars ''echo'' \<and>
     map_option (\<lambda>i. c_string (drop i (snd (split_args (chars ''echo  a b'' @ [0])))))
       (fst (split_args (chars ''echo  a b'' @ [0]))) = Some (chars ''a b'') \<and>
     interpret_command 12 M (chars ''echo  a b'' @ [0]) k =
       Some (Returns (command_echo M (chars ''a b'' @ [0]) k)) \<and>
     interpret_command 12 M (chars ''echo  a b'' @ [0]) k = interpret_command 128 M (chars ''echo  a b'' @ [0]) k"
proof (intro allI)
  fix M :: "unit platform" and k
  let ?s = "chars ''echo  a b'' @ [0]"
  have split: "split_args ?s = (Some 6, chars ''echo'' @ [0] @ chars '' a b'' @ [0])"
    by (simp add: split_args_def Let_def skip_word.simps skip_spaces.simps cstr_def)
  have word: "word_of (c_string ?s) = chars ''echo''" by (simp add: word_of_def)
  have table: "map_of (command_table (interpret_command 11 M) M) (chars ''echo'') =
      Some (\<lambda>arg k. Some (Returns (command_echo M (case arg of None \<Rightarrow> [] | Some a \<Rightarrow> a) k)))"
    by (simp add: command_table_def chars_eq_iff del: chars_simps)
  from interpreter_reads_line [OF split, of 11 M k] have "interpret_command 12 M ?s k =
      run_word (interpret_command 11 M) M (chars ''echo'') (Some (chars ''a b'' @ [0])) k"
    unfolding word by simp
  then have run: "interpret_command 12 M ?s k = Some (Returns (command_echo M (chars ''a b'' @ [0]) k))"
    using table by (simp add: run_word_def)
  have depth: "interpret_command 12 M ?s k = interpret_command 128 M ?s k"
    using interpreter_reads_line [OF split, of 12 M k 128] by simp
  have words: "c_string (snd (split_args ?s)) = chars ''echo''"
    "map_option (\<lambda>i. c_string (drop i (snd (split_args ?s)))) (fst (split_args ?s)) = Some (chars ''a b'')"
    using interpreter_reads_line [OF split, of 12 M k 128] unfolding split by (simp_all add: word_of_def rest_of_def)
  show "c_string (snd (split_args ?s)) = chars ''echo'' \<and>
     map_option (\<lambda>i. c_string (drop i (snd (split_args ?s)))) (fst (split_args ?s)) = Some (chars ''a b'') \<and>
     interpret_command 12 M ?s k = Some (Returns (command_echo M (chars ''a b'' @ [0]) k)) \<and>
     interpret_command 12 M ?s k = interpret_command 128 M ?s k"
    by (intro conjI words run depth)
qed

end
