(* ===== verification/ShellSpec.thy ===== *)
theory ShellSpec
  imports Shell InterpreterSpec
begin

text \<open>
  The line editor refines an editor on lists: a line of at most 127 characters, the last 16
  non-empty lines, the position of the browsing keys among them, and the line set aside when
  browsing began.  No key ever makes it touch memory outside its arrays.
\<close>

section \<open>The abstract editor\<close>

record editor =
  ed_line :: "u8 list"
  ed_history :: "u8 list list"
  ed_browse :: "nat option"
  ed_saved :: "u8 list"

definition editor_start :: editor where
  "editor_start = \<lparr>ed_line = [], ed_history = [], ed_browse = None, ed_saved = []\<rparr>"

definition ed_up :: "editor \<Rightarrow> editor" where
  "ed_up e =
     (let e = (if ed_browse e = None then e\<lparr>ed_saved := ed_line e\<rparr> else e);
          n = (case ed_browse e of None \<Rightarrow> 0 | Some i \<Rightarrow> i + 1)
      in if n < length (ed_history e) then e\<lparr>ed_browse := Some n, ed_line := ed_history e ! n\<rparr> else e)"

definition ed_down :: "editor \<Rightarrow> editor" where
  "ed_down e =
     (case ed_browse e of
        None \<Rightarrow> e
      | Some 0 \<Rightarrow> e\<lparr>ed_browse := None, ed_line := ed_saved e\<rparr>
      | Some (Suc i) \<Rightarrow> e\<lparr>ed_browse := Some i, ed_line := ed_history e ! i\<rparr>)"

definition ed_enter :: "editor \<Rightarrow> editor" where
  "ed_enter e =
     e\<lparr>ed_history := (if ed_line e = [] then ed_history e else take 16 (ed_line e # ed_history e)),
       ed_browse := None\<rparr>"

definition ed_key :: "u8 \<Rightarrow> editor \<Rightarrow> editor" where
  "ed_key c e =
     (if c = 0 then e
      else if c = KEY_ARROW_UP then ed_up e
      else if c = KEY_ARROW_DOWN then ed_down e
      else if c = 0x0A then (ed_enter e)\<lparr>ed_line := []\<rparr>
      else if c = 0x08 then e\<lparr>ed_line := butlast (ed_line e)\<rparr>
      else if length (ed_line e) < 127 then e\<lparr>ed_line := ed_line e @ [c]\<rparr>
      else e)"

section \<open>The arrays hold the editor\<close>

definition line_ok :: "u8 list \<Rightarrow> bool" where
  "line_ok l \<longleftrightarrow> 0 \<notin> set l \<and> length l < 128"

definition slot_of :: "shell \<Rightarrow> nat \<Rightarrow> nat" where
  "slot_of s i = (unat (history_next s) + 15 - i) mod 16"

definition arrays_ok :: "shell \<Rightarrow> bool" where
  "arrays_ok s \<longleftrightarrow>
     length (shell_buffer s) = 128 \<and> length (history s) = 16 \<and> (\<forall>row \<in> set (history s). length row = 128) \<and>
     length (saved_current s) = 128 \<and> unat (history_next s) < 16"

definition ed_rel :: "shell \<Rightarrow> editor \<Rightarrow> bool" where
  "ed_rel s e \<longleftrightarrow>
     arrays_ok s \<and> unat (idx s) = length (ed_line e) \<and> take (length (ed_line e)) (shell_buffer s) = ed_line e \<and>
     line_ok (ed_line e) \<and> length (ed_history e) \<le> 16 \<and> history_count s = of_nat (length (ed_history e)) \<and>
     (\<forall>i < length (ed_history e). c_string (history s ! slot_of s i) = ed_history e ! i \<and> line_ok (ed_history e ! i)) \<and>
     history_browse_index s = (case ed_browse e of None \<Rightarrow> -1 | Some i \<Rightarrow> int i) \<and>
     (\<forall>i. ed_browse e = Some i \<longrightarrow> i < length (ed_history e) \<and> c_string (saved_current s) = ed_saved e \<and> line_ok (ed_saved e))"

lemma redraw_loop_run:
  assumes "length buf = 128" and "i + length (c_string (drop i s)) < 128"
  shows "\<exists>k'. redraw_loop M s i buf k =
    Some (i + length (c_string (drop i s)), store_at i (c_string (drop i s) @ [0]) buf, k') \<and> k' = k\<lparr>con := con k'\<rparr>"
  using assms
proof (induction M s i buf k rule: redraw_loop.induct)
  case (1 M s i buf k)
  show ?case
  proof (cases "cstr s i = 0")
    case True
    then have "c_string (drop i s) = []" by (subst c_string_drop) simp
    with True 1(2,3) show ?thesis
      by (subst redraw_loop.simps) (simp add: store_at_def upd_conv_take_nth_drop)
  next
    case False
    then have d: "c_string (drop i s) = cstr s i # c_string (drop (i + 1) s)" by (subst c_string_drop) simp
    let ?buf = "buf[i := cstr s i]" and ?k = "put_char M (cstr s i) k"
    have i: "i < 127" "i < length buf" using 1(2,3) d by simp_all
    have c: "cstr s i \<noteq> 0 \<and> i < 128 - 1" using False i by simp
    have "put_at buf i (cstr s i) = Some ?buf" using i by simp
    from 1(1) [OF c, of ?buf] 1(2,3) d obtain k' where
      "redraw_loop M s (i + 1) ?buf ?k =
        Some (i + 1 + length (c_string (drop (i + 1) s)), store_at (i + 1) (c_string (drop (i + 1) s) @ [0]) ?buf, k')"
      "k' = ?k\<lparr>con := con k'\<rparr>" by auto
    moreover have "store_at (i + 1) (c_string (drop (i + 1) s) @ [0]) ?buf = store_at i (c_string (drop i s) @ [0]) buf"
      using i by (simp add: store_at_def d take_Suc_conv_app_nth)
    moreover have "redraw_loop M s i buf k = redraw_loop M s (i + 1) ?buf ?k"
      using c i by (subst redraw_loop.simps) simp
    ultimately show ?thesis using d by (auto simp: put_char_def)
  qed
qed

lemma put_chars_frame: "\<exists>c. (put_char M ch ^^ n) k = k\<lparr>con := c\<rparr>"
  by (induction n) (auto simp: put_char_def intro: exI [of _ "con k"])

text \<open>Putting a line into the buffer.\<close>

lemma redraw_line_run:
  assumes "arrays_ok s" and "line_ok (c_string new)"
  shows "\<exists>buf c. redraw_line M old new (s, k) =
      Some (s\<lparr>shell_buffer := buf, idx := of_nat (length (c_string new))\<rparr>, k\<lparr>con := c\<rparr>) \<and>
    length buf = 128 \<and> take (length (c_string new)) buf = c_string new"
proof -
  obtain c0 where c0: "(put_char M 0x08 ^^ unat old) k = k\<lparr>con := c0\<rparr>" using put_chars_frame by blast
  have b: "length (shell_buffer s) = 128" using assms(1) by (simp add: arrays_ok_def)
  have "0 + length (c_string (drop 0 new)) < 128" using assms(2) by (simp add: line_ok_def)
  from redraw_loop_run [OF b this, of M "k\<lparr>con := c0\<rparr>"] obtain k' where
    "redraw_loop M new 0 (shell_buffer s) (k\<lparr>con := c0\<rparr>) =
      Some (length (c_string new), store_at 0 (c_string new @ [0]) (shell_buffer s), k')" "k' = k\<lparr>con := con k'\<rparr>"
    by auto
  moreover have "length (store_at 0 (c_string new @ [0]) (shell_buffer s)) = 128"
    "take (length (c_string new)) (store_at 0 (c_string new @ [0]) (shell_buffer s)) = c_string new"
    using b assms(2) by (simp_all add: line_ok_def) (simp add: store_at_def)
  ultimately show ?thesis
    by (intro exI [of _ "store_at 0 (c_string new @ [0]) (shell_buffer s)"] exI [of _ "con k'"])
      (simp add: redraw_line_def c0)
qed

lemma recall_run:
  assumes "arrays_ok s" and "length hs \<le> 16" and "history_count s = of_nat (length hs)"
    and h: "\<forall>i < length hs. c_string (history s ! slot_of s i) = hs ! i \<and> line_ok (hs ! i)"
    and i: "i < length hs" "history_browse_index s = int i"
  shows "\<exists>buf c. recall M (s, k) =
      Some (s\<lparr>shell_buffer := buf, idx := of_nat (length (hs ! i))\<rparr>, k\<lparr>con := c\<rparr>) \<and>
    length buf = 128 \<and> take (length (hs ! i)) buf = hs ! i"
proof -
  have n: "unat (history_next s) < 16" using assms(1) by (simp add: arrays_ok_def)
  have i16: "i < 16" using i assms(2) by simp
  have u: "unat (of_nat i :: u32) = i" using i16 by (simp add: unat_of_nat_small)
  have "of_nat i < (of_nat (length hs) :: u32)"
    using i assms(2) by (simp add: word_less_nat_alt unat_of_nat_small)
  define j where "j = (history_next s + 16 - 1 - of_nat i) mod 16"
  have get: "history_get (of_nat i) s = Some j"
    using \<open>of_nat i < of_nat (length hs)\<close> assms(3) unfolding history_get_def j_def by simp
  have "unat (history_next s + 16 - 1 - of_nat i) = unat (history_next s) + 15 - i"
  proof -
    have "history_next s + 16 - 1 = history_next s + 15" by simp
    moreover have "unat (history_next s + 15) = unat (history_next s) + 15" using n by (simp add: unat_plus_simple [THEN iffD1] unat_add_lem [THEN iffD1])
    moreover have "of_nat i \<le> history_next s + 15" using n i16 u calculation(2) by (simp add: word_le_nat_alt)
    ultimately show ?thesis using u by (simp only: unat_sub)
  qed
  then have slot: "unat j = slot_of s i" unfolding j_def slot_of_def unat_mod by simp
  have "slot_of s i < length (history s)" using assms(1) by (simp add: arrays_ok_def slot_of_def)
  moreover have "line_ok (c_string (history s ! slot_of s i))" "c_string (history s ! slot_of s i) = hs ! i"
    using h i(1) by simp_all
  note redraw_line_run [OF assms(1) this(1), of M "idx s" k]
  ultimately show ?thesis
    using h i(1) by (simp add: recall_def i(2) get slot)
qed

section \<open>Every key\<close>

lemma take_update_beyond: "n \<le> j \<Longrightarrow> take n (xs[j := x]) = take n xs"
  by simp

lemma take_take_le: "take n xs = ys \<Longrightarrow> m \<le> length ys \<Longrightarrow> take m xs = take m ys"
  by (metis min.absorb1 take_take take_all le_trans length_take min.cobounded1 linear)

lemma ed_relD:
  assumes "ed_rel s e"
  shows "arrays_ok s" "unat (idx s) = length (ed_line e)" "take (length (ed_line e)) (shell_buffer s) = ed_line e"
    "line_ok (ed_line e)" "length (ed_history e) \<le> 16" "history_count s = of_nat (length (ed_history e))"
    "\<forall>i < length (ed_history e). c_string (history s ! slot_of s i) = ed_history e ! i \<and> line_ok (ed_history e ! i)"
    "history_browse_index s = (case ed_browse e of None \<Rightarrow> -1 | Some i \<Rightarrow> int i)"
    "\<And>i. ed_browse e = Some i \<Longrightarrow>
       i < length (ed_history e) \<and> c_string (saved_current s) = ed_saved e \<and> line_ok (ed_saved e)"
  using assms unfolding ed_rel_def by blast+

lemma terminated_line:
  assumes "ed_rel s e"
  shows "put_at (shell_buffer s) (unat (idx s)) 0 = Some ((shell_buffer s)[unat (idx s) := 0])"
    and "c_string ((shell_buffer s)[unat (idx s) := 0]) = ed_line e"
    and "length ((shell_buffer s)[unat (idx s) := 0]) = 128"
proof -
  note r = ed_relD [OF assms]
  have l: "length (ed_line e) < 128" "0 \<notin> set (ed_line e)" using r(4) by (auto simp: line_ok_def)
  have b: "length (shell_buffer s) = 128" using r(1) by (simp add: arrays_ok_def)
  show "put_at (shell_buffer s) (unat (idx s)) 0 = Some ((shell_buffer s)[unat (idx s) := 0])"
    "length ((shell_buffer s)[unat (idx s) := 0]) = 128" using b l r(2) by simp_all
  have "(shell_buffer s)[length (ed_line e) := 0] = ed_line e @ 0 # drop (Suc (length (ed_line e))) (shell_buffer s)"
    using b l r(3) by (simp add: upd_conv_take_nth_drop)
  then show "c_string ((shell_buffer s)[unat (idx s) := 0]) = ed_line e"
    using l(2) r(2) by (simp add: c_string_terminated)
qed

lemma unat_length: "length l < 128 \<Longrightarrow> unat (of_nat (length l) :: u32) = length l"
  by (rule unat_of_nat_small) simp

text \<open>Changing the line, with the rest of the editor as it is.\<close>

lemma ed_rel_line:
  assumes "ed_rel s e" and "length buf = 128" and "take (length l) buf = l" and "line_ok l"
  shows "ed_rel (s\<lparr>shell_buffer := buf, idx := of_nat (length l)\<rparr>) (e\<lparr>ed_line := l\<rparr>)"
proof -
  have "length l < 128" using assms(4) by (simp add: line_ok_def)
  then have "unat (of_nat (length l) :: u32) = length l" by (simp add: unat_of_nat_small)
  with assms show ?thesis by (auto simp: ed_rel_def arrays_ok_def slot_of_def)
qed

lemma ed_rel_browse:
  assumes "ed_rel s e" and "i < length (ed_history e)"
    and "c_string (saved_current s) = sv" and "line_ok sv"
  shows "ed_rel (s\<lparr>history_browse_index := int i\<rparr>) (e\<lparr>ed_saved := sv, ed_browse := Some i\<rparr>)"
  using assms by (auto simp: ed_rel_def arrays_ok_def slot_of_def)

lemma ed_rel_saved: "ed_rel s e \<Longrightarrow> ed_browse e = None \<Longrightarrow> ed_rel s (e\<lparr>ed_saved := sv\<rparr>)"
  by (simp add: ed_rel_def)

lemma ed_rel_live: "ed_rel s e \<Longrightarrow> ed_rel (s\<lparr>history_browse_index := -1\<rparr>) (e\<lparr>ed_browse := None\<rparr>)"
  by (auto simp: ed_rel_def arrays_ok_def slot_of_def)

lemma recall_rel:
  assumes "ed_rel s e" and "ed_browse e = Some i"
  shows "\<exists>s' c. recall M (s, k) = Some (s', k\<lparr>con := c\<rparr>) \<and> ed_rel s' (e\<lparr>ed_line := ed_history e ! i\<rparr>)"
proof -
  note r = ed_relD [OF assms(1)]
  have i: "i < length (ed_history e)" "history_browse_index s = int i" using r(8,9) assms(2) by auto
  from recall_run [OF r(1,5,6,7) i, of M k] obtain buf c where
    "recall M (s, k) = Some (s\<lparr>shell_buffer := buf, idx := of_nat (length (ed_history e ! i))\<rparr>, k\<lparr>con := c\<rparr>)"
    "length buf = 128" "take (length (ed_history e ! i)) buf = ed_history e ! i" by blast
  with ed_rel_line [OF assms(1), of buf "ed_history e ! i"] r(7) i(1) show ?thesis by blast
qed

lemma key_up_rel:
  assumes rel: "ed_rel s e"
  shows "\<exists>s' c. key_up M (s, k) = Some (s', k\<lparr>con := c\<rparr>) \<and> ed_rel s' (ed_up e)"
proof -
  note r = ed_relD [OF rel]
  have small: "(word_of_int (int n) :: u32) < history_count s \<longleftrightarrow> n < length (ed_history e)" if "n \<le> 16" for n
    using that r(5) by (simp add: r(6) word_less_nat_alt unat_of_nat_small)
  have same: "\<exists>c. k = k\<lparr>con := c\<rparr>" by (rule exI [of _ "con k"]) simp
  show ?thesis
  proof (cases "ed_browse e")
    case (Some i)
    note i = r(9) [OF Some]
    have idx: "history_browse_index s = int i" using r(8) Some by simp
    have "(word_of_int (history_browse_index s + 1) :: u32) < history_count s \<longleftrightarrow> i + 1 < length (ed_history e)"
      using small [of "i + 1"] i r(5) idx by (simp add: add.commute)
    then have up: "key_up M (s, k) = (if i + 1 < length (ed_history e)
        then recall M (s\<lparr>history_browse_index := int (i + 1)\<rparr>, k) else Some (s, k))"
      by (simp add: key_up_def idx add.commute)
    show ?thesis
    proof (cases "i + 1 < length (ed_history e)")
      case True
      have saved: "c_string (saved_current s) = ed_saved e" "line_ok (ed_saved e)" using i by auto
      from recall_rel [OF ed_rel_browse [OF rel True saved], of "i + 1" M k] up True Some
      show ?thesis by (simp add: ed_up_def Let_def)
    next
      case False
      with up rel Some same show ?thesis by (auto simp: ed_up_def Let_def)
    qed
  next
    case None
    let ?buf = "(shell_buffer s)[unat (idx s) := 0]"
    note t = terminated_line [OF rel]
    have idx: "history_browse_index s = -1" using r(8) None by simp
    have "length (c_string ?buf) < length (saved_current s)"
      using t(2) r(1,4) by (simp add: arrays_ok_def line_ok_def)
    note copy = str_copy_eq [OF this]
    define sv where "sv = store_at 0 (c_string ?buf @ [0]) (saved_current s)"
    have "c_string sv = c_string ?buf" unfolding sv_def by (rule c_string_store)
    then have sv: "c_string sv = ed_line e" "length sv = 128"
      using t(2) r(1,4) by (simp_all add: sv_def arrays_ok_def line_ok_def)
    let ?s = "s\<lparr>shell_buffer := ?buf, saved_current := sv\<rparr>"
    have rel1: "ed_rel ?s e"
      using rel None sv(2) t(3) r(2) by (auto simp: ed_rel_def arrays_ok_def slot_of_def)
    have e1: "e\<lparr>ed_saved := ed_line e\<rparr>\<lparr>ed_browse := Some 0\<rparr> = e\<lparr>ed_browse := Some 0, ed_saved := ed_line e\<rparr>" by simp
    have up: "key_up M (s, k) = (if 0 < length (ed_history e)
        then recall M (?s\<lparr>history_browse_index := int 0\<rparr>, k) else Some (?s, k))"
      using small [of 0] t(1) copy by (simp add: key_up_def idx flip: sv_def)
    show ?thesis
    proof (cases "0 < length (ed_history e)")
      case True
      have saved: "c_string (saved_current ?s) = ed_line e" using sv(1) by simp
      from recall_rel [OF ed_rel_browse [OF rel1 True saved r(4)], of 0 M k] up True None
      show ?thesis by (simp add: ed_up_def Let_def)
    next
      case False
      have "ed_rel ?s (e\<lparr>ed_saved := ed_line e\<rparr>)" by (rule ed_rel_saved [OF rel1 None])
      with up False None same show ?thesis by (auto simp: ed_up_def Let_def)
    qed
  qed
qed

lemma key_down_rel:
  assumes rel: "ed_rel s e"
  shows "\<exists>s' c. key_down M (s, k) = Some (s', k\<lparr>con := c\<rparr>) \<and> ed_rel s' (ed_down e)"
proof -
  note r = ed_relD [OF rel]
  have same: "\<exists>c. k = k\<lparr>con := c\<rparr>" by (rule exI [of _ "con k"]) simp
  show ?thesis
  proof (cases "ed_browse e")
    case None
    with rel same r(8) show ?thesis by (auto simp: ed_down_def key_down_def)
  next
    case (Some i)
    note i = r(9) [OF Some]
    have idx: "history_browse_index s = int i" using r(8) Some by simp
    show ?thesis
    proof (cases i)
      case 0
      have "line_ok (c_string (saved_current s))" using i by simp
      from redraw_line_run [OF _ this, of "s\<lparr>history_browse_index := -1\<rparr>" M "idx s" k] r(1) obtain buf c where
        d: "redraw_line M (idx s) (saved_current s) (s\<lparr>history_browse_index := -1\<rparr>, k) =
          Some (s\<lparr>history_browse_index := -1, shell_buffer := buf, idx := of_nat (length (c_string (saved_current s)))\<rparr>,
            k\<lparr>con := c\<rparr>)" "length buf = 128"
          "take (length (c_string (saved_current s))) buf = c_string (saved_current s)"
        by (auto simp: arrays_ok_def)
      from ed_rel_line [OF ed_rel_live [OF rel] d(2,3)] i d(1) idx 0 Some
      show ?thesis by (auto simp: key_down_def ed_down_def)
    next
      case (Suc n)
      have "n < length (ed_history e)" "c_string (saved_current s) = ed_saved e" "line_ok (ed_saved e)"
        using i Suc by auto
      from recall_rel [OF ed_rel_browse [OF rel this], of n M k] idx Suc Some
      show ?thesis by (simp add: key_down_def ed_down_def)
    qed
  qed
qed

lemma key_backspace_rel:
  assumes rel: "ed_rel s e"
  shows "\<exists>s' c. key_backspace M (s, k) = (s', k\<lparr>con := c\<rparr>) \<and> ed_rel s' (e\<lparr>ed_line := butlast (ed_line e)\<rparr>)"
proof -
  note r = ed_relD [OF rel]
  have same: "\<exists>c. k = k\<lparr>con := c\<rparr>" by (rule exI [of _ "con k"]) simp
  show ?thesis
  proof (cases "idx s > 0")
    case False
    then have "ed_line e = []" using r(2) by (simp add: word_greater_zero_iff)
    then have "e\<lparr>ed_line := butlast (ed_line e)\<rparr> = e" by (cases e) simp
    then show ?thesis using rel False same by (auto simp: key_backspace_def)
  next
    case True
    let ?l = "butlast (ed_line e)"
    have "take (length ?l) (shell_buffer s) = ?l"
      using r(3) by (metis butlast_conv_take length_butlast take_take_le diff_le_self)
    moreover have "line_ok ?l" using r(4) by (auto simp: line_ok_def dest: in_set_butlastD)
    moreover have "length (shell_buffer s) = 128" using r(1) by (simp add: arrays_ok_def)
    ultimately have "ed_rel (s\<lparr>shell_buffer := shell_buffer s, idx := of_nat (length ?l)\<rparr>) (e\<lparr>ed_line := ?l\<rparr>)"
      using rel by (intro ed_rel_line)
    moreover have "of_nat (length ?l) = idx s - 1"
    proof -
      have "1 \<le> idx s" using True by (simp add: word_le_nat_alt word_less_nat_alt)
      then have "unat (idx s - 1) = length ?l" using r(2) by (simp add: unat_sub)
      moreover have "unat (of_nat (length ?l) :: u32) = length ?l"
        by (rule unat_length) (use r(4) in \<open>auto simp: line_ok_def\<close>)
      ultimately show ?thesis by (simp only: word_unat_eq_iff)
    qed
    ultimately show ?thesis using True by (auto simp: key_backspace_def put_char_def)
  qed
qed

lemma key_char_rel:
  assumes rel: "ed_rel s e" and "c \<noteq> 0"
  shows "\<exists>s' c'. key_char M c (s, k) = Some (s', k\<lparr>con := c'\<rparr>) \<and>
    ed_rel s' (if length (ed_line e) < 127 then e\<lparr>ed_line := ed_line e @ [c]\<rparr> else e)"
proof -
  note r = ed_relD [OF rel]
  have same: "\<exists>c. k = k\<lparr>con := c\<rparr>" by (rule exI [of _ "con k"]) simp
  show ?thesis
  proof (cases "length (ed_line e) < 127")
    case False
    with rel same r(2) show ?thesis by (auto simp: key_char_def)
  next
    case True
    let ?l = "ed_line e @ [c]" and ?buf = "(shell_buffer s)[unat (idx s) := c]"
    have b: "length (shell_buffer s) = 128" using r(1) by (simp add: arrays_ok_def)
    then have "take (length ?l) ?buf = ?l"
      using True r(2,3) by (simp add: take_Suc_conv_app_nth)
    moreover have "line_ok ?l" using r(4) True assms(2) by (auto simp: line_ok_def)
    ultimately have "ed_rel (s\<lparr>shell_buffer := ?buf, idx := of_nat (length ?l)\<rparr>) (e\<lparr>ed_line := ?l\<rparr>)"
      using rel b by (intro ed_rel_line) simp_all
    moreover have "of_nat (length ?l) = idx s + 1"
    proof -
      have "unat (idx s + 1) = length ?l" using r(2) True unat_Suc_below [of "idx s" 127] by (simp add: word_less_nat_alt)
      moreover have "unat (of_nat (length ?l) :: u32) = length ?l" by (rule unat_length) (use True in simp)
      ultimately show ?thesis by (simp only: word_unat_eq_iff)
    qed
    ultimately show ?thesis using True b r(2) by (auto simp: key_char_def put_char_def add.commute)
  qed
qed

lemma slot_of_next:
  assumes "unat (history_next s) < 16" and "history_next s' = (history_next s + 1) mod 16" and "i < 16"
  shows "slot_of s' i = (if i = 0 then unat (history_next s) else slot_of s (i - 1))"
    and "i < 15 \<Longrightarrow> slot_of s i \<noteq> unat (history_next s)"
proof -
  let ?n = "unat (history_next s)"
  have n: "unat (history_next s') = (?n + 1) mod 16"
    using assms(1) unat_Suc_below [of "history_next s" 16] by (simp add: assms(2) unat_mod word_less_nat_alt)
  have small: "x mod 16 = (if x < 16 then x else x - 16)" if "x < 32" for x :: nat
    using that by (auto simp: mod_if)
  have n': "unat (history_next s') = (if ?n = 15 then 0 else ?n + 1)"
    using assms(1) unfolding n by (subst small) auto
  show "slot_of s' i = (if i = 0 then ?n else slot_of s (i - 1))"
    using assms(1,3) unfolding slot_of_def n' by (subst (1 2) small) auto
  show "i < 15 \<Longrightarrow> slot_of s i \<noteq> ?n"
    using assms(1) unfolding slot_of_def by (subst small) auto
qed

lemma key_enter_rel:
  assumes rel: "ed_rel s e"
  shows "\<exists>s' c. key_enter M (s, k) = Some (s', k\<lparr>con := c\<rparr>) \<and> ed_rel s' (ed_enter e) \<and>
    c_string (shell_buffer s') = ed_line e"
proof -
  note r = ed_relD [OF rel]
  note t = terminated_line [OF rel]
  let ?buf = "(shell_buffer s)[unat (idx s) := 0]"
  have a: "length (history s) = 16" "\<forall>row \<in> set (history s). length row = 128" "unat (history_next s) < 16"
    using r(1) by (auto simp: arrays_ok_def)
  have first: "cstr ?buf 0 = 0 \<longleftrightarrow> ed_line e = []"
  proof -
    have "c_string ?buf = (if cstr ?buf 0 = 0 then [] else cstr ?buf 0 # c_string (drop (Suc 0) ?buf))"
      using c_string_drop [of 0 ?buf] by simp
    then show ?thesis using t(2) by (auto split: if_splits)
  qed
  have put: "put_char M 0x0A k = k\<lparr>con := print_char (io M) 0x0A (con k)\<rparr>" by (simp add: put_char_def)
  show ?thesis
  proof (cases "ed_line e = []")
    case True
    let ?s = "s\<lparr>shell_buffer := ?buf, history_browse_index := -1\<rparr>"
    have "key_enter M (s, k) = Some (?s, put_char M 0x0A k)"
      using t(1) first True by (simp add: key_enter_def history_add_def)
    moreover have "ed_rel ?s (ed_enter e)"
      using rel True t(3) by (auto simp: ed_rel_def ed_enter_def arrays_ok_def slot_of_def)
    ultimately show ?thesis using put t(2) by auto
  next
    case False
    let ?next = "unat (history_next s)"
    let ?slot = "store_at 0 (c_string ?buf @ [0]) (history s ! ?next)"
    have row: "length (history s ! ?next) = 128" using a by simp
    then have copy: "str_copy (history s ! ?next) ?buf = Some ?slot"
      using t(2) r(4) by (intro str_copy_eq) (simp add: line_ok_def)
    let ?count = "if history_count s < 16 then history_count s + 1 else history_count s"
    define s' where "s' = s\<lparr>shell_buffer := ?buf, history := (history s)[?next := ?slot],
      history_count := ?count, history_next := (history_next s + 1) mod 16, history_browse_index := -1\<rparr>"
    have "key_enter M (s, k) = Some (s', put_char M 0x0A k)"
      using t(1) first False a(1,3) copy by (simp add: key_enter_def history_add_def Let_def s'_def)
    moreover have "ed_rel s' (ed_enter e)"
    proof -
      have hist: "ed_history (ed_enter e) = take 16 (ed_line e # ed_history e)" using False by (simp add: ed_enter_def)
      have next': "history_next s' = (history_next s + 1) mod 16" by (simp add: s'_def)
      have len: "length (ed_history (ed_enter e)) = min 16 (Suc (length (ed_history e)))" by (simp add: hist)
      have count: "history_count s' = of_nat (length (ed_history (ed_enter e)))"
      proof -
        have "history_count s < 16 \<longleftrightarrow> length (ed_history e) < 16"
          using r(5) by (simp add: r(6) word_less_nat_alt unat_of_nat_small)
        moreover have "\<not> length (ed_history e) < 16 \<Longrightarrow> length (ed_history e) = 16" using r(5) by simp
        ultimately show ?thesis unfolding len by (cases "length (ed_history e) < 16") (simp_all add: s'_def r(6))
      qed
      have slot: "c_string ?slot = ed_line e" using c_string_store [of ?buf] t(2) by metis
      have "c_string (history s' ! slot_of s' i) = ed_history (ed_enter e) ! i \<and> line_ok (ed_history (ed_enter e) ! i)"
        if i: "i < length (ed_history (ed_enter e))" for i
      proof (cases i)
        case 0
        have "slot_of s' 0 = ?next" using slot_of_next(1) [OF a(3) next', of 0] by simp
        then show ?thesis using 0 a(1,3) slot r(4) by (simp add: hist s'_def)
      next
        case (Suc j)
        then have j: "j < 15" "j < length (ed_history e)" using i len by simp_all
        have "slot_of s' i = slot_of s j" using slot_of_next(1) [OF a(3) next', of i] Suc j by simp
        moreover have "slot_of s j \<noteq> ?next" using slot_of_next(2) [OF a(3) next', of j] j by simp
        ultimately have "history s' ! slot_of s' i = history s ! slot_of s j" by (simp add: s'_def)
        then show ?thesis using r(7) j Suc by (simp add: hist)
      qed
      moreover have "arrays_ok s'"
      proof -
        have "length ?slot = 128" using row t(2) r(4) by (simp add: line_ok_def)
        then have "\<forall>row \<in> set ((history s)[?next := ?slot]). length row = 128"
          using a(2) by (auto dest!: set_update_subset_insert [THEN subsetD])
        moreover have "unat ((history_next s + 1) mod 16) < 16" by (simp add: unat_mod)
        ultimately show ?thesis using r(1) t(3) by (simp add: arrays_ok_def s'_def)
      qed
      ultimately show ?thesis
        using r(2,3,4) count by (simp add: ed_rel_def len) (simp add: ed_enter_def s'_def)
    qed
    moreover have "c_string (shell_buffer s') = ed_line e" using t(2) by (simp add: s'_def)
    ultimately show ?thesis using put by auto
  qed
qed

lemma run_line_rel:
  assumes "ed_rel s e" and "run_line M (s, k) = Some (Returns (s', k'))"
  shows "ed_rel s' (e\<lparr>ed_line := []\<rparr>)"
proof -
  let ?buf = "snd (split_args (shell_buffer s))"
  have s': "s' = s\<lparr>shell_buffer := ?buf, idx := 0\<rparr>"
    using assms(2) by (auto simp: run_line_def split: Option.bind_splits control.splits)
  have "length ?buf = 128"
    using split_args_spec [of "shell_buffer s" "fst (split_args (shell_buffer s))" ?buf] ed_relD(1) [OF assms(1)]
    by (simp add: arrays_ok_def)
  from ed_rel_line [OF assms(1) this, of "[]"] show ?thesis by (simp add: s' line_ok_def)
qed

lemma shell_key_rel:
  assumes rel: "ed_rel s e" and "c \<noteq> 0x0A"
  shows "\<exists>s' c'. shell_key M c (s, k) = Some (Returns (s', k\<lparr>con := c'\<rparr>)) \<and> ed_rel s' (ed_key c e)"
proof -
  have same: "\<exists>c. k = k\<lparr>con := c\<rparr>" by (rule exI [of _ "con k"]) simp
  consider "c = 0" | "c = KEY_ARROW_UP" | "c = KEY_ARROW_DOWN" | "c = 0x08"
    | "c \<noteq> 0" "c \<noteq> KEY_ARROW_UP" "c \<noteq> KEY_ARROW_DOWN" "c \<noteq> 0x08" by blast
  then show ?thesis
  proof cases
    case 1
    with rel same show ?thesis by (auto simp: shell_key_def ed_key_def)
  next
    case 2
    with key_up_rel [OF rel, of M k] show ?thesis by (auto simp: shell_key_def ed_key_def)
  next
    case 3
    with key_down_rel [OF rel, of M k] show ?thesis by (auto simp: shell_key_def ed_key_def)
  next
    case 4
    with key_backspace_rel [OF rel, of M k] show ?thesis by (auto simp: shell_key_def ed_key_def)
  next
    case 5
    with key_char_rel [OF rel 5(1), of M k] assms(2) show ?thesis by (auto simp: shell_key_def ed_key_def)
  qed
qed

lemma shell_enter_rel:
  assumes "ed_rel s e"
  shows "\<exists>s1 k1. shell_key M 0x0A (s, k) = run_line M (s1, k1) \<and> c_string (shell_buffer s1) = ed_line e \<and>
    (\<forall>s' k'. run_line M (s1, k1) = Some (Returns (s', k')) \<longrightarrow> ed_rel s' (ed_key 0x0A e))"
proof -
  obtain s1 c where e: "key_enter M (s, k) = Some (s1, k\<lparr>con := c\<rparr>)" "ed_rel s1 (ed_enter e)"
    "c_string (shell_buffer s1) = ed_line e" using key_enter_rel [OF assms] by blast
  have "shell_key M 0x0A (s, k) = run_line M (s1, k\<lparr>con := c\<rparr>)" using e(1) by (simp add: shell_key_def)
  moreover have "ed_rel s' (ed_key 0x0A e)" if "run_line M (s1, k\<lparr>con := c\<rparr>) = Some (Returns (s', k'))" for s' k'
    using run_line_rel [OF e(2) that] by (simp add: ed_key_def)
  ultimately show ?thesis using e(3) by blast
qed

lemma boot_rel: "ed_rel shell_boot editor_start"
  by (simp add: ed_rel_def arrays_ok_def shell_boot_def editor_start_def line_ok_def)

section \<open>The properties\<close>

text \<open>The keys of one session, one after the other.\<close>

fun type_keys :: "'d platform \<Rightarrow> u8 list \<Rightarrow> shell \<times> 'd kernel \<Rightarrow> (shell \<times> 'd kernel) control option" where
  "type_keys M [] sk = Some (Returns sk)"
| "type_keys M (c # cs) sk = and_then (shell_key M c sk) (type_keys M cs)"

lemma type_keys_rel:
  assumes "ed_rel s e"
  shows "(\<forall>s' k'. type_keys M cs (s, k) = Some (Returns (s', k')) \<longrightarrow> ed_rel s' (fold ed_key cs e)) \<and>
     ((\<forall>sk'. type_keys M cs (s, k) \<noteq> Some (Returns sk')) \<longrightarrow>
        (\<exists>cs1 cs2 s1 k1. cs = cs1 @ 0x0A # cs2 \<and> c_string (shell_buffer s1) = ed_line (fold ed_key cs1 e) \<and>
           type_keys M cs (s, k) = run_line M (s1, k1)))"
  using assms
proof (induction cs arbitrary: s e k)
  case (Cons c cs)
  show ?case
  proof (cases "c = 0x0A")
    case False
    from shell_key_rel [OF Cons.prems this, of M k] obtain s1 k1 where
      "shell_key M c (s, k) = Some (Returns (s1, k1))" and rel: "ed_rel s1 (ed_key c e)" by blast
    then have run: "type_keys M (c # cs) (s, k) = type_keys M cs (s1, k1)" by simp
    note IH = Cons.IH [OF rel, of k1]
    show ?thesis unfolding run
    proof (intro conjI allI impI)
      fix s' k' assume "type_keys M cs (s1, k1) = Some (Returns (s', k'))"
      with IH show "ed_rel s' (fold ed_key (c # cs) e)" by simp
    next
      assume "\<forall>sk'. type_keys M cs (s1, k1) \<noteq> Some (Returns sk')"
      with IH obtain cs1 cs2 s2 k2 where "cs = cs1 @ 0x0A # cs2"
        "c_string (shell_buffer s2) = ed_line (fold ed_key cs1 (ed_key c e))"
        "type_keys M cs (s1, k1) = run_line M (s2, k2)" by blast
      then show "\<exists>cs1 cs2 s2 k2. c # cs = cs1 @ 0x0A # cs2 \<and>
          c_string (shell_buffer s2) = ed_line (fold ed_key cs1 e) \<and> type_keys M cs (s1, k1) = run_line M (s2, k2)"
        by (intro exI [of _ "c # cs1"] exI [of _ cs2] exI [of _ s2] exI [of _ k2]) simp
    qed
  next
    case True
    obtain s1 k1 where enter: "shell_key M 0x0A (s, k) = run_line M (s1, k1)"
      "c_string (shell_buffer s1) = ed_line e"
      "\<forall>s' k'. run_line M (s1, k1) = Some (Returns (s', k')) \<longrightarrow> ed_rel s' (ed_key 0x0A e)"
      using shell_enter_rel [OF Cons.prems, of M k] by blast
    show ?thesis
    proof (cases "\<exists>s' k'. run_line M (s1, k1) = Some (Returns (s', k'))")
      case False
      then have "type_keys M (c # cs) (s, k) = run_line M (s1, k1)"
        using True enter(1) by (cases "run_line M (s1, k1)"; cases "the (run_line M (s1, k1))") auto
      with False True enter(2) show ?thesis
        by (intro conjI impI exI [of _ "[]"] exI [of _ cs] exI [of _ s1] exI [of _ k1]) auto
    next
      case ret: True
      then obtain s2 k2 where r: "run_line M (s1, k1) = Some (Returns (s2, k2))" by blast
      note rel = enter(3) [rule_format, OF this]
      have run: "type_keys M (c # cs) (s, k) = type_keys M cs (s2, k2)" using True enter(1) r by simp
      note IH = Cons.IH [OF rel, of k2]
      show ?thesis unfolding run
      proof (intro conjI allI impI)
        fix s' k' assume "type_keys M cs (s2, k2) = Some (Returns (s', k'))"
        with IH True show "ed_rel s' (fold ed_key (c # cs) e)" by simp
      next
        assume "\<forall>sk'. type_keys M cs (s2, k2) \<noteq> Some (Returns sk')"
        with IH obtain cs1 cs2 s3 k3 where "cs = cs1 @ 0x0A # cs2"
          "c_string (shell_buffer s3) = ed_line (fold ed_key cs1 (ed_key 0x0A e))"
          "type_keys M cs (s2, k2) = run_line M (s3, k3)" by blast
        with True show "\<exists>cs1 cs2 s3 k3. c # cs = cs1 @ 0x0A # cs2 \<and>
            c_string (shell_buffer s3) = ed_line (fold ed_key cs1 e) \<and> type_keys M cs (s2, k2) = run_line M (s3, k3)"
          by (intro exI [of _ "c # cs1"] exI [of _ cs2] exI [of _ s3] exI [of _ k3]) simp
      qed
    qed
  qed
qed simp

text \<open>
  C39. The shell's line editor refines the editor on lists.  Whatever keys are typed after the
  shell has started, no key makes it read or write outside its arrays: as long as the commands
  return, the arrays hold the abstract editor's line, its history of at most 16 lines and its
  browsing position, and a session that does not get to its end was stopped by the command line
  of an Enter key, which is the abstract editor's line at that point.
\<close>

theorem shell_edits_lines:
  "(\<forall>s' k'. type_keys M cs (shell_boot, k) = Some (Returns (s', k')) \<longrightarrow> ed_rel s' (fold ed_key cs editor_start)) \<and>
   ((\<forall>sk'. type_keys M cs (shell_boot, k) \<noteq> Some (Returns sk')) \<longrightarrow>
      (\<exists>cs1 cs2 s1 k1. cs = cs1 @ 0x0A # cs2 \<and>
         c_string (shell_buffer s1) = ed_line (fold ed_key cs1 editor_start) \<and>
         type_keys M cs (shell_boot, k) = run_line M (s1, k1)))"
  by (rule type_keys_rel [OF boot_rel])

theorem shell_edits_lines_witness:
  "\<forall>(M :: unit platform) k. \<exists>s' k'. type_keys M [0x68, 0x69, 0x08, 0x01] (shell_boot, k) = Some (Returns (s', k')) \<and>
     ed_rel s' \<lparr>ed_line = [0x68], ed_history = [], ed_browse = None, ed_saved = [0x68]\<rparr>"
proof (intro allI)
  fix M :: "unit platform" and k
  let ?cs = "[0x68, 0x69, 0x08, 0x01] :: u8 list"
  have "0x0A \<notin> set ?cs" by simp
  then have "\<exists>s' k'. type_keys M ?cs (shell_boot, k) = Some (Returns (s', k'))"
    using shell_edits_lines [of M ?cs k] by (metis in_set_conv_decomp surj_pair)
  then obtain s' k' where run: "type_keys M ?cs (shell_boot, k) = Some (Returns (s', k'))" by blast
  then have "ed_rel s' (fold ed_key ?cs editor_start)" using shell_edits_lines [of M ?cs k] by blast
  moreover have "fold ed_key ?cs editor_start = \<lparr>ed_line = [0x68], ed_history = [], ed_browse = None, ed_saved = [0x68]\<rparr>"
    by (simp add: ed_key_def editor_start_def ed_up_def Let_def)
  ultimately show "\<exists>s' k'. type_keys M ?cs (shell_boot, k) = Some (Returns (s', k')) \<and>
     ed_rel s' \<lparr>ed_line = [0x68], ed_history = [], ed_browse = None, ed_saved = [0x68]\<rparr>"
    using run by auto
qed

end
