(* ===== verification/KernelSpec.thy ===== *)
theory KernelSpec
  imports Kernel
begin

text \<open>
  What printing does to the kernel state: the text on the screen (\<open>shown\<close>), and that the other
  devices do not notice (\<open>apart\<close>).
\<close>

section \<open>What is on the screen\<close>

text \<open>The screen shows the text \<open>t\<close>, printed on the roll \<open>r\<close>.\<close>

definition shown :: "'d kernel \<Rightarrow> u8 list \<Rightarrow> roll \<Rightarrow> bool" where
  "shown k t r \<longleftrightarrow> shows_roll (con k) (roll_text t r) \<and> 0 \<notin> set t"

lemma shown_put: "shown k t r \<Longrightarrow> 0 \<notin> set s \<Longrightarrow> shown (put M s k) (t @ s) r"
  by (auto simp: shown_def put_def intro: shows_more_chars)

lemma shown_say: "shown k t r \<Longrightarrow> 0 \<notin> set (chars s) \<Longrightarrow> shown (say M s k) (t @ chars s) r"
  unfolding say_def by (rule shown_put)

lemma shown_uint: "shown k t r \<Longrightarrow> shown (put_uint M n k) (t @ decimal (unat n)) r"
  using shown_put [of k t r "decimal (unat n)" M] decimal_digits [of 0 "unat n"]
  by (auto simp: put_def put_uint_def print_uint_text)

lemma shown_cong: "con k' = con k \<Longrightarrow> shown k' t r = shown k t r"
  by (simp add: shown_def)

lemma shown_set_dev [simp]: "shown (set_dev d k) t r = shown k t r"
  by (simp add: shown_def set_dev_def shows_roll_def)

lemma say_fields [simp]:
  "kbd (say M s k) = kbd k" "files (say M s k) = files k" "hp (say M s k) = hp k" "fat (say M s k) = fat k"
  "ram (say M s k) = ram k" "total_sectors_cache (say M s k) = total_sectors_cache k"
  "kbd (put_uint M n k) = kbd k" "files (put_uint M n k) = files k" "hp (put_uint M n k) = hp k"
  "fat (put_uint M n k) = fat k" "ram (put_uint M n k) = ram k"
  "total_sectors_cache (put_uint M n k) = total_sectors_cache k"
  by (simp_all add: say_def put_def put_uint_def)

lemma set_dev_fields [simp]:
  "kbd (set_dev d k) = kbd k" "files (set_dev d k) = files k" "hp (set_dev d k) = hp k" "fat (set_dev d k) = fat k"
  "ram (set_dev d k) = ram k" "total_sectors_cache (set_dev d k) = total_sectors_cache k"
  by (simp_all add: set_dev_def)

section \<open>What the other devices see\<close>

text \<open>A device whose state, as far as \<open>drv\<close> shows it, does not change when the cursor is moved.\<close>

definition apart :: "'d ports \<Rightarrow> ('d \<Rightarrow> 'v) \<Rightarrow> bool" where
  "apart ios drv \<longleftrightarrow> (\<forall>v d. drv (p_outb ios CRT_CTRL_PORT v d) = drv d \<and> drv (p_outb ios CRT_DATA_PORT v d) = drv d)"

lemma apart_cursor: "apart ios drv \<Longrightarrow> drv (bus (update_cursor ios c)) = drv (bus c)"
  by (simp add: apart_def update_cursor_def outb_def Let_def)

lemma advance_cursor_bus: "bus (advance_cursor c) = bus c"
proof (induction c rule: advance_cursor.induct)
  case (1 c)
  then show ?case by (subst advance_cursor.simps) (simp add: scroll_screen_def Let_def)
qed

lemma bus_newline [simp]: "bus (newline c) = bus c"
  by (simp add: newline_def advance_cursor_bus)

lemma bus_put_cell [simp]: "bus (put_cell ch c) = bus c"
  by (simp add: put_cell_def Let_def advance_cursor_bus)

lemma bus_text_loop [simp]: "bus (text_loop str c) = bus c"
  by (induction str c rule: text_loop.induct) simp_all

lemma apart_print_text: "apart ios drv \<Longrightarrow> drv (bus (print_text ios str c)) = drv (bus c)"
  by (simp add: print_text_def apart_cursor)

lemma apart_print_char: "apart ios drv \<Longrightarrow> drv (bus (print_char ios ch c)) = drv (bus c)"
  by (simp add: print_char_def apart_cursor Let_def)

lemma apart_print_uint: "apart ios drv \<Longrightarrow> drv (bus (print_uint ios n c)) = drv (bus c)"
  by (simp add: print_uint_def apart_print_char apart_print_text split_beta)

lemma apart_print_hex: "apart ios drv \<Longrightarrow> drv (bus (print_hex ios n c)) = drv (bus c)"
  by (simp add: print_hex_def apart_print_text split_beta)

lemma apart_kernel:
  assumes "apart (io M) drv"
  shows "drv (dev (put M s k)) = drv (dev k)" "drv (dev (say M t k)) = drv (dev k)"
    "drv (dev (put_uint M n k)) = drv (dev k)" "drv (dev (put_hex M n k)) = drv (dev k)"
  using assms
  by (simp_all add: put_def say_def put_uint_def put_hex_def apart_print_text apart_print_uint apart_print_hex)

lemma dev_set_dev [simp]: "dev (set_dev d k) = d"
  by (simp add: set_dev_def)

end
