(* ===== verification/Boot.thy ===== *)
theory Boot
  imports Shell KernelSpec Paging
begin

text \<open>
  Bringing the kernel up (\<^verbatim>\<open>kernel/main.c\<close>, \<^verbatim>\<open>kernel/initramfs.c\<close>).

  \<^item> \<open>kernel_start\<close> never returns; \<open>rounds\<close> is how many rounds of the shell's loop are run.
  \<^item> \<open>kernel_boots\<close> composes the components: from the memory map of the boot loader to the prompt.
\<close>

abbreviation (input) MULTIBOOT_BOOTLOADER_MAGIC :: u32 where "MULTIBOOT_BOOTLOADER_MAGIC \<equiv> 0x2BADB002"

text \<open>The kernel and the shell, the descriptor table and the processor's paging registers.\<close>

record 'd system_state =
  kern :: "'d kernel"
  sh :: shell
  idts :: idt_state
  cpu :: machine

section \<open>The code\<close>

definition initialise_interrupts :: "'d platform \<Rightarrow> 'd system_state \<Rightarrow> 'd system_state option" where
  "initialise_interrupts M s =
     do {
       let k = kern s;
       let k = set_dev (pic_remap (io M) (dev k)) k;
       let s = s\<lparr>idts := idt_init (stub_table M) (keyboard_stub_addr M) (idt_addr M) (idts s)\<rparr>;
       d \<leftarrow> ps2_init (io M) (dev k);
       Some (s\<lparr>kern := set_dev d k\<rparr>)
     }"

definition initialise_pages :: "'d platform \<Rightarrow> u32 \<Rightarrow> u32 \<Rightarrow> 'd kernel \<Rightarrow> 'd kernel option" where
  "initialise_pages M multiboot_magic multiboot_info_addr k =
     do {
       k \<leftarrow> (if multiboot_magic \<noteq> MULTIBOOT_BOOTLOADER_MAGIC
             then do {
               let k = say M ''WARNING: invalid multiboot magic - memory map may be missing.\<newline>'' k;
               p \<leftarrow> pmm_init (ram k) (kernel_end M) 0 (pm (hp k));
               Some (k\<lparr>hp := (hp k)\<lparr>pm := p\<rparr>\<rparr>)
             }
             else do {
               p \<leftarrow> pmm_init (ram k) (kernel_end M) multiboot_info_addr (pm (hp k));
               Some (k\<lparr>hp := (hp k)\<lparr>pm := p\<rparr>\<rparr>)
             });
       let k = say M ''pmm: '' k;
       let k = put_uint M (pmm_get_free_page_count (pm (hp k))) k;
       let k = say M '' / '' k;
       let k = put_uint M (pmm_get_total_page_count (pm (hp k))) k;
       Some (say M '' pages free\<newline>'' k)
     }"

definition initialise_paging :: "'d platform \<Rightarrow> 'd system_state \<Rightarrow> 'd system_state" where
  "initialise_paging M s =
     (let p = paging_init (page_tables M) (page_directory M) ((cpu s)\<lparr>phys := ram (kern s)\<rparr>);
          k = (kern s)\<lparr>ram := phys p\<rparr>
      in s\<lparr>cpu := p, kern := say M ''paging: enabled (identity-mapped first 128MB)\<newline>'' k\<rparr>)"

definition initialise_heap :: "'d platform \<Rightarrow> 'd kernel \<Rightarrow> 'd kernel option" where
  "initialise_heap M k =
     do {
       h \<leftarrow> heap_init (hp k);
       let k = k\<lparr>hp := h\<rparr>;
       let k = say M ''heap: '' k;
       let k = put_uint M (heap_get_free_bytes (hp k)) k;
       Some (say M '' bytes free\<newline>'' k)
     }"

definition kernel_main :: "nat \<Rightarrow> 'd platform \<Rightarrow> shell \<times> 'd kernel \<Rightarrow> (shell \<times> 'd kernel) control option" where
  "kernel_main rounds M sk = (case sk of (s, k) \<Rightarrow> shell_start rounds M (s, say M ''Kernel loaded!'' k))"

definition initramfs_init :: "nat \<Rightarrow> 'd platform \<Rightarrow> shell \<times> 'd kernel \<Rightarrow> (shell \<times> 'd kernel) control option" where
  "initramfs_init rounds M sk =
     (case sk of (s, k) \<Rightarrow> do {
        let k = say M ''initramfs: mounting in-RAM filesystem...\<newline>'' k;
        (v, h) \<leftarrow> vfs_init (raw_node M (ram k)) (files k, hp k);
        let k = k\<lparr>files := v, hp := h\<rparr>;
        let k = say M ''initramfs: /, /kernel, /shell mounted.\<newline>'' k;
        let k = say M ''initramfs: handing control to kernel...\<newline>'' k;
        kernel_main rounds M (s, k)
      })"

definition kernel_start :: "nat \<Rightarrow> 'd platform \<Rightarrow> u32 \<Rightarrow> u32 \<Rightarrow> 'd system_state \<Rightarrow> 'd system_state control option" where
  "kernel_start rounds M multiboot_magic multiboot_info_addr s =
     do {
       let s = s\<lparr>kern := (kern s)\<lparr>con := clear_screen (io M) BLACK (con (kern s))\<rparr>\<rparr>;
       s \<leftarrow> initialise_interrupts M s;
       k \<leftarrow> initialise_pages M multiboot_magic multiboot_info_addr (kern s);
       let s = initialise_paging M (s\<lparr>kern := k\<rparr>);
       k \<leftarrow> initialise_heap M (kern s);
       r \<leftarrow> initramfs_init rounds M (sh s, k);
       Some (map_control (\<lambda>(x, k). s\<lparr>sh := x, kern := k\<rparr>) r)
     }"

section \<open>Booting\<close>

definition boot_text :: "nat \<Rightarrow> nat \<Rightarrow> u8 list" where
  "boot_text free_pages heap_bytes =
     chars ''pmm: '' @ decimal free_pages @ chars '' / '' @ decimal 32768 @ chars '' pages free\<newline>'' @
     chars ''paging: enabled (identity-mapped first 128MB)\<newline>'' @
     chars ''heap: '' @ decimal heap_bytes @ chars '' bytes free\<newline>'' @
     chars ''initramfs: mounting in-RAM filesystem...\<newline>'' @
     chars ''initramfs: /, /kernel, /shell mounted.\<newline>'' @
     chars ''initramfs: handing control to kernel...\<newline>'' @
     chars ''Kernel loaded!'' @
     chars ''\<newline>Welcome to zSlash.\<newline>Type 'help' for a list of commands.\<newline>'' @
     chars ''\<newline>zSlash '' @ chars ''/'' @ chars ''> ''"

lemma print_prompt_shows:
  assumes "fs_ok (files k)" and "in_directory (files k) ps" and "shown k t r"
  shows "\<exists>c. print_prompt M k = Some (k\<lparr>con := c\<rparr>) \<and>
    shown (k\<lparr>con := c\<rparr>) (t @ chars ''\<newline>zSlash '' @ (if ps = [] then chars ''/'' else path_text ps) @ chars ''> '') r"
proof -
  let ?k = "say M ''\<newline>zSlash '' k" and ?u = "t @ chars ''\<newline>zSlash ''"
    and ?p = "if ps = [] then chars ''/'' else path_text ps"
  have s: "shown ?k ?u r" by (rule shown_say [OF assms(3)]) simp
  have "fs_rel (view (files k)) (files k, con ?k) (ps, roll_text ?u r)"
    using assms(1,2) s by (simp add: fs_rel_def shown_def)
  from print_cwd_refines [OF this, of "io M"] obtain c1 where c1:
    "vfs_print_cwd_path (io M) (files k) (con ?k) = Some c1"
    "shows_roll c1 (roll_text ?p (roll_text ?u r))" "0 \<notin> set ?p" by (elim exE conjE)
  have "0 \<notin> set ?u" using s unfolding shown_def by blast
  then have "shown (?k\<lparr>con := c1\<rparr>) (?u @ ?p) r"
    using c1(2,3) roll_text_append [of ?u ?p r] by (simp add: shown_def)
  from shown_say [OF this, of "''> ''" M] have
    e: "shown (say M ''> '' (?k\<lparr>con := c1\<rparr>)) ((?u @ ?p) @ chars ''> '') r" by simp
  have f: "say M ''> '' (?k\<lparr>con := c1\<rparr>) = k\<lparr>con := con (say M ''> '' (?k\<lparr>con := c1\<rparr>))\<rparr>"
    by (simp add: say_def put_def)
  have "print_prompt M k = Some (say M ''> '' (?k\<lparr>con := c1\<rparr>))" using c1(1) by (simp add: print_prompt_def)
  with e f show ?thesis by (metis append_assoc)
qed

lemma interrupts_run:
  assumes "ps2_conforms (io M) pending" and "shown (kern s) t r"
  shows "\<exists>s'. initialise_interrupts M s = Some s' \<and> shown (kern s') t r \<and>
    idts s' = idt_init (stub_table M) (keyboard_stub_addr M) (idt_addr M) (idts s) \<and> sh s' = sh s \<and> cpu s' = cpu s \<and>
    hp (kern s') = hp (kern s) \<and> files (kern s') = files (kern s) \<and> ram (kern s') = ram (kern s)"
proof -
  obtain d where "ps2_init (io M) (dev (set_dev (pic_remap (io M) (dev (kern s))) (kern s))) = Some d"
    using ps2_init_returns [OF assms(1)] by blast
  with assms(2) show ?thesis by (simp add: initialise_interrupts_def Let_def)
qed

lemma pages_run:
  assumes p: "pmm_init (ram k) (kernel_end M) addr (pm (hp k)) = Some p" "pmm_inv p" and s: "shown k [] r"
  shows "\<exists>k'. initialise_pages M MULTIBOOT_BOOTLOADER_MAGIC addr k = Some k' \<and>
    shown k' (chars ''pmm: '' @ decimal (card (avail p)) @ chars '' / '' @ decimal 32768 @ chars '' pages free\<newline>'') r \<and>
    hp k' = (hp k)\<lparr>pm := p\<rparr> \<and> files k' = files k \<and> ram k' = ram k"
proof -
  let ?k = "k\<lparr>hp := (hp k)\<lparr>pm := p\<rparr>\<rparr>"
  have u: "unat (pmm_get_free_page_count p) = card (avail p)" "unat (pmm_get_total_page_count p) = 32768"
    using p(2) by (simp_all add: pmm_get_free_page_count_def pmm_get_total_page_count_def pmm_inv_def)
  have z: "0 \<notin> set (chars ''pmm: '')" "0 \<notin> set (chars '' / '')" "0 \<notin> set (chars '' pages free\<newline>'')" by simp_all
  have "shown ?k [] r" using s by (simp add: shown_def)
  from shown_say [OF shown_uint [OF shown_say [OF shown_uint [OF shown_say [OF this z(1), of M],
    of M "pmm_get_free_page_count p"] z(2), of M], of M "pmm_get_total_page_count p"] z(3), of M]
  show ?thesis using p(1) by (simp add: initialise_pages_def u del: chars_simps)
qed

lemma heap_run:
  assumes "heap_init (hp k) = Some h" and s: "shown k t r"
  shows "\<exists>k'. initialise_heap M k = Some k' \<and>
    shown k' (t @ chars ''heap: '' @ decimal (unat (heap_get_free_bytes h)) @ chars '' bytes free\<newline>'') r \<and>
    hp k' = h \<and> files k' = files k \<and> ram k' = ram k"
proof -
  have z: "0 \<notin> set (chars ''heap: '')" "0 \<notin> set (chars '' bytes free\<newline>'')" by simp_all
  have "shown (k\<lparr>hp := h\<rparr>) t r" using s by (simp add: shown_def)
  from shown_say [OF shown_uint [OF shown_say [OF this z(1), of M], of M "heap_get_free_bytes h"] z(2), of M]
  show ?thesis using assms(1) by (simp add: initialise_heap_def del: chars_simps)
qed

lemma initramfs_run:
  assumes v: "vfs_init (raw_node M (ram k)) (files k, hp k) = Some (v, h)" and ok: "fs_ok v" "in_directory v []"
    and s: "shown k t r"
  shows "\<exists>k'. initramfs_init 0 M (x, k) = Some (Returns (x\<lparr>idx := 0\<rparr>, k')) \<and>
    shown k' (t @ chars ''initramfs: mounting in-RAM filesystem...\<newline>'' @
      chars ''initramfs: /, /kernel, /shell mounted.\<newline>'' @
      chars ''initramfs: handing control to kernel...\<newline>'' @ chars ''Kernel loaded!'' @
      chars ''\<newline>Welcome to zSlash.\<newline>Type 'help' for a list of commands.\<newline>'' @
      chars ''\<newline>zSlash '' @ chars ''/'' @ chars ''> '') r \<and>
    hp k' = h \<and> files k' = v \<and> ram k' = ram k"
proof -
  have z: "0 \<notin> set (chars ''initramfs: mounting in-RAM filesystem...\<newline>'')"
    "0 \<notin> set (chars ''initramfs: /, /kernel, /shell mounted.\<newline>'')"
    "0 \<notin> set (chars ''initramfs: handing control to kernel...\<newline>'')" "0 \<notin> set (chars ''Kernel loaded!'')"
    "0 \<notin> set (chars ''\<newline>Welcome to zSlash.\<newline>Type 'help' for a list of commands.\<newline>'')" by simp_all
  let ?k1 = "say M ''initramfs: mounting in-RAM filesystem...\<newline>'' k"
  have "shown (?k1\<lparr>files := v, hp := h\<rparr>) (t @ chars ''initramfs: mounting in-RAM filesystem...\<newline>'') r"
    using shown_say [OF s z(1), of M] by (simp add: shown_def)
  note s5 = shown_say [OF shown_say [OF shown_say [OF shown_say [OF this z(2), of M] z(3), of M] z(4), of M] z(5), of M]
  let ?k5 = "say M ''\<newline>Welcome to zSlash.\<newline>Type 'help' for a list of commands.\<newline>''
    (say M ''Kernel loaded!'' (say M ''initramfs: handing control to kernel...\<newline>''
      (say M ''initramfs: /, /kernel, /shell mounted.\<newline>'' (?k1\<lparr>files := v, hp := h\<rparr>))))"
  have "fs_ok (files ?k5)" "in_directory (files ?k5) []" using ok by simp_all
  from print_prompt_shows [OF this s5, of M] obtain c where
    c: "print_prompt M ?k5 = Some (?k5\<lparr>con := c\<rparr>)" and
    w: "shown (?k5\<lparr>con := c\<rparr>) (t @ chars ''initramfs: mounting in-RAM filesystem...\<newline>'' @
      chars ''initramfs: /, /kernel, /shell mounted.\<newline>'' @
      chars ''initramfs: handing control to kernel...\<newline>'' @ chars ''Kernel loaded!'' @
      chars ''\<newline>Welcome to zSlash.\<newline>Type 'help' for a list of commands.\<newline>'' @
      chars ''\<newline>zSlash '' @ chars ''/'' @ chars ''> '') r" by (auto simp del: chars_simps)
  have "initramfs_init 0 M (x, k) = Some (Returns (x\<lparr>idx := 0\<rparr>, ?k5\<lparr>con := c\<rparr>))"
    using v c by (simp add: initramfs_init_def kernel_main_def shell_start_def shell_welcome_def)
  then show ?thesis using w by (intro exI [of _ "?k5\<lparr>con := c\<rparr>"]) simp
qed

lemma boot_chain:
  assumes ps2: "ps2_conforms (io M) pending"
    and bitmap: "length (bitmap (pm (hp (kern s)))) = BITMAP_SIZE" and idt: "length (idt (idts s)) = 256"
    and files: "nodes (files (kern s)) = Map.empty" and J: "\<And>m. fresh_ok (raw_node M m)"
    and mbi: "addr \<noteq> 0" "mbi_flags (read_mbi (ram (kern s)) addr) AND MULTIBOOT_INFO_MEM_MAP \<noteq> 0"
    and chain: "mmap_chain (ram (kern s)) (mbi_mmap_addr (read_mbi (ram (kern s)) addr))
      (mbi_mmap_addr (read_mbi (ram (kern s)) addr) + mbi_mmap_length (read_mbi (ram (kern s)) addr)) es"
    and usable: "pages = (\<Union>e \<in> set es. entry_pages e) - {..unat (kernel_end M) div 4096}" "pages \<noteq> {}"
    and layout: "paging_layout (page_tables M) (page_directory M)"
  shows "\<exists>s' n. kernel_start 0 M MULTIBOOT_BOOTLOADER_MAGIC addr s = Some (Returns s') \<and>
     shown (kern s') (boot_text (card pages) n) (fresh_roll 0x20) \<and>
     vfs_ok (files (kern s'), hp (kern s')) \<and> fs_ok (files (kern s')) \<and> view (files (kern s')) = boot_view \<and>
     in_directory (files (kern s')) [] \<and>
     (\<forall>w la. translate (cpu s') w la = (if unat la < 134217728 then Some la else None)) \<and>
     idts s' = idt_init (stub_table M) (keyboard_stub_addr M) (idt_addr M) (idts s) \<and>
     sh s' = (sh s)\<lparr>idx := 0\<rparr>"
proof -
  let ?r = "fresh_roll 0x20"
  let ?s0 = "s\<lparr>kern := (kern s)\<lparr>con := clear_screen (io M) BLACK (con (kern s))\<rparr>\<rparr>"
  have "shows_roll (clear_screen (io M) BLACK (con (kern s))) ?r"
    using clear_screen_shows(1) [of "io M" BLACK "con (kern s)"] by simp
  then have "shown (kern ?s0) [] ?r" by (simp add: shown_def)
  from interrupts_run [OF ps2 this] obtain s1 where
    s1: "initialise_interrupts M ?s0 = Some s1" "shown (kern s1) [] ?r"
      "idts s1 = idt_init (stub_table M) (keyboard_stub_addr M) (idt_addr M) (idts s)" "sh s1 = sh s"
      "hp (kern s1) = hp (kern s)" "files (kern s1) = files (kern s)" "ram (kern s1) = ram (kern s)" by auto
  obtain p where p: "pmm_init (ram (kern s)) (kernel_end M) addr (pm (hp (kern s))) = Some p" "pmm_inv p" "avail p = pages"
    using pmm_init_run [OF bitmap mbi chain, of "kernel_end M"] usable(1) by blast
  with s1 obtain k2 where k2: "initialise_pages M MULTIBOOT_BOOTLOADER_MAGIC addr (kern s1) = Some k2"
    "shown k2 (chars ''pmm: '' @ decimal (card pages) @ chars '' / '' @ decimal 32768 @ chars '' pages free\<newline>'') ?r"
    "hp k2 = (hp (kern s))\<lparr>pm := p\<rparr>" "files k2 = files (kern s)"
    using pages_run [of "kern s1" M addr p ?r] by auto
  define s3 where "s3 = initialise_paging M (s1\<lparr>kern := k2\<rparr>)"
  have z: "0 \<notin> set (chars ''paging: enabled (identity-mapped first 128MB)\<newline>'')" by simp
  have s3: "shown (kern s3) ((chars ''pmm: '' @ decimal (card pages) @ chars '' / '' @ decimal 32768 @ chars '' pages free\<newline>'') @
      chars ''paging: enabled (identity-mapped first 128MB)\<newline>'') ?r"
    "hp (kern s3) = (hp (kern s))\<lparr>pm := p\<rparr>" "files (kern s3) = files (kern s)" "idts s3 = idts s1" "sh s3 = sh s1"
    "translate (cpu s3) w la = (if unat la < 134217728 then Some la else None)" for w la
  proof -
    let ?p = "paging_init (page_tables M) (page_directory M) ((cpu s1)\<lparr>phys := ram k2\<rparr>)"
    have "shown (k2\<lparr>ram := phys ?p\<rparr>) (chars ''pmm: '' @ decimal (card pages) @ chars '' / '' @ decimal 32768 @ chars '' pages free\<newline>'') ?r"
      using k2(2) by (simp add: shown_def)
    from shown_say [OF this z, of M] k2 translate_identity [OF layout]
    show "shown (kern s3) ((chars ''pmm: '' @ decimal (card pages) @ chars '' / '' @ decimal 32768 @ chars '' pages free\<newline>'') @
        chars ''paging: enabled (identity-mapped first 128MB)\<newline>'') ?r"
      "hp (kern s3) = (hp (kern s))\<lparr>pm := p\<rparr>" "files (kern s3) = files (kern s)" "idts s3 = idts s1" "sh s3 = sh s1"
      "translate (cpu s3) w la = (if unat la < 134217728 then Some la else None)"
      by (simp_all add: s3_def initialise_paging_def Let_def del: chars_simps)
  qed
  have av: "pmm_inv (pm (hp (kern s3)))" "0 \<notin> avail (pm (hp (kern s3)))" "avail (pm (hp (kern s3))) \<noteq> {}"
    using p usable by (simp_all add: s3(2))
  obtain h where h: "heap_init (hp (kern s3)) = Some h" using heap_init_inv [OF av(1,2)] by blast
  from heap_run [OF h s3(1), of M] obtain k4 where k4: "initialise_heap M (kern s3) = Some k4"
    "shown k4 (((chars ''pmm: '' @ decimal (card pages) @ chars '' / '' @ decimal 32768 @ chars '' pages free\<newline>'') @
      chars ''paging: enabled (identity-mapped first 128MB)\<newline>'') @
      chars ''heap: '' @ decimal (unat (heap_get_free_bytes h)) @ chars '' bytes free\<newline>'') ?r"
    "hp k4 = h" "files k4 = files (kern s)" using s3(3) by auto
  have "nodes (files k4) = Map.empty" using k4(4) files by simp
  from vfs_init_run [OF heap_room [OF av h this] this J, of "ram k4"] obtain v h' where
    v: "vfs_init (raw_node M (ram k4)) (files k4, hp k4) = Some (v, h')" "room_for 0 (v, h')" "fs_ok v"
      "view v = boot_view" "in_directory v []" using k4(3) by blast
  from initramfs_run [OF v(1,3,5) k4(2), of "sh s3"] obtain k5 where
    k5: "initramfs_init 0 M (sh s3, k4) = Some (Returns ((sh s3)\<lparr>idx := 0\<rparr>, k5))"
      "shown k5 (boot_text (card pages) (unat (heap_get_free_bytes h))) ?r" "hp k5 = h'" "files k5 = v"
    by (auto simp: boot_text_def simp del: chars_simps)
  let ?s' = "s3\<lparr>sh := (sh s3)\<lparr>idx := 0\<rparr>, kern := k5\<rparr>"
  have "kernel_start 0 M MULTIBOOT_BOOTLOADER_MAGIC addr s = Some (Returns ?s')"
    using s1(1) k2(1) k4(1) k5(1) by (simp add: kernel_start_def s3_def Let_def)
  moreover have "vfs_ok (v, h')" by (rule room_vfs_ok [OF v(2) fs_ok_store [OF v(3)]])
  ultimately show ?thesis
    using k5 v s3(4,5,6) s1(3,4) by (intro exI [of _ ?s'] exI [of _ "unat (heap_get_free_bytes h)"]) simp
qed

section \<open>Properties\<close>

text \<open>
  C40.  The kernel boots: when the boot loader hands over a memory map with usable pages above the
  kernel, \<open>kernel_start\<close> reaches the prompt.  It returns (no step of the bring-up loops, halts or
  runs out of memory); the screen shows the report of every stage, with the true number of free
  pages; the first 128 MB are identity mapped and nothing else is; every exception and the
  keyboard have their gates; and the file system is well formed and holds the boot tree, with the
  root as working directory.
\<close>

theorem kernel_boots:
  assumes "ps2_conforms (io M) pending"
    and "length (bitmap (pm (hp (kern s)))) = BITMAP_SIZE" and "length (idt (idts s)) = 256"
    and "nodes (files (kern s)) = Map.empty" and "\<And>m. fresh_ok (raw_node M m)"
    and "addr \<noteq> 0" "mbi_flags (read_mbi (ram (kern s)) addr) AND MULTIBOOT_INFO_MEM_MAP \<noteq> 0"
    and "mmap_chain (ram (kern s)) (mbi_mmap_addr (read_mbi (ram (kern s)) addr))
      (mbi_mmap_addr (read_mbi (ram (kern s)) addr) + mbi_mmap_length (read_mbi (ram (kern s)) addr)) es"
    and "pages = (\<Union>e \<in> set es. entry_pages e) - {..unat (kernel_end M) div 4096}" "pages \<noteq> {}"
    and "paging_layout (page_tables M) (page_directory M)"
  shows "\<exists>s' n. kernel_start 0 M MULTIBOOT_BOOTLOADER_MAGIC addr s = Some (Returns s') \<and>
     shown (kern s') (boot_text (card pages) n) (fresh_roll 0x20) \<and>
     vfs_ok (files (kern s'), hp (kern s')) \<and> fs_ok (files (kern s')) \<and> view (files (kern s')) = boot_view \<and>
     in_directory (files (kern s')) [] \<and>
     (\<forall>w la. translate (cpu s') w la = (if unat la < 134217728 then Some la else None)) \<and>
     (\<forall>v. dispatch (idts s') v =
        (if v < 32 then Some \<lparr>offset = stub_table M v, segment = 0x08, is_interrupt_gate = True\<rparr>
         else if v = 33 then Some \<lparr>offset = keyboard_stub_addr M, segment = 0x08, is_interrupt_gate = True\<rparr>
         else None))"
proof -
  obtain s' n where s': "kernel_start 0 M MULTIBOOT_BOOTLOADER_MAGIC addr s = Some (Returns s')"
     "shown (kern s') (boot_text (card pages) n) (fresh_roll 0x20)"
     "vfs_ok (files (kern s'), hp (kern s'))" "fs_ok (files (kern s'))" "view (files (kern s')) = boot_view"
     "in_directory (files (kern s')) []"
     "\<forall>w la. translate (cpu s') w la = (if unat la < 134217728 then Some la else None)"
     "idts s' = idt_init (stub_table M) (keyboard_stub_addr M) (idt_addr M) (idts s)"
    using boot_chain [OF assms] by (elim exE conjE)
  have "pic_conforms demo_pics (\<lambda>d. d)" by (simp add: pic_conforms_def demo_pics_def)
  from interrupts_wired [OF this assms(3) s'(8) refl] s' show ?thesis by blast
qed

text \<open>A machine whose devices stay silent, with the memory map of one region from 1 MB to 8 MB.\<close>

definition quiet_platform :: "unit platform" where
  "quiet_platform =
     \<lparr>io = \<lparr>p_inb = (\<lambda>port d. (0, d)), p_outb = (\<lambda>port v d. d), p_inw = (\<lambda>port d. (0, d)), p_outw = (\<lambda>port v d. d)\<rparr>,
      stk = (\<lambda>_. replicate 512 0), key_irqs = (\<lambda>_. 0), program = (\<lambda>_ _. None), entry_slot = 0x106000,
      raw_node = (\<lambda>_ _. zero_node), kernel_end = 0x200000, stub_table = (\<lambda>i. 0x100000 + of_nat i),
      keyboard_stub_addr = 0x100200, idt_addr = 0x105000, page_tables = 0x110000, page_directory = 0x10F000\<rparr>"

definition cold_machine :: "unit system_state" where
  "cold_machine =
     \<lparr>kern = \<lparr>con = \<lparr>vmem = (\<lambda>_. 0), cursor_index = 0, bus = ()\<rparr>, kbd = keyboard_boot, files = vfs_boot,
        hp = \<lparr>pm = boot_pmm, blocks = Map.empty, heap_head = 0, used_bytes = 0, free_bytes = 0\<rparr>,
        fat = no_volume, total_sectors_cache = 0, ram = boot_mem\<rparr>,
      sh = shell_boot, idts = demo_idt, cpu = \<lparr>phys = boot_mem, cr0 = 0x11, cr3 = 0\<rparr>\<rparr>"

theorem kernel_boots_witness:
  "\<exists>s' n. kernel_start 0 quiet_platform MULTIBOOT_BOOTLOADER_MAGIC 0x1000 cold_machine = Some (Returns s') \<and>
     shown (kern s') (boot_text 1535 n) (fresh_roll 0x20)"
proof -
  let ?es = "[read_mmap_entry boot_mem 0x2000]" and ?m = cold_machine and ?M = quiet_platform
  have io: "ps2_conforms (io ?M) (\<lambda>_. [])" by (simp add: ps2_conforms_def quiet_platform_def)
  have st: "length (bitmap (pm (hp (kern ?m)))) = BITMAP_SIZE" "length (idt (idts ?m)) = 256"
    "nodes (files (kern ?m)) = Map.empty" "ram (kern ?m) = boot_mem"
    by (simp_all add: cold_machine_def demo_idt_def vfs_boot_def)
  have J: "fresh_ok (raw_node ?M m)" for m using fresh_zero by (simp add: quiet_platform_def)
  have mbi: "mbi_flags (read_mbi (ram (kern ?m)) 0x1000) AND MULTIBOOT_INFO_MEM_MAP \<noteq> 0"
    unfolding st(4) by simp
  have chain: "mmap_chain (ram (kern ?m)) (mbi_mmap_addr (read_mbi (ram (kern ?m)) 0x1000))
      (mbi_mmap_addr (read_mbi (ram (kern ?m)) 0x1000) + mbi_mmap_length (read_mbi (ram (kern ?m)) 0x1000)) ?es"
    unfolding st(4) by simp
  have pages: "{513..<2048} = (\<Union>e \<in> set ?es. entry_pages e) - {..unat (kernel_end ?M) div 4096}"
    by (auto simp: quiet_platform_def cold_machine_def entry_pages_def)
  have layout: "paging_layout (page_tables ?M) (page_directory ?M)"
    by (simp add: quiet_platform_def paging_layout_def aligned_def)
  have "(0x1000 :: u32) \<noteq> 0" "{513..<2048 :: nat} \<noteq> {}" by simp_all
  from kernel_boots [OF io st(1-3) J this(1) mbi chain pages this(2) layout]
  show ?thesis by (elim exE conjE) (intro exI conjI, assumption, simp)
qed

end
