(* ===== verification/Spec2Isabelle.thy ===== *)
theory Spec2Isabelle
  imports HeapSpec Mbr FatSpec FatRefine Console Keyboard Paging Interrupts Elf VfsInit ShellSpec Boot
begin

text \<open>
  AlderKernel: a verification development.

  The program is a small i386 kernel: it is booted by a multiboot loader, sets up interrupts, the
  page allocator, paging and a heap, builds a file system in RAM and ends in a shell with
  commands on files, memory, a disk with a partition table and a FAT16 file system, and ELF
  programs.  Every C file of \<^verbatim>\<open>kernel/\<close> is modelled; the theories follow its directories.  Each definition
  is a translation of the function of the same name (loops are functions of their own, named after
  what they do), with its guards and early returns in the code's order.

  \<^bold>\<open>Conventions.\<close>
  \<^item> Integers are words of their C width, so wrap-around is the code's; memory is a function from
    32-bit addresses to bytes; strings are byte lists read up to the first NUL.
  \<^item> \<open>None\<close> is a run that does not return, or whose C behaviour is undefined (an access outside an
    array or to a freed header).  A code that reports failure returns a flag, as in C.  So every theorem
    that concludes \<open>Some\<close> includes that the code returns and stays inside its data.
  \<^item> What is not code of the repository is a parameter: the devices behind the ports, the contents of
    uninitialised memory, the arrival of keyboard interrupts, loaded programs, linker addresses.
    Where a property needs a device to behave, the behaviour is a named hypothesis
    (\<open>ata_conforms\<close>, \<open>ps2_conforms\<close>, \<open>pic_conforms\<close>, the CRT controller's registers), which states the
    documented protocol, and a witness exhibits a device that has it.

  \<^bold>\<open>Theories, in the order they build on each other.\<close>
  \<^item> \<open>Prelude\<close>: word types, little-endian encoding, lists and strings, and the locales \<open>simulation\<close>,
    \<open>guarded_simulation\<close> and \<open>total_simulation\<close>, by which operations on a concrete state are shown to give
    the results of a specification for whole sequences.
  \<^item> \<open>PortIO\<close> (\<^verbatim>\<open>kernel/io.c\<close>): the four port instructions.
  \<^item> \<open>Pmm\<close> (\<^verbatim>\<open>kernel/mm/pmm.c\<close>, \<^verbatim>\<open>kernel/mm/multiboot.h\<close>): the page bitmap and the walk over the memory map.  The locale
    \<open>page_source\<close> is the contract the heap relies on, interpreted on the bitmap allocator.
  \<^item> \<open>Heap\<close>, \<open>HeapInv\<close>, \<open>HeapSpec\<close> (\<^verbatim>\<open>kernel/mm/heap.c\<close>): the block list, its invariant, and the locale
    \<open>allocator\<close> of \<^verbatim>\<open>kmalloc\<close>'s clients, interpreted on the model: regions handed out are disjoint, large enough and aligned,
    the accounting is exact, no call gets stuck.
  \<^item> \<open>Ata\<close> (\<^verbatim>\<open>kernel/drivers/ata.c\<close>): the PIO protocol of the drive, the driver's round trip and its errors; the locale
    \<open>block_device\<close> is what its clients use, interpreted on every conforming drive.
  \<^item> \<open>Mbr\<close> (\<^verbatim>\<open>kernel/fs/mbr.c\<close>): reading and writing the partition table.
  \<^item> \<open>Fat16\<close> (\<^verbatim>\<open>kernel/fs/fat16.c\<close>): all operations; \<open>FatTable\<close> (the allocation table), \<open>FatDir\<close> (directories as lists of
    entries), \<open>FatFiles\<close> (chains of clusters and their contents), \<open>FatVolume\<close> (formatting, mounting, whole
    operations), \<open>FatSpec\<close> (the properties on a drive); \<open>FatTree\<close>, \<open>FatTreeSpec\<close> and \<open>FatRefine\<close>: the volume is a tree of files
    and directories, which the operations refine.
  \<^item> \<open>Console\<close> (\<^verbatim>\<open>kernel/print.c\<close>): the screen is a window on a paper roll.  \<open>Keyboard\<close> (\<^verbatim>\<open>kernel/drivers/ps2.c\<close>): scan codes,
    the ring buffer, and its interleaving with the interrupt handler.
  \<^item> \<open>Paging\<close> (\<^verbatim>\<open>kernel/mm/paging.c\<close>): against the processor's page walk.  \<open>Interrupts\<close> (\<^verbatim>\<open>kernel/idt\<close>, \<^verbatim>\<open>kernel/interrupts\<close>): against the
    gate format and the 8259A protocol.
  \<^item> \<open>Util\<close> (\<^verbatim>\<open>kernel/shell/util.c\<close>).  \<open>Elf\<close> (\<^verbatim>\<open>kernel/elf/elf32.c\<close>): loading, aliasing of image and segments included.
  \<^item> \<open>Vfs\<close>, \<open>FsCommands\<close>, \<open>VfsInit\<close> (\<^verbatim>\<open>kernel/fs/vfs.c\<close>, \<^verbatim>\<open>kernel/shell/fs_commands.c\<close>): nodes on the heap, the tree as paths,
    the commands \<^verbatim>\<open>ls\<close>, \<^verbatim>\<open>cd\<close>, \<^verbatim>\<open>pwd\<close> and \<^verbatim>\<open>cat\<close>.
  \<^item> \<open>Kernel\<close> (the state the parts share), \<open>KernelSpec\<close> (what printing does to it), \<open>Syscall\<close> (\<^verbatim>\<open>kernel/syscalls/syscall.c\<close>), \<open>SysInfo\<close>
    and \<open>DiskCommands\<close> (\<^verbatim>\<open>kernel/shell/sysinfo_commands.c\<close>), \<open>Interpreter\<close> and \<open>InterpreterSpec\<close>
    (\<^verbatim>\<open>kernel/shell/interpreter.c\<close>), \<open>Shell\<close> and \<open>ShellSpec\<close> (\<^verbatim>\<open>kernel/shell/shell.c\<close>): the line editor with its history.
  \<^item> \<open>Boot\<close> (\<^verbatim>\<open>kernel/main.c\<close>, \<^verbatim>\<open>kernel/initramfs.c\<close>): the way to the prompt, from the facts of all of the above.

  \<^bold>\<open>How the parts interact.\<close>  The heap takes pages from \<open>pmm_alloc_page\<close>; the in-RAM file system and the disk commands take memory from
  \<open>kmalloc\<close>; the partition table and FAT16 call the sector operations; keyboard interrupts fill the ring buffer, which the
  shell empties; the shell hands a line to \<open>interpret_command\<close>, which runs a command or, for \<^verbatim>\<open>loop\<close>, interprets the rest of the
  line again.  The record \<open>kernel\<close> holds the static variables of all modules.

  \<^bold>\<open>Bounds and fuel.\<close>
  \<^item> The polling loops of the ATA driver have the code's own bound of 100000 rounds; a conforming drive is busy for less.
  \<^item> \<open>interpret_command\<close> has a depth of nested calls; 128, the size of the line buffer, is enough, since every nested call gets a
    shorter line (\<open>interpret_depth\<close>), and with more than enough the depth makes no difference.
  \<^item> The shell never returns; \<open>shell_run\<close> counts its rounds, and its properties hold for any number and any keys.
  \<^item> Loops that may not end are partial functions without fuel.  For the memory map, the heap's lists and
    the keyboard controller it is proved that they end (\<open>pmm_init_terminates\<close>, \<open>heap_never_stuck\<close>,
    \<open>ps2_init_returns\<close>) and for the memory map also when they do not (\<open>walk_mmap_hangs\<close>); the command
    \<^verbatim>\<open>loop\<close> ends when a key arrives, which is up to the user.

  \<^bold>\<open>Not modelled.\<close>  The assembly stubs and \<^verbatim>\<open>boot.asm\<close> (their addresses are parameters), the linker script, build and host scripts,
  the test application.  Heap headers, the static variables and the RAM are separate in the model: a loaded program that
  overwrites them, which the code does not prevent, is outside it; so is the stack.  Interrupts other than the
  keyboard's are masked by \<open>pic_remap\<close>.

  \<^bold>\<open>Open.\<close>  The disk commands of the shell are modelled and rest on the operations proved here, but have no end-to-end
  theorem over their screen output yet; the display of the line editor is not specified beyond the text it prints.
\<close>

end
